(* ===== verification/Prelude.thy ===== *)
theory Prelude
  imports Main "HOL-Library.Word"
begin

text \<open>
  Shared vocabulary of the development: the machine integers of the program, the faults a run
  of the C code can end in, the result type every fallible operation returns, accesses through
  a C pointer, and the little-endian codec that \<^verbatim>\<open>le16toh\<close> and its relatives stand for.
  Each group comes with the lemmas the component theories use.
\<close>

unbundle bit_operations_syntax

type_synonym u8 = "8 word"
type_synonym u16 = "16 word"
type_synonym u32 = "32 word"
type_synonym u64 = "64 word"
type_synonym bytes = "u8 list"

named_theorems res_simps \<open>case analysis of a result that is known to be \<open>Inr\<close>\<close>
named_theorems buf_simps \<open>abstract effect of the buffer operations\<close>

section \<open>Faults and results\<close>

text \<open>
  A run of the program either returns or stops in one of these ways. \<open>Out_Of_Bounds\<close>,
  \<open>Null_Deref\<close>, \<open>Uninitialised\<close> and \<open>Bad_Format\<close> are undefined behaviour in C,
  \<open>Fatal_Exit\<close> is \<^verbatim>\<open>exit(2)\<close> in \<^verbatim>\<open>fatal()\<close> of util.h, and \<open>Out_Of_Fuel\<close>
  is the value of a loop whose iteration budget was used up.
\<close>

datatype fault =
    Out_Of_Bounds
  | Null_Deref
  | Uninitialised
  | Bad_Format
  | Fatal_Exit
  | Out_Of_Fuel

type_synonym 'a res = "fault + 'a"

definition rbind :: "'a res \<Rightarrow> ('a \<Rightarrow> 'b res) \<Rightarrow> 'b res" where
  "rbind m f = (case m of Inl e \<Rightarrow> Inl e | Inr x \<Rightarrow> f x)"

lemma rbind_Inl [simp]: "rbind (Inl e) f = Inl e"
  by (simp add: rbind_def)

lemma rbind_Inr [simp]: "rbind (Inr x) f = f x"
  by (simp add: rbind_def)

lemma rbind_assoc: "rbind (rbind m f) g = rbind m (\<lambda>x. rbind (f x) g)"
  by (cases m) simp_all

lemma rbind_eq_Inr [res_simps]: "rbind m f = Inr y \<longleftrightarrow> (\<exists>x. m = Inr x \<and> f x = Inr y)"
  by (cases m) simp_all

lemma rbind_InrE:
  assumes "rbind m f = Inr y"
  obtains x where "m = Inr x" and "f x = Inr y"
  using assms by (auto simp: rbind_eq_Inr)

lemma rbind_eq_Inl: "rbind m f = Inl e \<longleftrightarrow> m = Inl e \<or> (\<exists>x. m = Inr x \<and> f x = Inl e)"
  by (cases m) simp_all

lemma rbind_cong [fundef_cong]:
  "m = n \<Longrightarrow> (\<And>x. n = Inr x \<Longrightarrow> f x = g x) \<Longrightarrow> rbind m f = rbind n g"
  by (cases n) simp_all

text \<open>
  \<open>and_then\<close> is the C operator \<^verbatim>\<open>&&\<close> between two calls that report success as a
  \<^verbatim>\<open>bool\<close> and update a state, \<open>and_all\<close> a chain of such calls.
\<close>

definition and_then :: "(bool \<times> 's) res \<Rightarrow> ('s \<Rightarrow> (bool \<times> 's) res) \<Rightarrow> (bool \<times> 's) res" where
  "and_then m f = rbind m (\<lambda>(ok, s). if ok then f s else Inr (False, s))"

fun and_all :: "('s \<Rightarrow> (bool \<times> 's) res) list \<Rightarrow> 's \<Rightarrow> (bool \<times> 's) res" where
  "and_all [] s = Inr (True, s)"
| "and_all (f # fs) s = and_then (f s) (and_all fs)"

lemma and_then_simps [simp]:
  "and_then (Inl e) f = Inl e"
  "and_then (Inr (True, s)) f = f s"
  "and_then (Inr (False, s)) f = Inr (False, s)"
  by (simp_all add: and_then_def)

lemma and_all_append:
  "and_all (fs @ gs) s = and_then (and_all fs s) (and_all gs)"
proof (induction fs arbitrary: s)
  case Nil
  show ?case by simp
next
  case (Cons f fs)
  show ?case
    by (cases "f s") (auto simp: and_then_def Cons.IH split: prod.splits)
qed

text \<open>\<open>runs m P\<close>: \<open>m\<close> returns without a fault, and \<open>P\<close> holds where it reports success.\<close>

definition runs :: "(bool \<times> 's) res \<Rightarrow> ('s \<Rightarrow> bool) \<Rightarrow> bool" where
  "runs m P \<longleftrightarrow> (\<exists>ok s. m = Inr (ok, s) \<and> (ok \<longrightarrow> P s))"

lemma runs_Inr [simp]: "runs (Inr (ok, s)) P \<longleftrightarrow> (ok \<longrightarrow> P s)"
  by (auto simp: runs_def)

lemma runs_and_then: "runs m P \<Longrightarrow> (\<And>s. P s \<Longrightarrow> runs (f s) Q) \<Longrightarrow> runs (and_then m f) Q"
  by (cases m) (auto simp: runs_def and_then_def)

lemma runs_mono: "runs m P \<Longrightarrow> (\<And>s. P s \<Longrightarrow> Q s) \<Longrightarrow> runs m Q"
  by (auto simp: runs_def)

section \<open>Memory behind a pointer\<close>

text \<open>
  A pointer into a block is modelled by the bytes from its target to the end of the block:
  \<open>drop n p\<close> is the pointer \<^verbatim>\<open>p + n\<close>. An access beyond the block is a fault.
\<close>

definition mem_get :: "bytes \<Rightarrow> nat \<Rightarrow> u8 res" where
  "mem_get p i = (if i < length p then Inr (p ! i) else Inl Out_Of_Bounds)"

definition mem_read :: "bytes \<Rightarrow> nat \<Rightarrow> nat \<Rightarrow> bytes res" where
  "mem_read p off n =
     (if off + n \<le> length p then Inr (take n (drop off p)) else Inl Out_Of_Bounds)"

definition mem_write :: "bytes \<Rightarrow> nat \<Rightarrow> bytes \<Rightarrow> bytes res" where
  "mem_write p off xs =
     (if off + length xs \<le> length p
      then Inr (take off p @ xs @ drop (off + length xs) p) else Inl Out_Of_Bounds)"

text \<open>The contents of a fresh \<^verbatim>\<open>malloc\<close> block are whatever the function \<open>junk\<close> says.\<close>

definition malloc_block :: "(nat \<Rightarrow> u8) \<Rightarrow> nat \<Rightarrow> bytes" where
  "malloc_block junk n = map junk [0..<n]"

lemma length_malloc_block [simp]: "length (malloc_block junk n) = n"
  by (simp add: malloc_block_def)

lemma mem_get_in: "i < length p \<Longrightarrow> mem_get p i = Inr (p ! i)"
  by (simp add: mem_get_def)

lemma mem_read_in: "off + n \<le> length p \<Longrightarrow> mem_read p off n = Inr (take n (drop off p))"
  by (simp add: mem_read_def)

lemma mem_write_in:
  "off + length xs \<le> length p
     \<Longrightarrow> mem_write p off xs = Inr (take off p @ xs @ drop (off + length xs) p)"
  by (simp add: mem_write_def)

lemma mem_write_length: "mem_write p off xs = Inr p' \<Longrightarrow> length p' = length p"
  by (auto simp: mem_write_def split: if_splits)

text \<open>Elements of a C array of fixed size.\<close>

definition arr_get :: "'a list \<Rightarrow> nat \<Rightarrow> 'a res" where
  "arr_get xs i = (if i < length xs then Inr (xs ! i) else Inl Out_Of_Bounds)"

definition arr_set :: "'a list \<Rightarrow> nat \<Rightarrow> 'a \<Rightarrow> 'a list res" where
  "arr_set xs i x = (if i < length xs then Inr (xs[i := x]) else Inl Out_Of_Bounds)"

lemma arr_in:
  "i < length xs \<Longrightarrow> arr_get xs i = Inr (xs ! i)"
  "i < length xs \<Longrightarrow> arr_set xs i x = Inr (xs[i := x])"
  by (simp_all add: arr_get_def arr_set_def)

lemma arr_out:
  "length xs \<le> i \<Longrightarrow> arr_get xs i = Inl Out_Of_Bounds"
  "length xs \<le> i \<Longrightarrow> arr_set xs i x = Inl Out_Of_Bounds"
  by (simp_all add: arr_get_def arr_set_def)

section \<open>Little-endian integers\<close>

fun le_word :: "bytes \<Rightarrow> 'a::len word" where
  "le_word [] = 0"
| "le_word (b # bs) = ucast b OR push_bit 8 (le_word bs)"

definition le_bytes :: "nat \<Rightarrow> 'a::len word \<Rightarrow> bytes" where
  "le_bytes n w = map (\<lambda>i. ucast (drop_bit (8 * i) w)) [0..<n]"

lemma length_le_bytes [simp]: "length (le_bytes n w) = n"
  by (simp add: le_bytes_def)

lemma bit_le_word:
  "bit (le_word bs :: 'a::len word) i \<longleftrightarrow>
     i < LENGTH('a) \<and> i < 8 * length bs \<and> bit (bs ! (i div 8)) (i mod 8)"
proof (induction bs arbitrary: i)
  case Nil
  show ?case by simp
next
  case (Cons b bs)
  show ?case
  proof (cases "i < 8")
    case True
    then show ?thesis
      by (auto simp: bit_or_iff bit_unsigned_iff bit_push_bit_iff)
  next
    case False
    then have "i div 8 = Suc ((i - 8) div 8)" and "(i - 8) mod 8 = i mod 8"
      by (simp_all add: le_div_geq le_mod_geq)
    with False show ?thesis
      by (auto simp: bit_or_iff bit_unsigned_iff bit_push_bit_iff Cons.IH dest: bit_imp_le_length)
  qed
qed

lemma le_word_le_bytes:
  assumes "LENGTH('a::len) \<le> 8 * n"
  shows "le_word (le_bytes n w) = (w :: 'a word)"
proof (rule bit_word_eqI)
  fix i
  assume i: "i < LENGTH('a)"
  with assms have "i div 8 < n" by simp
  moreover have "8 * (i div 8) + i mod 8 = i" by simp
  ultimately show "bit (le_word (le_bytes n w) :: 'a word) i = bit w i"
    using i assms by (simp add: bit_le_word le_bytes_def bit_unsigned_iff bit_drop_bit_eq)
qed

lemma le_bytes_le_word:
  assumes "8 * length bs \<le> LENGTH('a::len)"
  shows "le_bytes (length bs) (le_word bs :: 'a word) = bs"
proof (rule nth_equalityI)
  show "length (le_bytes (length bs) (le_word bs :: 'a word)) = length bs" by simp
next
  fix i
  assume "i < length (le_bytes (length bs) (le_word bs :: 'a word))"
  then have i: "i < length bs" by simp
  show "le_bytes (length bs) (le_word bs :: 'a word) ! i = bs ! i"
  proof (rule bit_word_eqI)
    fix j :: nat
    assume j: "j < LENGTH(8)"
    then have "j < 8" by simp
    with i have "8 * i + j < 8 * length bs" and "(8 * i + j) div 8 = i" and "(8 * i + j) mod 8 = j"
      by simp_all
    with i j assms show "bit (le_bytes (length bs) (le_word bs :: 'a word) ! i) j = bit (bs ! i) j"
      by (simp add: le_bytes_def bit_unsigned_iff bit_drop_bit_eq bit_le_word)
  qed
qed

section \<open>Machine arithmetic\<close>

lemma unat_u32_lt [simp]: "unat (c :: u32) < 4294967296"
  using unsigned_less [of c] by simp

lemma unat_u16_lt [simp]: "unat (c :: u16) < 65536"
  using unsigned_less [of c] by simp

lemma unat_u8_lt [simp]: "unat (c :: u8) < 256"
  using unsigned_less [of c] by simp

lemma unat_ucast_32_64 [simp]: "unat (ucast (c :: u32) :: u64) = unat c"
  by (simp add: unsigned_ucast_eq take_bit_nat_eq_self less_trans [OF unat_u32_lt])

lemma unat_ucast_8_32 [simp]: "unat (ucast (c :: u8) :: u32) = unat c"
  by (simp add: unsigned_ucast_eq take_bit_nat_eq_self less_trans [OF unat_u8_lt])

lemma unat_ucast_8_64 [simp]: "unat (ucast (c :: u8) :: u64) = unat c"
  by (simp add: unsigned_ucast_eq take_bit_nat_eq_self less_trans [OF unat_u8_lt])

lemma unat_ucast_64_32: "unat (ucast (c :: u64) :: u32) = unat c mod 4294967296"
  by (simp add: unsigned_ucast_eq take_bit_eq_mod)

lemma unat_ucast_32_8: "unat (ucast (c :: u32) :: u8) = unat c mod 256"
  by (simp add: unsigned_ucast_eq take_bit_eq_mod)

lemma unat_diff: "(b :: 'a::len word) \<le> a \<Longrightarrow> unat (a - b) = unat a - unat b"
  by (simp add: unat_sub word_le_nat_alt)

lemma unat_add_small:
  "unat (a :: 'a::len word) + unat b < 2 ^ LENGTH('a) \<Longrightarrow> unat (a + b) = unat a + unat b"
  by (simp add: unat_word_ariths)

lemma sint_small:
  assumes "unat (c :: u32) < 2147483648"
  shows "sint c = int (unat c)"
proof -
  have u: "uint c = int (unat c)" by (rule uint_nat)
  have "k < 2147483648 \<Longrightarrow> signed_take_bit 31 (int k) = int k" for k :: nat
    by (intro signed_take_bit_int_eq_self) simp_all
  from this [OF assms] show ?thesis by (simp only: sint_uint u) simp
qed

lemma sint_negative:
  assumes "2 ^ 31 \<le> unat (x :: u32)"
  shows "sint x < 0"
proof -
  have u: "uint x = int (unat x)" by (rule uint_nat)
  have "k div 2147483648 = 1" if "2147483648 \<le> k" "k < 4294967296" for k :: int
    using that by (intro int_div_pos_eq [where r = "k - 2147483648"]) simp_all
  moreover have "2147483648 \<le> int (unat x)" "int (unat x) < 4294967296"
    using assms uint_lt2p [of x] by (simp_all add: u del: of_nat_unat)
  ultimately show ?thesis
    by (simp add: sint_uint u signed_take_bit_def bit_iff_odd del: of_nat_unat)
qed

lemma scast_small:
  assumes "unat (c :: u32) < 2147483648"
  shows "unat (scast c :: u64) = unat c"
proof -
  have "sint c = int (unat c)" by (rule sint_small [OF assms])
  moreover have "(scast c :: u64) = word_of_int (sint c)"
    by (rule bit_word_eqI) (simp add: bit_signed_iff bit_word_of_int_iff bit_sint_iff)
  ultimately show ?thesis using assms by (simp add: unat_of_nat take_bit_nat_eq_self)
qed

lemma scast_of_nat:
  assumes "n < 2147483648"
  shows "(scast (of_nat n :: u32) :: u64) = of_nat n"
proof -
  have "unat (of_nat n :: u32) = n" "unat (of_nat n :: u64) = n"
    using assms by (simp_all add: unat_of_nat take_bit_nat_eq_self)
  then show ?thesis
    using scast_small [of "of_nat n"] assms by (simp add: word_unat_eq_iff)
qed

end
