(* ===== verification/Environment.thy ===== *)
theory Environment
  imports Prelude
begin

text \<open>
  The operating system as the program sees it. Nothing of it is defined here: every system call
  and libc call with an effect is a field of the record \<open>env\<close>, a function of the current state
  of the world of type \<open>'w\<close>, and the operations of the model take the record as an argument.
  The record also holds what is not a call: the contents of fresh memory (\<open>junk\<close>), the global
  \<^verbatim>\<open>opt_debug\<close> of main.c, which is set once while the options are parsed and only read
  afterwards, and an iteration budget (\<open>fuel\<close>) for the loops of the code that need not end.
\<close>

text \<open>\<^verbatim>\<open>struct usbdevfs_bulktransfer\<close> of \<^verbatim>\<open>linux/usbdevice_fs.h\<close>; the buffer it points to
  is the byte list \<open>bulk_data\<close>.\<close>

record bulktransfer =
  bulk_ep :: u32
  bulk_len :: u32
  bulk_timeout :: u32
  bulk_data :: bytes

datatype open_mode = O_RDONLY | O_RDWR | O_WRONLY_CREAT_TRUNC

record 'w env =
  opt_debug :: u32
  junk :: "nat \<Rightarrow> u8"
  fuel :: nat
  \<comment> \<open>fd or a negative number\<close>
  sys_open :: "string \<Rightarrow> open_mode \<Rightarrow> 'w \<Rightarrow> int \<times> 'w"
  sys_close :: "int \<Rightarrow> 'w \<Rightarrow> 'w"
  \<comment> \<open>\<^verbatim>\<open>st_size\<close>, or \<open>None\<close> where \<^verbatim>\<open>fstat\<close> fails\<close>
  sys_fstat :: "int \<Rightarrow> 'w \<Rightarrow> u64 option"
  \<comment> \<open>\<^verbatim>\<open>S_ISCHR(st_mode)\<close> and \<^verbatim>\<open>st_rdev\<close>\<close>
  sys_stat :: "string \<Rightarrow> 'w \<Rightarrow> (bool \<times> u64) option"
  \<comment> \<open>the bytes read, or \<open>None\<close> for an error\<close>
  sys_read :: "int \<Rightarrow> nat \<Rightarrow> 'w \<Rightarrow> bytes option \<times> 'w"
  \<comment> \<open>the number of bytes written, or a negative number\<close>
  sys_write :: "int \<Rightarrow> bytes \<Rightarrow> 'w \<Rightarrow> int \<times> 'w"
  \<comment> \<open>the entry names in the order \<^verbatim>\<open>readdir\<close> gives them\<close>
  sys_readdir :: "string \<Rightarrow> 'w \<Rightarrow> string list option"
  \<comment> \<open>the text of a file opened with \<^verbatim>\<open>fopen(path, "r")\<close>\<close>
  sys_text :: "string \<Rightarrow> 'w \<Rightarrow> string option"
  ioctl_bulk :: "int \<Rightarrow> bulktransfer \<Rightarrow> 'w \<Rightarrow> int \<times> bulktransfer \<times> 'w"
  ioctl_setconfiguration :: "int \<Rightarrow> u32 \<Rightarrow> 'w \<Rightarrow> int \<times> 'w"
  ioctl_claiminterface :: "int \<Rightarrow> u32 \<Rightarrow> 'w \<Rightarrow> int \<times> 'w"

end
