(* ===== verification/Bufparser.thy ===== *)
theory Bufparser
  imports Environment
begin

text \<open>
  bufparser.h and bufparser.c: the byte buffer all layers of the program pass around. The first
  part has the inline functions of the header in their order, the second the file operations,
  the third the abstract view of a buffer (\<open>contents\<close>, \<open>room\<close>) with the effect of every
  operation on it, and the locale \<open>byte_fifo\<close> that states what the clients rely on.
\<close>

section \<open>The inline functions\<close>

text \<open>
  \<^verbatim>\<open>size_t\<close> is 64 bits wide, \<^verbatim>\<open>unsigned int\<close> 32 bits. \<open>bdata\<close> is the memory from
  \<^verbatim>\<open>data\<close> to the end of its block. The sub-buffer of \<open>buffer_get_buffer\<close> shares the
  memory of its parent in C; it is only ever read, so the model copies the view.
\<close>

record buffer =
  rpos :: u64
  wpos :: u64
  bsize :: u64
  bdata :: bytes

definition buffer_init_read :: "bytes \<Rightarrow> u32 \<Rightarrow> buffer" where
  "buffer_init_read data len = \<lparr>rpos = 0, wpos = ucast len, bsize = ucast len, bdata = data\<rparr>"

definition buffer_skip :: "buffer \<Rightarrow> u32 \<Rightarrow> bool \<times> buffer" where
  "buffer_skip bp count =
     (if ucast count > wpos bp - rpos bp then (False, bp)
      else (True, bp\<lparr>rpos := rpos bp + ucast count\<rparr>))"

definition buffer_read_pointer :: "buffer \<Rightarrow> bytes" where
  "buffer_read_pointer bp = drop (unat (rpos bp)) (bdata bp)"

definition buffer_available :: "buffer \<Rightarrow> u32" where
  "buffer_available bp = ucast (wpos bp - rpos bp)"

definition buffer_eof :: "buffer \<Rightarrow> bool" where
  "buffer_eof bp = (buffer_available bp = 0)"

definition buffer_seek_read :: "buffer \<Rightarrow> u32 \<Rightarrow> bool \<times> buffer" where
  "buffer_seek_read bp new_pos =
     (if ucast new_pos > wpos bp then (False, bp) else (True, bp\<lparr>rpos := ucast new_pos\<rparr>))"

definition buffer_get :: "buffer \<Rightarrow> u32 \<Rightarrow> (bytes option \<times> buffer) res" where
  "buffer_get bp count =
     (if ucast count > wpos bp - rpos bp then Inr (None, bp)
      else rbind (mem_read (bdata bp) (unat (rpos bp)) (unat count)) (\<lambda>dest.
        Inr (Some dest, bp\<lparr>rpos := rpos bp + ucast count\<rparr>)))"

definition buffer_get_u8 :: "buffer \<Rightarrow> (u8 option \<times> buffer) res" where
  "buffer_get_u8 bp =
     rbind (buffer_get bp 1) (\<lambda>(r, bp). Inr (map_option (\<lambda>v. le_word v) r, bp))"

definition buffer_get_u16le :: "buffer \<Rightarrow> (u16 option \<times> buffer) res" where
  "buffer_get_u16le bp =
     rbind (buffer_get bp 2) (\<lambda>(r, bp). Inr (map_option (\<lambda>v. le_word v) r, bp))"

definition buffer_get_u32le :: "buffer \<Rightarrow> (u32 option \<times> buffer) res" where
  "buffer_get_u32le bp =
     rbind (buffer_get bp 4) (\<lambda>(r, bp). Inr (map_option (\<lambda>v. le_word v) r, bp))"

definition buffer_get_u64le :: "buffer \<Rightarrow> (u64 option \<times> buffer) res" where
  "buffer_get_u64le bp =
     rbind (buffer_get bp 8) (\<lambda>(r, bp). Inr (map_option (\<lambda>v. le_word v) r, bp))"

text \<open>The branch for a 4-byte \<^verbatim>\<open>size_t\<close> is dead on the 64-bit target modelled here.\<close>

definition buffer_get_size :: "buffer \<Rightarrow> (u64 option \<times> buffer) res" where
  "buffer_get_size bp = buffer_get_u64le bp"

definition buffer_get_buffer :: "buffer \<Rightarrow> u32 \<Rightarrow> (buffer option \<times> buffer) res" where
  "buffer_get_buffer bp count =
     (if ucast count > wpos bp - rpos bp then Inr (None, bp)
      else Inr (Some (buffer_init_read (drop (unat (rpos bp)) (bdata bp)) count),
                bp\<lparr>rpos := rpos bp + ucast count\<rparr>))"

definition buffer_init_write :: "bytes \<Rightarrow> u32 \<Rightarrow> buffer" where
  "buffer_init_write data len = \<lparr>rpos = 0, wpos = 0, bsize = ucast len, bdata = data\<rparr>"

text \<open>The block behind the buffer header has exactly the rounded size; \<^verbatim>\<open>malloc\<close> is taken
  to succeed, since the code uses its result unchecked.\<close>

definition buffer_alloc_write :: "(nat \<Rightarrow> u8) \<Rightarrow> u64 \<Rightarrow> buffer" where
  "buffer_alloc_write jk size0 =
     (let size1 = (size0 + 7) AND NOT 7
      in buffer_init_write (malloc_block jk (unat size1)) (ucast size1))"

text \<open>\<^verbatim>\<open>memset\<close> before \<^verbatim>\<open>free\<close>: the result is the block as it is handed back.\<close>

definition buffer_free_secret :: "buffer \<Rightarrow> bytes res" where
  "buffer_free_secret bp = mem_write (bdata bp) 0 (replicate (unat (bsize bp)) 0)"

definition buffer_write_pointer :: "buffer \<Rightarrow> bytes" where
  "buffer_write_pointer bp = drop (unat (wpos bp)) (bdata bp)"

definition buffer_tailroom :: "buffer \<Rightarrow> u32" where
  "buffer_tailroom bp = ucast (bsize bp - wpos bp)"

definition buffer_put :: "buffer \<Rightarrow> bytes \<Rightarrow> u32 \<Rightarrow> (bool \<times> buffer) res" where
  "buffer_put bp src count =
     (if ucast count > bsize bp - wpos bp then Inr (False, bp)
      else rbind (mem_read src 0 (unat count)) (\<lambda>xs.
        rbind (mem_write (bdata bp) (unat (wpos bp)) xs) (\<lambda>d.
          Inr (True, bp\<lparr>bdata := d, wpos := wpos bp + ucast count\<rparr>))))"

definition buffer_put_u8 :: "buffer \<Rightarrow> u8 \<Rightarrow> (bool \<times> buffer) res" where
  "buffer_put_u8 bp v = buffer_put bp (le_bytes 1 v) 1"

definition buffer_put_u16le :: "buffer \<Rightarrow> u16 \<Rightarrow> (bool \<times> buffer) res" where
  "buffer_put_u16le bp v = buffer_put bp (le_bytes 2 v) 2"

definition buffer_put_u32le :: "buffer \<Rightarrow> u32 \<Rightarrow> (bool \<times> buffer) res" where
  "buffer_put_u32le bp v = buffer_put bp (le_bytes 4 v) 4"

definition buffer_put_u64le :: "buffer \<Rightarrow> u64 \<Rightarrow> (bool \<times> buffer) res" where
  "buffer_put_u64le bp v = buffer_put bp (le_bytes 8 v) 8"

definition buffer_put_size :: "buffer \<Rightarrow> u64 \<Rightarrow> (bool \<times> buffer) res" where
  "buffer_put_size bp v = buffer_put_u64le bp v"

text \<open>\<open>buffer_copy\<close> reads straight into the write pointer of \<open>dst\<close>; the result has both
  buffers, the source first.\<close>

definition buffer_copy :: "buffer \<Rightarrow> u32 \<Rightarrow> buffer \<Rightarrow> (bool \<times> buffer \<times> buffer) res" where
  "buffer_copy src count dst =
     (if buffer_tailroom dst < count then Inr (False, src, dst)
      else rbind (buffer_get src count) (\<lambda>(r, src).
        (case r of None \<Rightarrow> Inr (False, src, dst)
         | Some xs \<Rightarrow> rbind (mem_write (bdata dst) (unat (wpos dst)) xs) (\<lambda>d.
             Inr (True, src, dst\<lparr>bdata := d, wpos := wpos dst + ucast count\<rparr>)))))"

definition buffer_truncate :: "buffer \<Rightarrow> u64 \<Rightarrow> bool \<times> buffer" where
  "buffer_truncate bp len =
     (if ucast (buffer_available bp) < len then (False, bp)
      else (True, bp\<lparr>wpos := rpos bp + len\<rparr>))"

section \<open>The abstract view\<close>

text \<open>
  A buffer is well formed when \<open>rpos \<le> wpos \<le> bsize\<close>, the memory behind it has at least
  \<open>bsize\<close> bytes, and \<open>bsize\<close> fits an \<^verbatim>\<open>unsigned int\<close>, which every initialiser ensures.
  Its contents are the bytes between the two positions.
\<close>

definition buf_ok :: "buffer \<Rightarrow> bool" where
  "buf_ok b \<longleftrightarrow> rpos b \<le> wpos b \<and> wpos b \<le> bsize b
     \<and> unat (bsize b) \<le> length (bdata b) \<and> unat (bsize b) < 2 ^ 32"

definition contents :: "buffer \<Rightarrow> bytes" where
  "contents b = take (unat (wpos b) - unat (rpos b)) (drop (unat (rpos b)) (bdata b))"

definition room :: "buffer \<Rightarrow> nat" where
  "room b = unat (bsize b) - unat (wpos b)"

text \<open>The two state changes: bytes consumed at the front, bytes added at the end.\<close>

definition buf_drop :: "buffer \<Rightarrow> nat \<Rightarrow> buffer" where
  "buf_drop b n = b\<lparr>rpos := rpos b + of_nat n\<rparr>"

definition buf_append :: "buffer \<Rightarrow> bytes \<Rightarrow> buffer" where
  "buf_append b xs = b\<lparr>bdata := take (unat (wpos b)) (bdata b) @ xs
       @ drop (unat (wpos b) + length xs) (bdata b), wpos := wpos b + of_nat (length xs)\<rparr>"

lemma buf_okD:
  assumes "buf_ok b"
  shows "unat (rpos b) \<le> unat (wpos b)" and "unat (wpos b) \<le> unat (bsize b)"
    and "unat (bsize b) \<le> length (bdata b)" and "unat (bsize b) < 4294967296"
  using assms by (simp_all add: buf_ok_def word_le_nat_alt)

lemma buf_okI:
  assumes "unat (rpos b) \<le> unat (wpos b)" and "unat (wpos b) \<le> unat (bsize b)"
    and "unat (bsize b) \<le> length (bdata b)" and "unat (bsize b) < 4294967296"
  shows "buf_ok b"
  using assms by (simp add: buf_ok_def word_le_nat_alt)

lemma length_contents:
  assumes "buf_ok b"
  shows "length (contents b) = unat (wpos b) - unat (rpos b)"
  using buf_okD [OF assms] by (simp add: contents_def)

lemma room_bound: "buf_ok b \<Longrightarrow> room b < 4294967296"
  using buf_okD(4) [of b] by (simp add: room_def)

lemma contents_bound: "buf_ok b \<Longrightarrow> length (contents b) < 4294967296"
  using buf_okD [of b] by (simp add: length_contents)

lemma avail_word: "buf_ok b \<Longrightarrow> unat (wpos b - rpos b) = length (contents b)"
  using buf_okD [of b] by (simp add: unat_diff word_le_nat_alt length_contents)

lemma room_word: "buf_ok b \<Longrightarrow> unat (bsize b - wpos b) = room b"
  using buf_okD [of b] by (simp add: unat_diff word_le_nat_alt room_def)

lemma unat_available [buf_simps]: "buf_ok b \<Longrightarrow> unat (buffer_available b) = length (contents b)"
  by (simp add: buffer_available_def unat_ucast_64_32 avail_word contents_bound)

lemma unat_tailroom [buf_simps]: "buf_ok b \<Longrightarrow> unat (buffer_tailroom b) = room b"
  by (simp add: buffer_tailroom_def unat_ucast_64_32 room_word room_bound)

lemma available_zero [buf_simps]: "buf_ok b \<Longrightarrow> buffer_available b = 0 \<longleftrightarrow> contents b = []"
  by (metis length_0_conv unat_available unat_eq_zero)

lemma read_pointer_prefix:
  "buf_ok b \<Longrightarrow> take (length (contents b)) (buffer_read_pointer b) = contents b"
  by (simp add: buffer_read_pointer_def contents_def min_def)

lemma read_pointer_length:
  assumes "buf_ok b"
  shows "length (contents b) \<le> length (buffer_read_pointer b)"
  using buf_okD [OF assms] length_contents [OF assms] by (simp add: buffer_read_pointer_def)

lemma read_pointer_nth:
  assumes "buf_ok b" and "i < length (contents b)"
  shows "buffer_read_pointer b ! i = contents b ! i"
  using assms read_pointer_prefix [OF assms(1)] by (metis nth_take)

text \<open>Consuming.\<close>

lemma unat_of_nat_u64: "n < 4294967296 \<Longrightarrow> unat (of_nat n :: u64) = n"
  by (simp add: unat_of_nat take_bit_nat_eq_self)

lemma buf_drop_pos:
  assumes "buf_ok b" and "n \<le> length (contents b)"
  shows "unat (rpos b + of_nat n) = unat (rpos b) + n"
proof -
  have "unat (rpos b) + n \<le> unat (bsize b)"
    using buf_okD [OF assms(1)] assms(2) by (simp add: length_contents [OF assms(1)])
  then show ?thesis
    using buf_okD(4) [OF assms(1)] by (subst unat_add_small) (simp_all add: unat_of_nat_u64)
qed

lemma buf_drop_ok [buf_simps]:
  assumes "buf_ok b" and "n \<le> length (contents b)"
  shows "buf_ok (buf_drop b n)"
  using buf_okD [OF assms(1)] assms
  by (intro buf_okI) (simp_all add: buf_drop_def buf_drop_pos length_contents)

lemma contents_drop [buf_simps]:
  assumes "buf_ok b" and "n \<le> length (contents b)"
  shows "contents (buf_drop b n) = drop n (contents b)"
  unfolding contents_def [of "buf_drop b n"]
  by (simp add: buf_drop_def buf_drop_pos [OF assms])
    (simp add: contents_def drop_take add.commute)

lemma room_drop [buf_simps]: "room (buf_drop b n) = room b"
  by (simp add: room_def buf_drop_def)

lemma read_pointer_drop:
  assumes "buf_ok b" and "n \<le> length (contents b)"
  shows "buffer_read_pointer (buf_drop b n) = drop n (buffer_read_pointer b)"
  using assms by (simp add: buffer_read_pointer_def buf_drop_def buf_drop_pos add.commute)

lemma ucast_of_nat_unat: "(ucast (c :: u32) :: u64) = of_nat (unat c)"
  by simp

lemma buffer_skip_True [buf_simps]:
  assumes "buf_ok b" and "unat c \<le> length (contents b)"
  shows "buffer_skip b c = (True, buf_drop b (unat c))"
  using assms by (simp add: buffer_skip_def buf_drop_def word_less_nat_alt avail_word)

lemma buffer_skip_False [buf_simps]:
  assumes "buf_ok b" and "length (contents b) < unat c"
  shows "buffer_skip b c = (False, b)"
  using assms by (simp add: buffer_skip_def word_less_nat_alt avail_word)

lemma buffer_get_Some [buf_simps]:
  assumes "buf_ok b" and "unat c \<le> length (contents b)"
  shows "buffer_get b c = Inr (Some (take (unat c) (contents b)), buf_drop b (unat c))"
proof -
  have "unat (rpos b) + unat c \<le> length (bdata b)"
    using buf_okD [OF assms(1)] assms(2) by (simp add: length_contents [OF assms(1)])
  moreover have "take (unat c) (contents b) = take (unat c) (drop (unat (rpos b)) (bdata b))"
    using assms(2) length_contents [OF assms(1)] by (simp add: contents_def min_def)
  ultimately show ?thesis
    using assms by (simp add: buffer_get_def buf_drop_def word_less_nat_alt avail_word mem_read_in)
qed

lemma buffer_get_None [buf_simps]:
  assumes "buf_ok b" and "length (contents b) < unat c"
  shows "buffer_get b c = Inr (None, b)"
  using assms by (simp add: buffer_get_def word_less_nat_alt avail_word)

text \<open>Adding.\<close>

lemma buf_append_pos:
  assumes "buf_ok b" and "length xs \<le> room b"
  shows "unat (wpos b + of_nat (length xs)) = unat (wpos b) + length xs"
proof -
  have "unat (wpos b) + length xs \<le> unat (bsize b)"
    using buf_okD [OF assms(1)] assms(2) by (simp add: room_def)
  then show ?thesis
    using buf_okD(4) [OF assms(1)] by (subst unat_add_small) (simp_all add: unat_of_nat_u64)
qed

lemma buf_append_ok [buf_simps]:
  assumes "buf_ok b" and "length xs \<le> room b"
  shows "buf_ok (buf_append b xs)"
  using buf_okD [OF assms(1)] assms
  by (intro buf_okI) (simp_all add: buf_append_def buf_append_pos room_def)

lemma room_append [buf_simps]:
  assumes "buf_ok b" and "length xs \<le> room b"
  shows "room (buf_append b xs) = room b - length xs"
  unfolding room_def [of "buf_append b xs"]
  by (simp add: buf_append_def buf_append_pos [OF assms]) (simp add: room_def)

lemma contents_append [buf_simps]:
  assumes "buf_ok b" and "length xs \<le> room b"
  shows "contents (buf_append b xs) = contents b @ xs"
proof -
  have "unat (wpos b) \<le> length (bdata b)"
    using buf_okD [OF assms(1)] by simp
  with buf_okD(1) [OF assms(1)] show ?thesis
    unfolding contents_def [of "buf_append b xs"]
    by (simp add: buf_append_def buf_append_pos [OF assms]) (simp add: contents_def drop_take)
qed

lemma buffer_put_True [buf_simps]:
  assumes "buf_ok b" and "unat c \<le> room b" and "unat c \<le> length src"
  shows "buffer_put b src c = Inr (True, buf_append b (take (unat c) src))"
proof -
  have "unat (wpos b) + unat c \<le> length (bdata b)"
    using buf_okD [OF assms(1)] assms(2) by (simp add: room_def)
  then show ?thesis
    using assms
    by (simp add: buffer_put_def buf_append_def word_less_nat_alt room_word mem_read_in mem_write_in min_def)
qed

lemma buffer_put_False [buf_simps]:
  assumes "buf_ok b" and "room b < unat c"
  shows "buffer_put b src c = Inr (False, b)"
  using assms by (simp add: buffer_put_def word_less_nat_alt room_word)

lemma buf_append_append [buf_simps]:
  assumes "buf_ok b" and "length xs + length ys \<le> room b"
  shows "buf_append (buf_append b xs) ys = buf_append b (xs @ ys)"
proof -
  have "length xs \<le> room b" and "unat (wpos b) \<le> length (bdata b)"
    using assms buf_okD [OF assms(1)] by simp_all
  then show ?thesis
    unfolding buf_append_def [of "buf_append b xs"] buf_append_def [of b "xs @ ys"]
    by (simp add: buf_append_def buf_append_pos [OF assms(1)] add.assoc add.commute add.left_commute)
qed

text \<open>Fresh buffers.\<close>

lemma buffer_init_write_ok:
  "unat len \<le> length d \<Longrightarrow> buf_ok (buffer_init_write d len)"
  by (intro buf_okI) (simp_all add: buffer_init_write_def)

lemma buffer_init_read_ok:
  "unat len \<le> length d \<Longrightarrow> buf_ok (buffer_init_read d len)"
  by (intro buf_okI) (simp_all add: buffer_init_read_def)

lemma contents_init [buf_simps]:
  "contents (buffer_init_write d len) = []"
  "contents (buffer_init_read d len) = take (unat len) d"
  "room (buffer_init_write d len) = unat len"
  by (simp_all add: contents_def room_def buffer_init_write_def buffer_init_read_def)

text \<open>\<^verbatim>\<open>(size + 7) & ~7UL\<close> rounds up to a multiple of eight.\<close>

definition round8 :: "nat \<Rightarrow> nat" where
  "round8 n = (n + 7) div 8 * 8"

lemma round8_ge: "n \<le> round8 n"
  by (simp add: round8_def)

lemma round8_le: "round8 n \<le> n + 7"
  by (simp add: round8_def)

lemma round8_top:
  assumes "2 ^ 31 \<le> n + 7" and "n < 2 ^ 32"
  shows "round8 n = 2 ^ 32 \<and> 2 ^ 32 < n + 8 \<or> 2 ^ 31 \<le> round8 n \<and> round8 n < 2 ^ 32"
  using assms unfolding round8_def by simp presburger

lemma and_minus_8: "unat ((x :: u64) AND - 8) = unat x div 8 * 8"
proof -
  have "(- 8 :: u64) = NOT (mask 3)"
    using minus_exp_eq_not_mask [of 3, where 'a = u64] by simp
  moreover have "x AND NOT (mask 3) = push_bit 3 (drop_bit 3 x)"
  proof (rule bit_word_eqI)
    fix i
    assume "i < LENGTH(64)"
    then show "bit (x AND NOT (mask 3)) i = bit (push_bit 3 (drop_bit 3 x)) i"
      by (auto simp: bit_and_iff bit_not_iff bit_mask_iff bit_push_bit_iff bit_drop_bit_eq not_less)
  qed
  moreover have "unat x < 2 ^ LENGTH(64)"
    by (rule unsigned_less)
  then have "unat x div 8 * 8 < 18446744073709551616"
    by simp
  ultimately show ?thesis
    by (simp only: push_bit_eq_mult unat_word_ariths unat_drop_bit_eq drop_bit_eq_div)
      (simp add: mult.commute)
qed

lemma buffer_alloc_write_eq:
  assumes "unat size0 + 7 < 2 ^ 32"
  shows "buffer_alloc_write jk size0 =
    buffer_init_write (malloc_block jk (round8 (unat size0))) (of_nat (round8 (unat size0)))"
proof -
  have "unat (size0 + 7) = unat size0 + 7"
    using assms by (subst unat_add_small) simp_all
  then have "unat ((size0 + 7) AND NOT 7) = round8 (unat size0)"
    by (simp add: and_minus_8 round8_def)
  moreover from this have "ucast ((size0 + 7) AND NOT 7) = (of_nat (round8 (unat size0)) :: u32)"
    by (metis of_nat_unat)
  ultimately show ?thesis
    by (simp add: buffer_alloc_write_def Let_def)
qed

lemma unat_round8_u32: "n + 7 < 2 ^ 32 \<Longrightarrow> unat (of_nat (round8 n) :: u32) = round8 n"
  using round8_le [of n] by (simp add: unat_of_nat take_bit_nat_eq_self)

lemma alloc_ok [buf_simps]:
  assumes "unat size0 + 7 < 2 ^ 32"
  shows "buf_ok (buffer_alloc_write jk size0)"
    and "contents (buffer_alloc_write jk size0) = []"
    and "room (buffer_alloc_write jk size0) = round8 (unat size0)"
  using assms
  by (simp_all add: buffer_alloc_write_eq buf_simps unat_round8_u32 buffer_init_write_ok)

text \<open>The integer accessors as byte accessors.\<close>

lemma buffer_put_ints [buf_simps]:
  assumes "buf_ok b"
  shows "1 \<le> room b \<Longrightarrow> buffer_put_u8 b v8 = Inr (True, buf_append b (le_bytes 1 v8))"
    and "2 \<le> room b \<Longrightarrow> buffer_put_u16le b v16 = Inr (True, buf_append b (le_bytes 2 v16))"
    and "4 \<le> room b \<Longrightarrow> buffer_put_u32le b v32 = Inr (True, buf_append b (le_bytes 4 v32))"
    and "8 \<le> room b \<Longrightarrow> buffer_put_u64le b v64 = Inr (True, buf_append b (le_bytes 8 v64))"
  using assms
  by (simp_all add: buffer_put_u8_def buffer_put_u16le_def buffer_put_u32le_def
      buffer_put_u64le_def buf_simps)

lemma buffer_get_ints [buf_simps]:
  assumes "buf_ok b"
  shows "1 \<le> length (contents b) \<Longrightarrow>
      buffer_get_u8 b = Inr (Some (le_word (take 1 (contents b))), buf_drop b 1)"
    and "2 \<le> length (contents b) \<Longrightarrow>
      buffer_get_u16le b = Inr (Some (le_word (take 2 (contents b))), buf_drop b 2)"
    and "4 \<le> length (contents b) \<Longrightarrow>
      buffer_get_u32le b = Inr (Some (le_word (take 4 (contents b))), buf_drop b 4)"
    and "8 \<le> length (contents b) \<Longrightarrow>
      buffer_get_u64le b = Inr (Some (le_word (take 8 (contents b))), buf_drop b 8)"
  using assms
  by (simp_all add: buffer_get_u8_def buffer_get_u16le_def buffer_get_u32le_def
      buffer_get_u64le_def buf_simps)

lemma le_bytes_1 [simp]: "le_bytes (Suc 0) (v :: u8) = [v]"
  by (simp add: le_bytes_def)

lemma le_word_1 [simp]: "le_word [v] = (v :: u8)"
  by simp

section \<open>What the clients rely on\<close>

text \<open>
  A first-in first-out byte store of bounded room: what \<open>put\<close> and \<open>get\<close> promise. The clients
  write a packet field by field and read it back field by field; the lemmas on whole field
  lists are proved from the laws alone.
\<close>

fun get_all :: "(nat \<Rightarrow> 'b \<Rightarrow> (bytes option \<times> 'b) res) \<Rightarrow> nat list \<Rightarrow> 'b \<Rightarrow> (bytes list option \<times> 'b) res"
  where
  "get_all get [] b = Inr (Some [], b)"
| "get_all get (n # ns) b = rbind (get n b) (\<lambda>(r, b).
     (case r of None \<Rightarrow> Inr (None, b)
      | Some xs \<Rightarrow> rbind (get_all get ns b) (\<lambda>(rs, b). Inr (map_option ((#) xs) rs, b))))"

locale byte_fifo =
  fixes inv :: "'b \<Rightarrow> bool"
    and cont :: "'b \<Rightarrow> bytes"
    and free :: "'b \<Rightarrow> nat"
    and put :: "bytes \<Rightarrow> 'b \<Rightarrow> (bool \<times> 'b) res"
    and get :: "nat \<Rightarrow> 'b \<Rightarrow> (bytes option \<times> 'b) res"
  assumes put_fits: "inv b \<Longrightarrow> length xs \<le> free b \<Longrightarrow>
      \<exists>b'. put xs b = Inr (True, b') \<and> inv b' \<and> cont b' = cont b @ xs \<and> free b' = free b - length xs"
    and put_full: "inv b \<Longrightarrow> free b < length xs \<Longrightarrow> length xs < 2 ^ 32 \<Longrightarrow> put xs b = Inr (False, b)"
    and get_fits: "inv b \<Longrightarrow> n \<le> length (cont b) \<Longrightarrow>
      \<exists>b'. get n b = Inr (Some (take n (cont b)), b') \<and> inv b' \<and> cont b' = drop n (cont b) \<and> free b' = free b"
    and get_short: "inv b \<Longrightarrow> length (cont b) < n \<Longrightarrow> n < 2 ^ 32 \<Longrightarrow> get n b = Inr (None, b)"
begin

lemma put_all_fits:
  "inv b \<Longrightarrow> length (concat xss) \<le> free b \<Longrightarrow>
     \<exists>b'. and_all (map put xss) b = Inr (True, b') \<and> inv b' \<and> cont b' = cont b @ concat xss
        \<and> free b' = free b - length (concat xss)"
proof (induction xss arbitrary: b)
  case Nil
  then show ?case by simp
next
  case (Cons xs xss)
  then obtain b1 where b1: "put xs b = Inr (True, b1)" "inv b1" "cont b1 = cont b @ xs"
      "free b1 = free b - length xs"
    using put_fits [of b xs] by auto
  with Cons.prems have "length (concat xss) \<le> free b1" by simp
  with Cons.IH [OF b1(2)] b1 show ?case by fastforce
qed

lemma get_all_fits:
  "inv b \<Longrightarrow> cont b = concat xss @ ys \<Longrightarrow>
     \<exists>b'. get_all get (map length xss) b = Inr (Some xss, b') \<and> inv b' \<and> cont b' = ys
        \<and> free b' = free b"
proof (induction xss arbitrary: b)
  case Nil
  then show ?case by simp
next
  case (Cons xs xss)
  then obtain b1 where b1: "get (length xs) b = Inr (Some xs, b1)" "inv b1"
      "cont b1 = concat xss @ ys" "free b1 = free b"
    using get_fits [of b "length xs"] by auto
  with Cons.IH [OF b1(2,3)] show ?case by fastforce
qed

lemma put_get_all:
  assumes "inv b" and "cont b = []" and "length (concat xss) \<le> free b"
  shows "\<exists>b' b''. and_all (map put xss) b = Inr (True, b')
           \<and> get_all get (map length xss) b' = Inr (Some xss, b'') \<and> cont b'' = []"
  using put_all_fits [OF assms(1,3)] assms(2) get_all_fits [where xss = xss and ys = "[]"]
  by fastforce

end

lemma of_nat_u32: "n < 4294967296 \<Longrightarrow> unat (of_nat n :: u32) = n"
  by (simp add: unat_of_nat take_bit_nat_eq_self)

interpretation buf: byte_fifo buf_ok contents room
  "\<lambda>xs b. buffer_put b xs (of_nat (length xs))" "\<lambda>n b. buffer_get b (of_nat n)"
proof unfold_locales
  fix b and xs :: bytes
  assume b: "buf_ok b" "length xs \<le> room b"
  then have "unat (of_nat (length xs) :: u32) = length xs"
    using room_bound [of b] by (simp add: of_nat_u32)
  with b show "\<exists>b'. buffer_put b xs (of_nat (length xs)) = Inr (True, b') \<and> buf_ok b'
      \<and> contents b' = contents b @ xs \<and> room b' = room b - length xs"
    by (simp add: buf_simps)
next
  fix b and xs :: bytes
  assume "buf_ok b" "room b < length xs" "length xs < 2 ^ 32"
  then show "buffer_put b xs (of_nat (length xs)) = Inr (False, b)"
    by (simp add: buf_simps of_nat_u32)
next
  fix b n
  assume b: "buf_ok b" "n \<le> length (contents b)"
  then have "unat (of_nat n :: u32) = n"
    using contents_bound [of b] by (simp add: of_nat_u32)
  with b show "\<exists>b'. buffer_get b (of_nat n) = Inr (Some (take n (contents b)), b') \<and> buf_ok b'
      \<and> contents b' = drop n (contents b) \<and> room b' = room b"
    by (simp add: buf_simps)
next
  fix b and n :: nat
  assume "buf_ok b" "length (contents b) < n" "n < 2 ^ 32"
  then show "buffer_get b (of_nat n) = Inr (None, b)"
    by (simp add: buf_simps of_nat_u32)
qed

section \<open>Properties\<close>

text \<open>Every integer that fits is read back as it was written, and what was in the buffer before
  comes first.\<close>

lemma take_all_append: "length xs = n \<Longrightarrow> take n (xs @ ys) = xs"
  by simp

text \<open>C35: Integers written to a buffer with room for them are read back in the same order with the
  same values, and leave the buffer empty.\<close>

theorem put_get_integers:
  assumes "buf_ok b" and "contents b = []" and "15 \<le> room b"
  shows "\<exists>b1 b2. and_all [\<lambda>b. buffer_put_u8 b v8, \<lambda>b. buffer_put_u16le b v16,
        \<lambda>b. buffer_put_u32le b v32, \<lambda>b. buffer_put_size b v64] b = Inr (True, b1)
    \<and> rbind (buffer_get_u8 b1) (\<lambda>(r8, b). rbind (buffer_get_u16le b) (\<lambda>(r16, b).
        rbind (buffer_get_u32le b) (\<lambda>(r32, b). rbind (buffer_get_size b) (\<lambda>(r64, b).
          Inr (r8, r16, r32, r64, b)))))
      = Inr (Some v8, Some v16, Some v32, Some v64, b2)
    \<and> contents b2 = []"
proof -
  let ?xs = "le_bytes 1 v8 @ le_bytes 2 v16 @ le_bytes 4 v32 @ le_bytes 8 v64"
  let ?b1 = "buf_append b ?xs"
  have put: "and_all [\<lambda>b. buffer_put_u8 b v8, \<lambda>b. buffer_put_u16le b v16,
        \<lambda>b. buffer_put_u32le b v32, \<lambda>b. buffer_put_size b v64] b = Inr (True, ?b1)"
    using assms by (simp add: buf_simps buffer_put_size_def)
  have b1: "buf_ok ?b1" "contents ?b1 = ?xs"
    using assms by (simp_all add: buf_simps)
  have le: "le_word (le_bytes 2 v16) = v16" "le_word (le_bytes 4 v32) = v32"
      "le_word (le_bytes 8 v64) = v64"
    by (simp_all add: le_word_le_bytes)
  let ?b2 = "buf_drop (buf_drop (buf_drop (buf_drop ?b1 1) 2) 4) 8"
  have "rbind (buffer_get_u8 ?b1) (\<lambda>(r8, b). rbind (buffer_get_u16le b) (\<lambda>(r16, b).
        rbind (buffer_get_u32le b) (\<lambda>(r32, b). rbind (buffer_get_size b) (\<lambda>(r64, b).
          Inr (r8, r16, r32, r64, b)))))
      = Inr (Some v8, Some v16, Some v32, Some v64, ?b2)"
    using b1 by (simp add: buf_simps buffer_get_size_def le)
  moreover have "contents ?b2 = []"
    using b1 by (simp add: buf_simps)
  ultimately show ?thesis using put by blast
qed

theorem put_get_integers_witness:
  "\<exists>b1 b2. and_all [\<lambda>b. buffer_put_u8 b 1, \<lambda>b. buffer_put_u16le b 0x1050,
        \<lambda>b. buffer_put_u32le b 7, \<lambda>b. buffer_put_size b 8] (buffer_alloc_write (\<lambda>_. 0) 16) = Inr (True, b1)
    \<and> rbind (buffer_get_u8 b1) (\<lambda>(r8, b). rbind (buffer_get_u16le b) (\<lambda>(r16, b).
        rbind (buffer_get_u32le b) (\<lambda>(r32, b). rbind (buffer_get_size b) (\<lambda>(r64, b).
          Inr (r8, r16, r32, r64, b)))))
      = Inr (Some 1, Some 0x1050, Some 7, Some 8, b2)
    \<and> contents b2 = []"
  using put_get_integers [of "buffer_alloc_write (\<lambda>_. 0) 16" 1 "0x1050" 7 8]
  by (simp add: alloc_ok round8_def)

theorem buffer_copy_moves:
  assumes "buf_ok src" and "buf_ok dst" and "unat n \<le> length (contents src)" and "unat n \<le> room dst"
  shows "\<exists>src' dst'. buffer_copy src n dst = Inr (True, src', dst') \<and> buf_ok src' \<and> buf_ok dst'
    \<and> contents src' = drop (unat n) (contents src)
    \<and> contents dst' = contents dst @ take (unat n) (contents src)
    \<and> room dst' = room dst - unat n"
proof -
  let ?xs = "take (unat n) (contents src)"
  have len: "length ?xs = unat n" using assms(3) by simp
  have "\<not> buffer_tailroom dst < n"
    using assms(2,4) by (simp add: word_less_nat_alt unat_tailroom)
  moreover have "unat (wpos dst) + length ?xs \<le> length (bdata dst)"
    using buf_okD [OF assms(2)] assms(4) len by (simp add: room_def)
  then have "mem_write (bdata dst) (unat (wpos dst)) ?xs
      = Inr (take (unat (wpos dst)) (bdata dst) @ ?xs @ drop (unat (wpos dst) + length ?xs) (bdata dst))"
    by (rule mem_write_in)
  moreover have "buffer_get src n = Inr (Some ?xs, buf_drop src (unat n))"
    using assms by (simp add: buf_simps)
  moreover have "wpos dst + ucast n = wpos dst + of_nat (length ?xs)"
    using len by simp
  ultimately have "buffer_copy src n dst = Inr (True, buf_drop src (unat n), buf_append dst ?xs)"
    by (simp add: buffer_copy_def buf_append_def)
  with assms len show ?thesis by (simp add: buf_simps)
qed

theorem buffer_copy_moves_witness:
  "\<exists>src' dst'. buffer_copy (buffer_init_read [1, 2, 3] 3) 2 (buffer_alloc_write (\<lambda>_. 0) 8)
      = Inr (True, src', dst') \<and> contents src' = [3] \<and> contents dst' = [1, 2] \<and> room dst' = 6"
proof -
  have "buf_ok (buffer_init_read [1, 2, 3] 3)" "buf_ok (buffer_alloc_write (\<lambda>_. 0) 8)"
      "unat (2 :: u32) \<le> length (contents (buffer_init_read [1, 2, 3] 3))"
      "unat (2 :: u32) \<le> room (buffer_alloc_write (\<lambda>_. 0) 8)"
    by (simp_all add: buffer_init_read_ok alloc_ok contents_init round8_def)
  from buffer_copy_moves [OF this] show ?thesis
    by (auto simp: contents_init alloc_ok round8_def)
qed

theorem free_secret_clears:
  assumes "buf_ok b"
  shows "\<exists>d. buffer_free_secret b = Inr d \<and> length d = length (bdata b)
    \<and> (\<forall>i < unat (bsize b). d ! i = 0)"
  using buf_okD(3) [OF assms] by (simp add: buffer_free_secret_def mem_write_in nth_append)

theorem free_secret_clears_witness:
  "\<exists>d. buffer_free_secret (buffer_init_read [1, 2] 2) = Inr d \<and> length d = 2 \<and> d ! 0 = 0"
proof -
  have "buf_ok (buffer_init_read [1, 2] 2)" by (simp add: buffer_init_read_ok)
  from free_secret_clears [OF this] show ?thesis by (auto simp: buffer_init_read_def)
qed

end
