(* ===== verification/Buffer_File.thy ===== *)
theory Buffer_File
  imports Bufparser
begin

text \<open>
  The file operations of bufparser.c. The input is read with a single \<^verbatim>\<open>read\<close> of as many bytes as
  \<^verbatim>\<open>fstat\<close> reports; the output is written in a loop that only ends when everything is gone.
\<close>

section \<open>Operations\<close>

text \<open>A null pointer or \<^verbatim>\<open>-\<close> stands for the standard stream, which is not closed.\<close>

definition std_stream :: "string option \<Rightarrow> bool" where
  "std_stream filename \<longleftrightarrow> (case filename of None \<Rightarrow> True | Some f \<Rightarrow> f = ''-'')"

definition open_stream :: "'w env \<Rightarrow> string option \<Rightarrow> open_mode \<Rightarrow> int \<Rightarrow> 'w \<Rightarrow> (int \<times> 'w) res" where
  "open_stream env filename mode std w =
     (if std_stream filename then Inr (std, w)
      else (case filename of None \<Rightarrow> Inl Null_Deref
        | Some f \<Rightarrow> (case sys_open env f mode w of (fd, w) \<Rightarrow>
            if fd < 0 then Inl Fatal_Exit else Inr (fd, w))))"

definition close_stream :: "'w env \<Rightarrow> string option \<Rightarrow> int \<Rightarrow> 'w \<Rightarrow> 'w" where
  "close_stream env filename fd w = (if std_stream filename then w else sys_close env fd w)"

text \<open>\<^verbatim>\<open>count\<close> is an \<^verbatim>\<open>int\<close>; \<^verbatim>\<open>read\<close> stores into the block the buffer was allocated with.\<close>

definition buffer_read_file :: "'w env \<Rightarrow> string option \<Rightarrow> 'w \<Rightarrow> (buffer \<times> 'w) res" where
  "buffer_read_file env filename w =
     rbind (open_stream env filename O_RDONLY 0 w) (\<lambda>(fd, w).
       case sys_fstat env fd w of None \<Rightarrow> Inl Fatal_Exit
       | Some st_size \<Rightarrow>
           (let bp = buffer_alloc_write (junk env) st_size in
            case sys_read env fd (unat st_size) w of
              (None, w) \<Rightarrow> Inl Fatal_Exit
            | (Some bs, w) \<Rightarrow>
                rbind (mem_write (bdata bp) 0 bs) (\<lambda>d.
                  let count = sint (of_nat (length bs) :: u32) in
                  if count < 0 \<or> count \<noteq> sint st_size then Inl Fatal_Exit
                  else Inr (bp\<lparr>bdata := d, wpos := word_of_int count\<rparr>,
                            close_stream env filename fd w))))"

text \<open>
  The loop of \<^verbatim>\<open>buffer_write_file\<close>. The count passed to \<^verbatim>\<open>write\<close> went through an \<^verbatim>\<open>int\<close> and is
  sign-extended; the result of \<^verbatim>\<open>buffer_skip\<close> is ignored.
\<close>

fun write_loop :: "nat \<Rightarrow> 'w env \<Rightarrow> int \<Rightarrow> buffer \<Rightarrow> 'w \<Rightarrow> (buffer \<times> 'w) res" where
  "write_loop 0 env fd bp w = Inl Out_Of_Fuel"
| "write_loop (Suc k) env fd bp w =
     (let n = buffer_available bp in
      if n = 0 then Inr (bp, w)
      else rbind (mem_read (buffer_read_pointer bp) 0 (unat (scast n :: u64))) (\<lambda>bs.
        case sys_write env fd bs w of (n, w) \<Rightarrow>
          if n < 0 then Inl Fatal_Exit
          else (case buffer_skip bp (word_of_int n) of (_, bp) \<Rightarrow> write_loop k env fd bp w)))"

definition buffer_write_file :: "'w env \<Rightarrow> string option \<Rightarrow> buffer \<Rightarrow> 'w \<Rightarrow> (bool \<times> buffer \<times> 'w) res" where
  "buffer_write_file env filename bp w =
     rbind (open_stream env filename O_WRONLY_CREAT_TRUNC 1 w) (\<lambda>(fd, w).
       rbind (write_loop (fuel env) env fd bp w) (\<lambda>(bp, w).
         Inr (True, bp, close_stream env filename fd w)))"

section \<open>Writing\<close>

text \<open>
  What POSIX says of \<^verbatim>\<open>write\<close> on a stream without errors: some of the bytes are taken, in order;
  \<open>out\<close> is what has arrived.
\<close>

definition accepts_writes :: "'w env \<Rightarrow> int \<Rightarrow> ('w \<Rightarrow> bytes) \<Rightarrow> bool" where
  "accepts_writes env fd out \<longleftrightarrow> (\<forall>bs w. bs \<noteq> [] \<longrightarrow>
     (\<exists>n w'. sys_write env fd bs w = (int n, w') \<and> 0 < n \<and> n \<le> length bs \<and> out w' = out w @ take n bs))"

lemma write_loop_all:
  assumes "accepts_writes env fd out" and "buf_ok bp" and "length (contents bp) < 2 ^ 31"
    and "length (contents bp) < k"
  shows "\<exists>bp' w'. write_loop k env fd bp w = Inr (bp', w') \<and> buf_ok bp' \<and> contents bp' = []
    \<and> out w' = out w @ contents bp"
  using assms(2-4)
proof (induction k arbitrary: bp w)
  case 0
  then show ?case by simp
next
  case (Suc k)
  let ?c = "contents bp" and ?n = "buffer_available bp"
  show ?case
  proof (cases "?c = []")
    case True
    with Suc.prems show ?thesis by (simp add: buf_simps)
  next
    case False
    then have nz: "?n \<noteq> 0" using Suc.prems by (simp add: buf_simps)
    have n: "unat (scast ?n :: u64) = length ?c"
      using scast_small [of ?n] Suc.prems by (simp add: unat_available)
    have rd: "mem_read (buffer_read_pointer bp) 0 (unat (scast ?n :: u64)) = Inr ?c"
      using Suc.prems(1) by (simp add: n mem_read_in read_pointer_length read_pointer_prefix)
    obtain j w1 where j: "sys_write env fd ?c w = (int j, w1)" "0 < j" "j \<le> length ?c"
        "out w1 = out w @ take j ?c"
      using assms(1) False unfolding accepts_writes_def by blast
    have u: "unat (word_of_int (int j) :: u32) = j"
      using j(3) Suc.prems(2) by (simp add: of_nat_u32)
    have sk: "buffer_skip bp (word_of_int (int j)) = (True, buf_drop bp j)"
      using buffer_skip_True [OF Suc.prems(1), of "word_of_int (int j)"] j(3) u by simp
    have d: "buf_ok (buf_drop bp j)" "contents (buf_drop bp j) = drop j ?c"
      using Suc.prems(1) j(3) by (simp_all add: buf_simps)
    have "length (contents (buf_drop bp j)) < 2 ^ 31" "length (contents (buf_drop bp j)) < k"
    proof -
      have "length (drop j ?c) < length ?c" using False j(2) by simp
      then show "length (contents (buf_drop bp j)) < 2 ^ 31" "length (contents (buf_drop bp j)) < k"
        using Suc.prems(2,3) unfolding d(2) by linarith+
    qed
    from Suc.IH [OF d(1) this, of w1] obtain bp' w' where
        "write_loop k env fd (buf_drop bp j) w1 = Inr (bp', w')" "buf_ok bp'" "contents bp' = []"
        "out w' = out w1 @ drop j ?c"
      unfolding d(2) by blast
    with nz rd j(1,4) sk show ?thesis by (auto simp: Let_def)
  qed
qed

lemma write_file_ok:
  assumes "open_stream env filename O_WRONLY_CREAT_TRUNC 1 w = Inr (fd, w1)"
    and "accepts_writes env fd out" and "buf_ok bp"
    and "length (contents bp) < 2 ^ 31" and "length (contents bp) < fuel env"
  shows "\<exists>bp' w2. buffer_write_file env filename bp w = Inr (True, bp', close_stream env filename fd w2)
    \<and> contents bp' = [] \<and> out w2 = out w1 @ contents bp"
  using write_loop_all [OF assms(2-5), of w1] assms(1)
  by (auto simp: buffer_write_file_def)

text \<open>C36: If every write to the output takes at least one byte, buffer_write_file ends, and all bytes
  of the buffer have arrived in order, however the writes were split.\<close>

theorem write_file_complete:
  assumes "open_stream env filename O_WRONLY_CREAT_TRUNC 1 w = Inr (fd, w1)"
    and "accepts_writes env fd out" and "buf_ok bp"
    and "length (contents bp) < 2 ^ 31" and "length (contents bp) < fuel env"
  shows "\<exists>bp' w2. buffer_write_file env filename bp w = Inr (True, bp', close_stream env filename fd w2)
    \<and> contents bp' = [] \<and> out w2 = out w1 @ contents bp"
  using assms by (rule write_file_ok)

text \<open>A stream that takes at most three bytes at a time.\<close>

definition slow_env :: "bytes env" where
  "slow_env = \<lparr>opt_debug = 0, junk = (\<lambda>_. 0), fuel = 100,
     sys_open = (\<lambda>_ _ w. (3, w)), sys_close = (\<lambda>_ w. w), sys_fstat = (\<lambda>_ w. Some (of_nat (length w))),
     sys_stat = (\<lambda>_ _. None), sys_read = (\<lambda>_ n w. (Some (take n w), drop n w)),
     sys_write = (\<lambda>_ bs w. (int (min 3 (length bs)), w @ take 3 bs)),
     sys_readdir = (\<lambda>_ _. None), sys_text = (\<lambda>_ _. None), ioctl_bulk = (\<lambda>_ b w. (0, b, w)),
     ioctl_setconfiguration = (\<lambda>_ _ w. (0, w)), ioctl_claiminterface = (\<lambda>_ _ w. (0, w))\<rparr>"

lemma slow_env_writes: "accepts_writes slow_env fd id"
  unfolding accepts_writes_def
proof (intro allI impI)
  fix bs :: bytes and w
  assume "bs \<noteq> []"
  then show "\<exists>n w'. sys_write slow_env fd bs w = (int n, w') \<and> 0 < n \<and> n \<le> length bs
      \<and> id w' = id w @ take n bs"
    by (intro exI [of _ "min 3 (length bs)"]) (auto simp: slow_env_def min_def)
qed

theorem write_file_complete_witness:
  "\<exists>bp'. buffer_write_file slow_env None (buffer_init_read [1, 2, 3, 4, 5] 5) []
     = Inr (True, bp', [1, 2, 3, 4, 5]) \<and> contents bp' = []"
proof -
  have "open_stream slow_env None O_WRONLY_CREAT_TRUNC 1 [] = Inr (1, [])"
    by (simp add: open_stream_def std_stream_def)
  from write_file_complete [OF this slow_env_writes, of "buffer_init_read [1, 2, 3, 4, 5] 5"]
  show ?thesis
    by (auto simp: buffer_init_read_ok contents_init slow_env_def close_stream_def std_stream_def)
qed

section \<open>Reading\<close>

lemma read_file_ok:
  assumes "open_stream env filename O_RDONLY 0 w = Inr (fd, w1)"
    and "sys_fstat env fd w1 = Some (of_nat (length data))"
    and "sys_read env fd (length data) w1 = (Some data, w2)" and "length data < 2 ^ 31 - 8"
  shows "\<exists>bp. buffer_read_file env filename w = Inr (bp, close_stream env filename fd w2)
    \<and> buf_ok bp \<and> contents bp = data"
proof -
  let ?n = "of_nat (length data) :: u64" and ?bp = "buffer_alloc_write (junk env) (of_nat (length data))"
  have n: "unat ?n = length data" using assms(4) by (simp add: unat_of_nat_u64)
  have ok: "buf_ok ?bp" "contents ?bp = []" "room ?bp = round8 (length data)"
    using alloc_ok [of ?n "junk env"] assms(4) by (simp_all add: n)
  have pos: "rpos ?bp = 0" "wpos ?bp = 0"
    by (simp_all add: buffer_alloc_write_def Let_def buffer_init_write_def)
  have len: "length data \<le> length (bdata ?bp)"
    using ok(3) round8_ge [of "length data"] buf_okD(3) [OF ok(1)] pos by (simp add: room_def)
  have c: "sint (of_nat (length data) :: u32) = int (length data)" "sint ?n = int (length data)"
    using assms(4) by (simp_all add: signed_of_nat signed_take_bit_int_eq_self)
  let ?bp' = "?bp\<lparr>bdata := data @ drop (length data) (bdata ?bp), wpos := word_of_int (int (length data))\<rparr>"
  have "buffer_read_file env filename w = Inr (?bp', close_stream env filename fd w2)"
    using assms len by (simp add: buffer_read_file_def Let_def n mem_write_in c)
  moreover have "buf_ok ?bp'" "contents ?bp' = data"
    using buf_okD [OF ok(1)] ok(3) len n round8_ge [of "length data"] pos
    by (auto intro!: buf_okI simp: contents_def room_def)
  ultimately show ?thesis by blast
qed

theorem read_file_regular:
  assumes "open_stream env filename O_RDONLY 0 w = Inr (fd, w1)"
    and "sys_fstat env fd w1 = Some (of_nat (length data))"
    and "sys_read env fd (length data) w1 = (Some data, w2)" and "length data < 2 ^ 31 - 8"
  shows "\<exists>bp. buffer_read_file env filename w = Inr (bp, close_stream env filename fd w2)
    \<and> buf_ok bp \<and> contents bp = data"
  using assms by (rule read_file_ok)

theorem read_file_regular_witness:
  "\<exists>bp. buffer_read_file slow_env (Some ''key'') [1, 2, 3] = Inr (bp, []) \<and> contents bp = [1, 2, 3]"
proof -
  have "open_stream slow_env (Some ''key'') O_RDONLY 0 [1, 2, 3] = Inr (3, [1, 2, 3])"
    by (simp add: open_stream_def std_stream_def slow_env_def)
  from read_file_regular [OF this, of "[1, 2, 3]" "[]"] show ?thesis
    by (auto simp: slow_env_def close_stream_def std_stream_def)
qed

theorem read_pipe_is_empty:
  assumes "sys_fstat env 0 w = Some 0" and "sys_read env 0 0 w = (Some [], w')"
  shows "\<exists>bp. buffer_read_file env (Some ''-'') w = Inr (bp, w') \<and> contents bp = []"
  using assms
  by (simp add: buffer_read_file_def open_stream_def std_stream_def close_stream_def mem_write_def Let_def
      buffer_alloc_write_def buffer_init_write_def contents_def)

theorem read_pipe_is_empty_witness:
  "\<exists>bp. buffer_read_file (slow_env\<lparr>sys_fstat := (\<lambda>_ _. Some 0)\<rparr>) (Some ''-'') [1, 2, 3] = Inr (bp, [1, 2, 3])
     \<and> contents bp = []"
  by (rule read_pipe_is_empty) (simp_all add: slow_env_def)

end
