(* ===== verification/Util.thy ===== *)
theory Util
  imports Prelude
begin

text \<open>
  util.c: hexadecimal parsing and printing, and the parts of libc the program's string handling
  rests on (\<^verbatim>\<open>strtoul\<close>, \<^verbatim>\<open>strchr\<close>, the \<^verbatim>\<open>%02x\<close> and \<^verbatim>\<open>%u\<close> conversions).
  A C string is the list of its characters before the terminating NUL.
\<close>

section \<open>libc\<close>

definition char_code :: "char \<Rightarrow> nat" where
  "char_code c = of_char c"

definition isspace :: "char \<Rightarrow> bool" where
  "isspace c \<longleftrightarrow> char_code c = 32 \<or> 9 \<le> char_code c \<and> char_code c \<le> 13"

text \<open>The value of a digit in bases up to 36.\<close>

definition digit_value :: "char \<Rightarrow> nat option" where
  "digit_value c = (let k = char_code c in
     if 48 \<le> k \<and> k \<le> 57 then Some (k - 48)
     else if 97 \<le> k \<and> k \<le> 122 then Some (k - 87)
     else if 65 \<le> k \<and> k \<le> 90 then Some (k - 55)
     else None)"

definition is_digit :: "nat \<Rightarrow> char \<Rightarrow> bool" where
  "is_digit base c = (case digit_value c of None \<Rightarrow> False | Some v \<Rightarrow> v < base)"

fun digits_value :: "nat \<Rightarrow> nat \<Rightarrow> string \<Rightarrow> nat" where
  "digits_value base acc [] = acc"
| "digits_value base acc (c # cs) = digits_value base (base * acc + the (digit_value c)) cs"

text \<open>
  \<open>strtoul s base\<close> is the converted value and the text \<^verbatim>\<open>endptr\<close> points to: leading white
  space, an optional sign, the \<^verbatim>\<open>0x\<close> prefix in base 16 and base 0 (taken only before a
  hexadecimal digit), base 8 for a leading zero in base 0. Without a digit nothing is consumed.
  A value that does not fit becomes \<^verbatim>\<open>ULONG_MAX\<close>; a minus sign negates modulo \<open>2^64\<close>.
\<close>

definition strtoul_base :: "string \<Rightarrow> nat \<Rightarrow> nat \<times> string" where
  "strtoul_base s base =
     (if (base = 0 \<or> base = 16) \<and> take 1 s = ''0'' \<and> take 1 (drop 1 s) \<in> {''x'', ''X''}
         \<and> (\<exists>c \<in> set (take 1 (drop 2 s)). is_digit 16 c)
      then (16, drop 2 s)
      else if base = 0 then (if take 1 s = ''0'' then (8, s) else (10, s))
      else (base, s))"

definition strtoul :: "string \<Rightarrow> nat \<Rightarrow> u64 \<times> string" where
  "strtoul s base =
     (let s1 = dropWhile isspace s;
          neg = (take 1 s1 = ''-'');
          s2 = (if take 1 s1 \<in> {''-'', ''+''} then drop 1 s1 else s1);
          (b, s3) = strtoul_base s2 base;
          ds = takeWhile (is_digit b) s3;
          n = digits_value b 0 ds
      in if ds = [] then (0, s)
         else if n \<ge> 2 ^ 64 then (- 1, drop (length ds) s3)
         else (if neg then - of_nat n else of_nat n, drop (length ds) s3))"

text \<open>\<^verbatim>\<open>strchr\<close> with the found character overwritten by NUL: the text before it, and the text
  behind it if there is one.\<close>

fun split_at :: "char \<Rightarrow> string \<Rightarrow> string \<times> string option" where
  "split_at c [] = ([], None)"
| "split_at c (x # xs) =
     (if x = c then ([], Some xs) else (case split_at c xs of (a, b) \<Rightarrow> (x # a, b)))"

definition hex_digit :: "nat \<Rightarrow> char" where
  "hex_digit k = char_of (if k < 10 then 48 + k else 87 + k)"

definition hex2 :: "u8 \<Rightarrow> string" where
  "hex2 b = [hex_digit (unat b div 16), hex_digit (unat b mod 16)]"

fun nat_digits :: "nat \<Rightarrow> nat \<Rightarrow> string" where
  "nat_digits base n =
     (if n < base \<or> base < 2 then [hex_digit n] else nat_digits base (n div base) @ [hex_digit (n mod base)])"

declare nat_digits.simps [simp del]

text \<open>Padding with zeros to a width, as in \<^verbatim>\<open>%04x\<close> and \<^verbatim>\<open>%03u\<close>.\<close>

definition zero_pad :: "nat \<Rightarrow> string \<Rightarrow> string" where
  "zero_pad w s = replicate (w - length s) CHR ''0'' @ s"

section \<open>Octet strings\<close>

text \<open>\<^verbatim>\<open>parse_hexdigit\<close> advances the position even where it fails; at the end of the string it
  reads the NUL.\<close>

definition parse_hexdigit :: "string \<Rightarrow> u8 \<Rightarrow> bool \<times> string \<times> u8" where
  "parse_hexdigit pos ret =
     (case pos of [] \<Rightarrow> (False, [], ret)
      | c # pos' \<Rightarrow>
         (let cc = char_code c in
          if 48 \<le> cc \<and> cc \<le> 57 then (True, pos', push_bit 4 ret OR of_nat (cc - 48))
          else if 97 \<le> cc \<and> cc \<le> 102 then (True, pos', push_bit 4 ret OR of_nat (cc - 97 + 10))
          else if 65 \<le> cc \<and> cc \<le> 70 then (True, pos', push_bit 4 ret OR of_nat (cc - 65 + 10))
          else (False, pos', ret)))"

definition parse_octet :: "string \<Rightarrow> u8 \<Rightarrow> bool \<times> string \<times> u8" where
  "parse_octet pos ret =
     (case parse_hexdigit pos ret of (ok, pos, ret) \<Rightarrow>
        if ok then parse_hexdigit pos ret else (False, pos, ret))"

lemma parse_octet_shorter: "parse_octet pos ret = (True, pos', v) \<Longrightarrow> length pos' < length pos"
  by (auto simp: parse_octet_def parse_hexdigit_def Let_def split: list.splits if_splits)

function parse_octet_loop :: "string \<Rightarrow> bytes \<Rightarrow> nat \<Rightarrow> nat \<Rightarrow> (nat \<times> bytes) res" where
  "parse_octet_loop s buf bufsz i =
     (if s = [] then Inr (i, buf)
      else if i \<ge> bufsz then Inr (0, buf)
      else rbind (mem_get buf i) (\<lambda>old.
        (case parse_octet s old of (ok, s', v) \<Rightarrow>
           rbind (mem_write buf i [v]) (\<lambda>buf.
             if ok then parse_octet_loop s' buf bufsz (Suc i) else Inr (0, buf)))))"
  by pat_completeness auto
termination
  by (relation "measure (\<lambda>(s, buf, bufsz, i). length s)") (auto dest: parse_octet_shorter [OF sym])

declare parse_octet_loop.simps [simp del]

definition parse_octet_string :: "string \<Rightarrow> bytes \<Rightarrow> nat \<Rightarrow> (nat \<times> bytes) res" where
  "parse_octet_string string buf bufsz = parse_octet_loop string buf bufsz 0"

fun print_octets :: "bytes \<Rightarrow> nat \<Rightarrow> nat \<Rightarrow> string res" where
  "print_octets data i 0 = Inr []"
| "print_octets data i (Suc n) =
     rbind (mem_get data i) (\<lambda>b. rbind (print_octets data (Suc i) n) (\<lambda>rest.
       Inr ((if i \<noteq> 0 then '':'' else []) @ hex2 b @ rest)))"

definition print_octet_string :: "bytes \<Rightarrow> u32 \<Rightarrow> string res" where
  "print_octet_string data len =
     (if len < 32 then print_octets data 0 (unat len)
      else Inr (take 192 (''<'' @ nat_digits 10 (unat len) @ '' bytes of data>'')))"

section \<open>Hex dumps\<close>

text \<open>
  The lines \<^verbatim>\<open>hexdump\<close> passes to its print function. Octets are read from memory twice, once
  for each column. The line counter is an unbounded number here; in C it is 32 bits wide and
  would only wrap for sizes above \<^verbatim>\<open>0xFFFFFFE0\<close>.
\<close>

fun hexdump_octets :: "bytes \<Rightarrow> nat \<Rightarrow> nat \<Rightarrow> nat \<Rightarrow> nat \<Rightarrow> string res" where
  "hexdump_octets data i bytes_per_line j 0 = Inr []"
| "hexdump_octets data i bytes_per_line j (Suc n) =
     rbind (if j < bytes_per_line
            then rbind (mem_get data (i + j)) (\<lambda>b. Inr ('' '' @ hex2 b)) else Inr ''   '') (\<lambda>s.
       rbind (hexdump_octets data i bytes_per_line (Suc j) n) (\<lambda>rest. Inr (s @ rest)))"

definition ascii_column :: "u8 \<Rightarrow> char" where
  "ascii_column cc = (if 33 \<le> unat cc \<and> unat cc \<le> 126 then char_of (unat cc) else CHR ''.'')"

fun hexdump_ascii :: "bytes \<Rightarrow> nat \<Rightarrow> nat \<Rightarrow> string res" where
  "hexdump_ascii data k 0 = Inr []"
| "hexdump_ascii data k (Suc n) =
     rbind (mem_get data k) (\<lambda>cc.
       rbind (hexdump_ascii data (Suc k) n) (\<lambda>rest. Inr (ascii_column cc # rest)))"

function hexdump_from :: "bytes \<Rightarrow> nat \<Rightarrow> nat \<Rightarrow> nat \<Rightarrow> string list res" where
  "hexdump_from data size0 indent i =
     (if i < size0 then
        (let bytes_per_line = (if size0 - i > 32 then 32 else size0 - i) in
         rbind (hexdump_octets data i bytes_per_line 0 32) (\<lambda>octets.
           rbind (hexdump_ascii data i bytes_per_line) (\<lambda>ascii.
             rbind (hexdump_from data size0 indent (i + 32)) (\<lambda>rest.
               Inr ((replicate indent CHR '' '' @ zero_pad 4 (nat_digits 16 i) @ '' '' @ octets
                     @ '' '' @ ascii @ [CHR 0x0A]) # rest)))))
      else Inr [])"
  by pat_completeness auto
termination
  by (relation "measure (\<lambda>(d, s, ind, i). s - i)") auto

declare hexdump_from.simps [simp del]

definition hexdump :: "bytes \<Rightarrow> u64 \<Rightarrow> nat \<Rightarrow> string list res" where
  "hexdump data size0 indent = hexdump_from data (unat size0) indent 0"

section \<open>Lemmas\<close>

lemma char_code_hex_digit:
  "k < 16 \<Longrightarrow> char_code (hex_digit k) = (if k < 10 then 48 + k else 87 + k)"
  by (simp add: char_code_def hex_digit_def)

lemma high_nibble: "(of_nat (unat (b :: u8) div 16) :: u8) = drop_bit 4 b"
  by (simp add: drop_bit_eq_div flip: unat_div_distrib [of b 16, simplified])

lemma low_nibble: "(of_nat (unat (b :: u8) mod 16) :: u8) = take_bit 4 b"
  by (simp add: take_bit_eq_mod flip: unat_mod_distrib [of b 16, simplified])

lemma nibbles_join: "push_bit 4 (push_bit 4 v OR drop_bit 4 b) OR take_bit 4 b = (b :: u8)"
proof (rule bit_word_eqI)
  fix i
  assume i: "i < LENGTH(8)"
  show "bit (push_bit 4 (push_bit 4 v OR drop_bit 4 b) OR take_bit 4 b) i = bit b i"
  proof (cases "i < 4")
    case True
    then show ?thesis by (simp add: bit_or_iff bit_push_bit_iff bit_take_bit_iff)
  next
    case False
    with i have "i - 4 < 4" by simp
    with False i show ?thesis
      by (simp add: bit_or_iff bit_push_bit_iff bit_take_bit_iff bit_drop_bit_eq)
  qed
qed

lemma parse_hexdigit_hex_digit:
  assumes "k < 16"
  shows "parse_hexdigit (hex_digit k # cs) v = (True, cs, push_bit 4 v OR of_nat k)"
  using char_code_hex_digit [OF assms] assms
  by (cases "k < 10") (simp_all add: parse_hexdigit_def Let_def)

text \<open>Two digits overwrite whatever the octet held before.\<close>

lemma parse_octet_hex2: "parse_octet (hex2 b @ cs) v = (True, cs, b)"
proof -
  have "unat b div 16 < 16" and "unat b mod 16 < 16"
    using unat_u8_lt [of b] by linarith+
  then show ?thesis
    using nibbles_join [of v b]
    by (simp add: parse_octet_def hex2_def parse_hexdigit_hex_digit high_nibble low_nibble)
qed

lemma hex2_not_Nil [simp]: "hex2 b \<noteq> []"
  by (simp add: hex2_def)

lemma length_hex2 [simp]: "length (hex2 b) = 2"
  by (simp add: hex2_def)

lemma parse_octet_loop_hex:
  "i + length bs \<le> bufsz \<Longrightarrow> bufsz \<le> length buf \<Longrightarrow>
     parse_octet_loop (concat (map hex2 bs)) buf bufsz i
       = Inr (i + length bs, take i buf @ bs @ drop (i + length bs) buf)"
proof (induction bs arbitrary: i buf)
  case Nil
  then show ?case by (subst parse_octet_loop.simps) simp
next
  case (Cons b bs)
  let ?buf = "take i buf @ [b] @ drop (i + 1) buf"
  have "mem_get buf i = Inr (buf ! i)" and "mem_write buf i [b] = Inr ?buf"
    using Cons.prems by (simp_all add: mem_get_in mem_write_in)
  then have "parse_octet_loop (concat (map hex2 (b # bs))) buf bufsz i
      = parse_octet_loop (concat (map hex2 bs)) ?buf bufsz (Suc i)"
    using Cons.prems by (subst parse_octet_loop.simps) (simp add: parse_octet_hex2)
  also have "\<dots> = Inr (Suc i + length bs, take (Suc i) ?buf @ bs @ drop (Suc i + length bs) ?buf)"
    using Cons.prems by (intro Cons.IH) auto
  also have "take (Suc i) ?buf = take i buf @ [b]"
    using Cons.prems by simp
  also have "drop (Suc i + length bs) ?buf = drop (i + length (b # bs)) buf"
    using Cons.prems by (simp add: min_def add.commute)
  finally show ?case by simp
qed

lemma print_octets_ok:
  "i + n \<le> length data \<Longrightarrow>
     \<exists>s. print_octets data i n = Inr s \<and> length s = (if n = 0 then 0 else 3 * n - (if i = 0 then 1 else 0))"
proof (induction n arbitrary: i)
  case 0
  then show ?case by simp
next
  case (Suc n)
  then have "Suc i + n \<le> length data" by simp
  from Suc.IH [OF this] obtain s where "print_octets data (Suc i) n = Inr s"
      "length s = (if n = 0 then 0 else 3 * n)"
    by auto
  with Suc.prems show ?case by (auto simp: mem_get_in)
qed

text \<open>A dump of memory that is there only produces output.\<close>

lemma hexdump_octets_ok:
  "i + bpl \<le> length data \<Longrightarrow> \<exists>s. hexdump_octets data i bpl j n = Inr s"
proof (induction n arbitrary: j)
  case 0
  then show ?case by simp
next
  case (Suc n)
  then obtain s where "hexdump_octets data i bpl (Suc j) n = Inr s" by blast
  with Suc.prems show ?case by (simp add: mem_get_in)
qed

lemma hexdump_ascii_ok: "k + n \<le> length data \<Longrightarrow> \<exists>s. hexdump_ascii data k n = Inr s"
proof (induction n arbitrary: k)
  case 0
  then show ?case by simp
next
  case (Suc n)
  then have "Suc k + n \<le> length data" by simp
  then obtain s where "hexdump_ascii data (Suc k) n = Inr s" using Suc.IH by blast
  with Suc.prems show ?case by (simp add: mem_get_in)
qed

lemma hexdump_from_ok:
  "sz \<le> length data \<Longrightarrow> \<exists>ls. hexdump_from data sz ind i = Inr ls"
proof (induction data sz ind i rule: hexdump_from.induct)
  case (1 data sz ind i)
  let ?bpl = "if sz - i > 32 then 32 else sz - i"
  show ?case
  proof (cases "i < sz")
    case True
    with "1.prems" have "i + ?bpl \<le> length data" by auto
    then obtain oc asc where oc: "hexdump_octets data i ?bpl 0 32 = Inr oc"
        and asc: "hexdump_ascii data i ?bpl = Inr asc"
      using hexdump_octets_ok hexdump_ascii_ok by blast
    with True 1 obtain ls where "hexdump_from data sz ind (i + 32) = Inr ls"
      by blast
    with True oc asc show ?thesis
      by (subst hexdump_from.simps) (simp add: Let_def)
  next
    case False
    then show ?thesis by (subst hexdump_from.simps) simp
  qed
qed

lemma hexdump_in: "unat n \<le> length p \<Longrightarrow> rbind (hexdump p n ind) (\<lambda>_. m) = m"
  using hexdump_from_ok [of "unat n" p ind 0] by (auto simp: hexdump_def)

section \<open>Properties\<close>

theorem parse_octet_string_hex:
  assumes "length bs \<le> bufsz" and "bufsz \<le> length buf"
  shows "parse_octet_string (concat (map hex2 bs)) buf bufsz
    = Inr (length bs, bs @ drop (length bs) buf)"
  using parse_octet_loop_hex [of 0 bs bufsz buf] assms by (simp add: parse_octet_string_def)

theorem parse_octet_string_hex_witness:
  "parse_octet_string ''00ff9a'' [1, 2, 3, 4] 4 = Inr (3, [0x00, 0xff, 0x9a, 4])"
proof -
  have "concat (map hex2 [0x00, 0xff, 0x9a]) = ''00ff9a''" by code_simp
  with parse_octet_string_hex [of "[0x00, 0xff, 0x9a]" 4 "[1, 2, 3, 4]"] show ?thesis by simp
qed

lemma nat_digits_length:
  assumes "2 \<le> base"
  shows "n < base ^ k \<Longrightarrow> 0 < k \<Longrightarrow> length (nat_digits base n) \<le> k"
proof (induction k arbitrary: n)
  case 0
  then show ?case by simp
next
  case (Suc k)
  show ?case
  proof (cases "n < base")
    case True
    then show ?thesis by (subst nat_digits.simps) simp
  next
    case False
    with Suc.prems have "n div base < base ^ k" "0 < k"
      by (auto simp: less_mult_imp_div_less mult.commute intro: gr0I)
    from Suc.IH [OF this] False assms show ?thesis by (subst nat_digits.simps) simp
  qed
qed

theorem print_octet_string_bound:
  assumes "unat len \<le> length data"
  shows "\<exists>s. print_octet_string data len = Inr s \<and> length s < 192"
proof (cases "len < 32")
  case True
  then have "unat len < 32" by (simp add: word_less_nat_alt)
  with True print_octets_ok [of 0 "unat len" data] assms show ?thesis
    by (auto simp: print_octet_string_def)
next
  case False
  have "length (nat_digits 10 (unat len)) \<le> 10"
    using unat_u32_lt [of len] by (intro nat_digits_length) (simp_all del: unat_u32_lt)
  with False show ?thesis by (simp add: print_octet_string_def)
qed

theorem print_octet_string_bound_witness:
  "\<exists>s. print_octet_string [1, 2, 3] 3 = Inr s \<and> length s < 192"
  by (rule print_octet_string_bound) simp

theorem hexdump_safe:
  assumes "unat n \<le> length p"
  shows "\<exists>lines. hexdump p n indent = Inr lines \<and> length lines = (unat n + 31) div 32"
proof -
  have "hexdump_from p sz indent i = Inr ls \<Longrightarrow> length ls = (sz - i + 31) div 32" for sz i ls
  proof (induction p sz indent i arbitrary: ls rule: hexdump_from.induct)
    case (1 data sz ind i)
    show ?case
    proof (cases "i < sz")
      case False
      with "1.prems" show ?thesis by (subst (asm) hexdump_from.simps) simp
    next
      case True
      from "1.prems" True obtain oc asc rest where r: "hexdump_octets data i (if sz - i > 32 then 32 else sz - i) 0 32 = Inr oc"
          "hexdump_ascii data i (if sz - i > 32 then 32 else sz - i) = Inr asc"
          "hexdump_from data sz ind (i + 32) = Inr rest" "length ls = Suc (length rest)"
        unfolding hexdump_from.simps [of data sz ind i] by (auto simp: Let_def elim!: rbind_InrE)
      have "length rest = (sz - (i + 32) + 31) div 32" by (rule "1.IH" [OF True refl r(1-3)])
      moreover have "(sz - i + 31) div 32 = Suc ((sz - (i + 32) + 31) div 32)" if "32 < sz - i"
      proof -
        have "sz - i = (sz - (i + 32)) + 32" using that by arith
        then obtain k where k: "sz - i = k + 32" "sz - (i + 32) = k" by blast
        have "(k + 32 + 31) div 32 = Suc ((k + 31) div 32)" by simp
        then show ?thesis unfolding k .
      qed
      moreover have "(sz - i + 31) div 32 = 1" if "sz - i \<le> 32"
      proof -
        have "sz - i + 31 = (sz - i - 1) + 32" using True by simp
        moreover have "(sz - i - 1) div 32 = 0" using that True by simp
        ultimately show ?thesis by simp
      qed
      ultimately show ?thesis using r(4) by (cases "32 < sz - i") auto
    qed
  qed
  with hexdump_from_ok [OF assms, of indent 0] show ?thesis by (fastforce simp: hexdump_def)
qed

theorem hexdump_safe_witness:
  "\<exists>lines. hexdump (replicate 40 7) 40 4 = Inr lines \<and> length lines = 2"
  using hexdump_safe [of 40 "replicate 40 7" 4] by simp

end
