(* ===== verification/Dt_Parser.thy ===== *)
theory Dt_Parser
  imports Prelude
begin

text \<open>
  uusb_const.h: the little-endian field reader for USB descriptors, with its sticky \<^verbatim>\<open>okay\<close>
  flag. The constants of the header that the parsers use are named here as well.
\<close>

section \<open>Constants\<close>

definition UUSB_ENDPOINT_DIR_MASK :: u8 where "UUSB_ENDPOINT_DIR_MASK = 0x80"
definition UUSB_ENDPOINT_IN :: u8 where "UUSB_ENDPOINT_IN = 0x80"
definition UUSB_ENDPOINT_TYPE_MASK :: u8 where "UUSB_ENDPOINT_TYPE_MASK = 0x03"
definition UUSB_ENDPOINT_TYPE_BULK :: u8 where "UUSB_ENDPOINT_TYPE_BULK = 2"
definition UUSB_ENDPOINT_TYPE_INTERRUPT :: u8 where "UUSB_ENDPOINT_TYPE_INTERRUPT = 3"

section \<open>The parser\<close>

record dt_parser =
  dt_data :: bytes
  dt_left :: u32
  dt_okay :: bool

definition uusb_dt_parser_init :: "bytes \<Rightarrow> u32 \<Rightarrow> dt_parser" where
  "uusb_dt_parser_init data len = \<lparr>dt_data = drop 2 data, dt_left = len - 2, dt_okay = True\<rparr>"

text \<open>\<^verbatim>\<open>for (i = n; i--; ) result = (result << 8) | p[i]\<close>\<close>

fun dt_integer_loop :: "bytes \<Rightarrow> nat \<Rightarrow> u64 \<Rightarrow> u64 res" where
  "dt_integer_loop p 0 result = Inr result"
| "dt_integer_loop p (Suc i) result =
     rbind (mem_get p i) (\<lambda>b. dt_integer_loop p i (push_bit 8 result OR ucast b))"

definition uusb_dt_get_integer :: "dt_parser \<Rightarrow> u32 \<Rightarrow> (u64 \<times> dt_parser) res" where
  "uusb_dt_get_integer dtp n =
     (if n > dt_left dtp then Inr (0, dtp\<lparr>dt_okay := False, dt_left := 0\<rparr>)
      else rbind (dt_integer_loop (dt_data dtp) (unat n) 0) (\<lambda>result.
        Inr (result, dtp\<lparr>dt_data := drop (unat n) (dt_data dtp), dt_left := dt_left dtp - n\<rparr>)))"

definition uusb_dt_skip :: "dt_parser \<Rightarrow> u32 \<Rightarrow> bool \<times> dt_parser" where
  "uusb_dt_skip dtp n =
     (if n > dt_left dtp then (False, dtp\<lparr>dt_okay := False, dt_left := 0\<rparr>)
      else (True, dtp\<lparr>dt_data := drop (unat n) (dt_data dtp), dt_left := dt_left dtp - n\<rparr>))"

text \<open>The output parameter \<^verbatim>\<open>*vp\<close> is written whether or not the read succeeds.\<close>

definition uusb_dt_get_byte :: "dt_parser \<Rightarrow> (bool \<times> u8 \<times> dt_parser) res" where
  "uusb_dt_get_byte dtp =
     rbind (uusb_dt_get_integer dtp 1) (\<lambda>(r, dtp). Inr (dt_okay dtp, ucast r, dtp))"

definition uusb_dt_get_word16 :: "dt_parser \<Rightarrow> (bool \<times> u16 \<times> dt_parser) res" where
  "uusb_dt_get_word16 dtp =
     rbind (uusb_dt_get_integer dtp 2) (\<lambda>(r, dtp). Inr (dt_okay dtp, ucast r, dtp))"

definition uusb_dt_get_word32 :: "dt_parser \<Rightarrow> (bool \<times> u32 \<times> dt_parser) res" where
  "uusb_dt_get_word32 dtp =
     rbind (uusb_dt_get_integer dtp 4) (\<lambda>(r, dtp). Inr (dt_okay dtp, ucast r, dtp))"

definition uusb_dt_skip_byte :: "dt_parser \<Rightarrow> bool \<times> dt_parser" where
  "uusb_dt_skip_byte dtp = uusb_dt_skip dtp 1"

definition uusb_dt_skip_word16 :: "dt_parser \<Rightarrow> bool \<times> dt_parser" where
  "uusb_dt_skip_word16 dtp = uusb_dt_skip dtp 2"

definition uusb_dt_skip_word32 :: "dt_parser \<Rightarrow> bool \<times> dt_parser" where
  "uusb_dt_skip_word32 dtp = uusb_dt_skip dtp 4"

section \<open>Steps of a descriptor parser\<close>

text \<open>
  A call \<^verbatim>\<open>uusb_dt_get_byte(&dt, &d->field)\<close> as a step on the pair of the structure being
  filled and the parser; \<open>store\<close> writes into the field. A parser function of the code is the
  chain (\<^verbatim>\<open>&&\<close>) of its steps.
\<close>

definition get_byte :: "(u8 \<Rightarrow> 'd \<Rightarrow> 'd) \<Rightarrow> 'd \<times> dt_parser \<Rightarrow> (bool \<times> 'd \<times> dt_parser) res" where
  "get_byte store = (\<lambda>(d, dtp). rbind (uusb_dt_get_byte dtp) (\<lambda>(ok, v, dtp). Inr (ok, store v d, dtp)))"

definition get_word16 :: "(u16 \<Rightarrow> 'd \<Rightarrow> 'd) \<Rightarrow> 'd \<times> dt_parser \<Rightarrow> (bool \<times> 'd \<times> dt_parser) res" where
  "get_word16 store = (\<lambda>(d, dtp). rbind (uusb_dt_get_word16 dtp) (\<lambda>(ok, v, dtp). Inr (ok, store v d, dtp)))"

definition get_word32 :: "(u32 \<Rightarrow> 'd \<Rightarrow> 'd) \<Rightarrow> 'd \<times> dt_parser \<Rightarrow> (bool \<times> 'd \<times> dt_parser) res" where
  "get_word32 store = (\<lambda>(d, dtp). rbind (uusb_dt_get_word32 dtp) (\<lambda>(ok, v, dtp). Inr (ok, store v d, dtp)))"

definition skip_byte :: "'d \<times> dt_parser \<Rightarrow> (bool \<times> 'd \<times> dt_parser) res" where
  "skip_byte = (\<lambda>(d, dtp). case uusb_dt_skip_byte dtp of (ok, dtp) \<Rightarrow> Inr (ok, d, dtp))"

definition skip_word16 :: "'d \<times> dt_parser \<Rightarrow> (bool \<times> 'd \<times> dt_parser) res" where
  "skip_word16 = (\<lambda>(d, dtp). case uusb_dt_skip_word16 dtp of (ok, dtp) \<Rightarrow> Inr (ok, d, dtp))"

section \<open>Lemmas\<close>

text \<open>The parser stays inside its block while \<open>dt_left\<close> bytes are there to read.\<close>

definition dt_ok :: "dt_parser \<Rightarrow> bool" where
  "dt_ok dtp \<longleftrightarrow> unat (dt_left dtp) \<le> length (dt_data dtp)"

lemma dt_integer_loop_value:
  "i \<le> length p \<Longrightarrow> i + m \<le> 8 \<Longrightarrow>
     dt_integer_loop p i (le_word (take m (drop i p))) = Inr (le_word (take (i + m) p))"
proof (induction i arbitrary: m)
  case 0
  then show ?case by simp
next
  case (Suc i)
  have "take (Suc m) (drop i p) = p ! i # take m (drop (Suc i) p)"
    using Suc.prems by (simp add: Cons_nth_drop_Suc [symmetric])
  then have "push_bit 8 (le_word (take m (drop (Suc i) p))) OR ucast (p ! i)
      = (le_word (take (Suc m) (drop i p)) :: u64)"
    by (simp add: or.commute)
  with Suc.IH [of "Suc m"] Suc.prems show ?case
    by (simp add: mem_get_in)
qed

lemma dt_integer_loop_le:
  assumes "n \<le> length p" and "n \<le> 8"
  shows "dt_integer_loop p n 0 = Inr (le_word (take n p))"
  using dt_integer_loop_value [of n p 0] assms by simp

definition dt_advance :: "dt_parser \<Rightarrow> nat \<Rightarrow> dt_parser" where
  "dt_advance dtp n = dtp\<lparr>dt_data := drop n (dt_data dtp), dt_left := dt_left dtp - of_nat n\<rparr>"

definition dt_fail :: "dt_parser \<Rightarrow> dt_parser" where
  "dt_fail dtp = dtp\<lparr>dt_okay := False, dt_left := 0\<rparr>"

lemma dt_advance_left:
  assumes "n \<le> unat (dt_left dtp)"
  shows "unat (dt_left (dt_advance dtp n)) = unat (dt_left dtp) - n"
proof -
  have "unat (of_nat n :: u32) = n"
    using le_less_trans [OF assms unat_u32_lt] by (simp add: unat_of_nat take_bit_nat_eq_self)
  with assms show ?thesis
    by (simp add: dt_advance_def unat_sub word_le_nat_alt)
qed

lemma dt_advance_ok: "dt_ok dtp \<Longrightarrow> n \<le> unat (dt_left dtp) \<Longrightarrow> dt_ok (dt_advance dtp n)"
  by (simp add: dt_ok_def dt_advance_left) (simp add: dt_advance_def)

lemma dt_fail_ok: "dt_ok (dt_fail dtp)"
  by (simp add: dt_ok_def dt_fail_def)

lemma dt_advance_simps [simp]:
  "dt_data (dt_advance dtp n) = drop n (dt_data dtp)"
  "dt_okay (dt_advance dtp n) = dt_okay dtp"
  by (simp_all add: dt_advance_def)

lemma get_integer_fits:
  assumes "dt_ok dtp" and "n \<le> dt_left dtp" and "unat n \<le> 8"
  shows "uusb_dt_get_integer dtp n
    = Inr (le_word (take (unat n) (dt_data dtp)), dt_advance dtp (unat n))"
proof -
  have "unat n \<le> length (dt_data dtp)"
    using assms by (simp add: dt_ok_def word_le_nat_alt)
  with assms show ?thesis
    by (simp add: uusb_dt_get_integer_def dt_integer_loop_le dt_advance_def leD)
qed

lemma get_integer_short: "dt_left dtp < n \<Longrightarrow> uusb_dt_get_integer dtp n = Inr (0, dt_fail dtp)"
  by (simp add: uusb_dt_get_integer_def dt_fail_def)

lemma skip_fits: "n \<le> dt_left dtp \<Longrightarrow> uusb_dt_skip dtp n = (True, dt_advance dtp (unat n))"
  by (simp add: uusb_dt_skip_def dt_advance_def leD)

lemma skip_short: "dt_left dtp < n \<Longrightarrow> uusb_dt_skip dtp n = (False, dt_fail dtp)"
  by (simp add: uusb_dt_skip_def dt_fail_def)

lemma ucast_le_word:
  "LENGTH('b) \<le> LENGTH('a) \<Longrightarrow> ucast (le_word bs :: 'a::len word) = (le_word bs :: 'b::len word)"
  by (rule bit_word_eqI) (auto simp: bit_unsigned_iff bit_le_word)

section \<open>The contract of a descriptor parser\<close>

text \<open>
  \<open>reads st n f\<close>: started on a healthy parser with \<open>n\<close> bytes left, the step \<open>st\<close> consumes
  exactly \<open>n\<close> bytes and updates the structure by \<open>f\<close> of them; with fewer bytes left it reports
  failure and empties the parser. Contracts compose along a chain.
\<close>

definition reads :: "('d \<times> dt_parser \<Rightarrow> (bool \<times> 'd \<times> dt_parser) res) \<Rightarrow> nat \<Rightarrow> (bytes \<Rightarrow> 'd \<Rightarrow> 'd) \<Rightarrow> bool"
  where
  "reads st n f \<longleftrightarrow> (\<forall>d p. dt_ok p \<longrightarrow> dt_okay p \<longrightarrow>
     (n \<le> unat (dt_left p) \<longrightarrow> st (d, p) = Inr (True, f (take n (dt_data p)) d, dt_advance p n))
     \<and> (unat (dt_left p) < n \<longrightarrow> (\<exists>d' p'. st (d, p) = Inr (False, d', p'))))"

lemma reads_get_byte: "reads (get_byte store) 1 (\<lambda>bs. store (le_word bs))"
  by (auto simp: reads_def get_byte_def uusb_dt_get_byte_def get_integer_fits get_integer_short
      word_le_nat_alt word_less_nat_alt ucast_le_word dt_fail_def)

lemma reads_get_word16: "reads (get_word16 store) 2 (\<lambda>bs. store (le_word bs))"
  by (auto simp: reads_def get_word16_def uusb_dt_get_word16_def get_integer_fits get_integer_short
      word_le_nat_alt word_less_nat_alt ucast_le_word dt_fail_def)

lemma reads_get_word32: "reads (get_word32 store) 4 (\<lambda>bs. store (le_word bs))"
  by (auto simp: reads_def get_word32_def uusb_dt_get_word32_def get_integer_fits get_integer_short
      word_le_nat_alt word_less_nat_alt ucast_le_word dt_fail_def)

lemma reads_skip_byte: "reads skip_byte 1 (\<lambda>bs d. d)"
  by (auto simp: reads_def skip_byte_def uusb_dt_skip_byte_def skip_fits skip_short
      word_le_nat_alt word_less_nat_alt)

lemma reads_skip_word16: "reads skip_word16 2 (\<lambda>bs d. d)"
  by (auto simp: reads_def skip_word16_def uusb_dt_skip_word16_def skip_fits skip_short
      word_le_nat_alt word_less_nat_alt)

lemma reads_Nil: "reads (and_all []) 0 (\<lambda>bs d. d)"
  by (simp add: reads_def dt_advance_def)

lemma dt_advance_add: "dt_advance (dt_advance p n) m = dt_advance p (n + m)"
  by (simp add: dt_advance_def diff_diff_eq add.commute)

lemma reads_Cons:
  assumes "reads st n f" and "reads (and_all sts) m g"
  shows "reads (and_all (st # sts)) (n + m) (\<lambda>bs d. g (drop n bs) (f (take n bs) d))"
  unfolding reads_def
proof (intro allI impI conjI)
  fix d p
  assume p: "dt_ok p" "dt_okay p"
  let ?p = "dt_advance p n" and ?d = "f (take n (dt_data p)) d"
  {
    assume len: "n + m \<le> unat (dt_left p)"
    then have "st (d, p) = Inr (True, ?d, ?p)" and "dt_ok ?p" and "m \<le> unat (dt_left ?p)"
      using assms(1) p by (simp_all add: reads_def dt_advance_ok dt_advance_left)
    then show "and_all (st # sts) (d, p) = Inr (True,
        g (drop n (take (n + m) (dt_data p))) (f (take n (take (n + m) (dt_data p))) d),
        dt_advance p (n + m))"
      using assms(2) p by (simp add: reads_def dt_advance_add drop_take)
  next
    assume len: "unat (dt_left p) < n + m"
    show "\<exists>d' p'. and_all (st # sts) (d, p) = Inr (False, d', p')"
    proof (cases "n \<le> unat (dt_left p)")
      case True
      then have "st (d, p) = Inr (True, ?d, ?p)" and "dt_ok ?p" and "unat (dt_left ?p) < m"
        using assms(1) p len by (simp_all add: reads_def dt_advance_ok dt_advance_left)
      then show ?thesis
        using assms(2) p by (simp add: reads_def)
    next
      case False
      then obtain d' p' where "st (d, p) = Inr (False, d', p')"
        using assms(1) p unfolding reads_def by (meson not_less)
      then show ?thesis by simp
    qed
  }
qed

lemma reads_eqI: "reads st n f \<Longrightarrow> n = m \<Longrightarrow> f = g \<Longrightarrow> reads st m g"
  by simp

lemmas reads_steps = reads_get_byte reads_get_word16 reads_get_word32 reads_skip_byte
  reads_skip_word16

locale descriptor_parser =
  fixes parse :: "'d \<times> dt_parser \<Rightarrow> (bool \<times> 'd \<times> dt_parser) res"
    and width :: nat
    and layout :: "bytes \<Rightarrow> 'd \<Rightarrow> 'd"
  assumes reads: "reads parse width layout"
begin

lemma parse_fits:
  assumes "unat len \<le> length data" and "width + 2 \<le> unat len"
  shows "parse (d, uusb_dt_parser_init data len) = Inr (True, layout (take width (drop 2 data)) d,
           dt_advance (uusb_dt_parser_init data len) width)"
proof -
  have "unat (len - 2) = unat len - 2"
    using assms by (simp add: unat_sub word_le_nat_alt)
  with assms reads show ?thesis
    by (simp add: reads_def uusb_dt_parser_init_def dt_ok_def)
qed

lemma parse_short:
  assumes "unat len \<le> length data" and "2 \<le> unat len" and "unat len < width + 2"
  shows "\<exists>d' p'. parse (d, uusb_dt_parser_init data len) = Inr (False, d', p')"
proof -
  have "unat (len - 2) = unat len - 2"
    using assms by (simp add: unat_sub word_le_nat_alt)
  with assms reads show ?thesis
    by (simp add: reads_def uusb_dt_parser_init_def dt_ok_def)
qed

lemma parse_safe:
  assumes "unat len \<le> length data" and "2 \<le> unat len"
  shows "\<exists>ok d' p'. parse (d, uusb_dt_parser_init data len) = Inr (ok, d', p')"
  using parse_fits [OF assms(1)] parse_short [OF assms] by (meson not_le)

end

end
