(* ===== verification/Ccid.thy ===== *)
theory Ccid
  imports Dt_Parser
begin

text \<open>
  ccid.c and ccid_impl.h: the CCID class descriptor and its parser, with the layout of the
  descriptor as the reference it is proved against.
\<close>

record ccid_descriptor =
  bcdCCID :: u16
  bMaxSlotIndex :: u8
  bVoltageSupport :: u8
  dwProtocols :: u32
  dwDefaultClock :: u32
  dwMaximumClock :: u32
  bNumClockRatesSupported :: u8
  dwDataRate :: u32
  dwMaxDataRate :: u32
  bNumDataRatesSupported :: u8
  dwMaxIFSD :: u32
  dwSynchProtocols :: u32
  dwMechanical :: u32
  dwFeatures :: u32
  dwMaxCCIDMessageLength :: u32
  bClassGetResponse :: u8
  bClassEnvelope :: u8
  wLcdLayout :: u16
  bPINSupport :: u8
  bMaxCCIDBusySlots :: u8

definition CCID_PROTO_T0_MASK :: u32 where "CCID_PROTO_T0_MASK = 0x01"
definition CCID_PROTO_T1_MASK :: u32 where "CCID_PROTO_T1_MASK = 0x02"

text \<open>\<^verbatim>\<open>calloc\<close> hands out the all-zero structure.\<close>

definition ccid_zero :: ccid_descriptor where
  "ccid_zero = \<lparr>bcdCCID = 0, bMaxSlotIndex = 0, bVoltageSupport = 0, dwProtocols = 0,
     dwDefaultClock = 0, dwMaximumClock = 0, bNumClockRatesSupported = 0, dwDataRate = 0,
     dwMaxDataRate = 0, bNumDataRatesSupported = 0, dwMaxIFSD = 0, dwSynchProtocols = 0,
     dwMechanical = 0, dwFeatures = 0, dwMaxCCIDMessageLength = 0, bClassGetResponse = 0,
     bClassEnvelope = 0, wLcdLayout = 0, bPINSupport = 0, bMaxCCIDBusySlots = 0\<rparr>"

definition ccid_fields :: "ccid_descriptor \<times> dt_parser \<Rightarrow> (bool \<times> ccid_descriptor \<times> dt_parser) res" where
  "ccid_fields = and_all
    [get_word16 (\<lambda>v d. d\<lparr>bcdCCID := v\<rparr>),
     get_byte (\<lambda>v d. d\<lparr>bMaxSlotIndex := v\<rparr>),
     get_byte (\<lambda>v d. d\<lparr>bVoltageSupport := v\<rparr>),
     get_word32 (\<lambda>v d. d\<lparr>dwProtocols := v\<rparr>),
     get_word32 (\<lambda>v d. d\<lparr>dwDefaultClock := v\<rparr>),
     get_word32 (\<lambda>v d. d\<lparr>dwMaximumClock := v\<rparr>),
     get_byte (\<lambda>v d. d\<lparr>bNumClockRatesSupported := v\<rparr>),
     get_word32 (\<lambda>v d. d\<lparr>dwDataRate := v\<rparr>),
     get_word32 (\<lambda>v d. d\<lparr>dwMaxDataRate := v\<rparr>),
     get_byte (\<lambda>v d. d\<lparr>bNumDataRatesSupported := v\<rparr>),
     get_word32 (\<lambda>v d. d\<lparr>dwMaxIFSD := v\<rparr>),
     get_word32 (\<lambda>v d. d\<lparr>dwSynchProtocols := v\<rparr>),
     get_word32 (\<lambda>v d. d\<lparr>dwMechanical := v\<rparr>),
     get_word32 (\<lambda>v d. d\<lparr>dwFeatures := v\<rparr>),
     get_word32 (\<lambda>v d. d\<lparr>dwMaxCCIDMessageLength := v\<rparr>),
     get_byte (\<lambda>v d. d\<lparr>bClassGetResponse := v\<rparr>),
     get_byte (\<lambda>v d. d\<lparr>bClassEnvelope := v\<rparr>),
     get_word16 (\<lambda>v d. d\<lparr>wLcdLayout := v\<rparr>),
     get_byte (\<lambda>v d. d\<lparr>bPINSupport := v\<rparr>),
     get_byte (\<lambda>v d. d\<lparr>bMaxCCIDBusySlots := v\<rparr>)]"

definition ccid_parse_usb_descriptor ::
    "ccid_descriptor \<Rightarrow> bytes \<Rightarrow> u32 \<Rightarrow> (bool \<times> ccid_descriptor) res" where
  "ccid_parse_usb_descriptor d data len =
     rbind (ccid_fields (d, uusb_dt_parser_init data len)) (\<lambda>(ok, d, _). Inr (ok, d))"

section \<open>The layout of the descriptor\<close>

text \<open>The little-endian field of \<open>n\<close> bytes at offset \<open>off\<close> of the body, which starts behind the
  two header bytes.\<close>

definition field :: "nat \<Rightarrow> nat \<Rightarrow> bytes \<Rightarrow> 'a::len word" where
  "field off n bs = le_word (take n (drop off bs))"

definition ccid_layout :: "bytes \<Rightarrow> ccid_descriptor" where
  "ccid_layout bs = \<lparr>bcdCCID = field 0 2 bs, bMaxSlotIndex = field 2 1 bs,
     bVoltageSupport = field 3 1 bs, dwProtocols = field 4 4 bs, dwDefaultClock = field 8 4 bs,
     dwMaximumClock = field 12 4 bs, bNumClockRatesSupported = field 16 1 bs,
     dwDataRate = field 17 4 bs, dwMaxDataRate = field 21 4 bs,
     bNumDataRatesSupported = field 25 1 bs, dwMaxIFSD = field 26 4 bs,
     dwSynchProtocols = field 30 4 bs, dwMechanical = field 34 4 bs, dwFeatures = field 38 4 bs,
     dwMaxCCIDMessageLength = field 42 4 bs, bClassGetResponse = field 46 1 bs,
     bClassEnvelope = field 47 1 bs, wLcdLayout = field 48 2 bs, bPINSupport = field 50 1 bs,
     bMaxCCIDBusySlots = field 51 1 bs\<rparr>"

text \<open>The descriptor as it stands in the configuration data of a device: length, type \<open>0x21\<close>,
  and the fields in order.\<close>

definition ccid_bytes :: "ccid_descriptor \<Rightarrow> bytes" where
  "ccid_bytes d = [54, 0x21] @ le_bytes 2 (bcdCCID d) @ le_bytes 1 (bMaxSlotIndex d)
     @ le_bytes 1 (bVoltageSupport d) @ le_bytes 4 (dwProtocols d) @ le_bytes 4 (dwDefaultClock d)
     @ le_bytes 4 (dwMaximumClock d) @ le_bytes 1 (bNumClockRatesSupported d)
     @ le_bytes 4 (dwDataRate d) @ le_bytes 4 (dwMaxDataRate d)
     @ le_bytes 1 (bNumDataRatesSupported d) @ le_bytes 4 (dwMaxIFSD d)
     @ le_bytes 4 (dwSynchProtocols d) @ le_bytes 4 (dwMechanical d) @ le_bytes 4 (dwFeatures d)
     @ le_bytes 4 (dwMaxCCIDMessageLength d) @ le_bytes 1 (bClassGetResponse d)
     @ le_bytes 1 (bClassEnvelope d) @ le_bytes 2 (wLcdLayout d) @ le_bytes 1 (bPINSupport d)
     @ le_bytes 1 (bMaxCCIDBusySlots d)"

lemma reads_ccid_fields: "reads ccid_fields 52 (\<lambda>bs d. ccid_layout bs)"
  unfolding ccid_fields_def
  by (rule reads_eqI, (rule reads_Cons reads_steps reads_Nil)+)
    (auto intro!: ccid_descriptor.equality simp: fun_eq_iff ccid_layout_def field_def
      simp flip: numeral_3_eq_3)

interpretation ccid: descriptor_parser ccid_fields 52 "\<lambda>bs d. ccid_layout bs"
  by unfold_locales (rule reads_ccid_fields)

lemma ccid_parse_layout:
  assumes "unat len \<le> length data" and "54 \<le> unat len"
  shows "ccid_parse_usb_descriptor d data len = Inr (True, ccid_layout (take 52 (drop 2 data)))"
  using ccid.parse_fits [OF assms(1)] assms(2) by (simp add: ccid_parse_usb_descriptor_def)

theorem ccid_parse_decides:
  assumes "unat len \<le> length data" and "2 \<le> unat len"
  shows "if 54 \<le> unat len
    then ccid_parse_usb_descriptor d data len = Inr (True, ccid_layout (take 52 (drop 2 data)))
    else \<exists>d'. ccid_parse_usb_descriptor d data len = Inr (False, d')"
  using ccid_parse_layout [OF assms(1)] ccid.parse_short [OF assms, of d]
  by (auto simp: ccid_parse_usb_descriptor_def)

theorem ccid_parse_decides_witness:
  "ccid_parse_usb_descriptor ccid_zero (replicate 54 7) 54 = Inr (True, ccid_layout (replicate 52 7))
   \<and> (\<exists>d'. ccid_parse_usb_descriptor ccid_zero (replicate 20 7) 20 = Inr (False, d'))"
  using ccid_parse_decides [of 54 "replicate 54 7" ccid_zero]
    ccid_parse_decides [of 20 "replicate 20 7" ccid_zero]
  by simp

lemma field_of_bytes:
  assumes "length xs = off" and "LENGTH('a::len) = 8 * n"
  shows "field off n (xs @ le_bytes n (v :: 'a word) @ ys) = v"
  using assms by (simp add: field_def le_word_le_bytes)

lemma take_le_bytes: "take n (le_bytes n v @ ys) = le_bytes n v"
  by simp

lemma length_ccid_bytes: "length (ccid_bytes d) = 54"
  by (simp add: ccid_bytes_def)

lemma ccid_layout_bytes: "ccid_layout (drop 2 (ccid_bytes d)) = d"
  by (simp add: ccid_layout_def ccid_bytes_def field_def le_word_le_bytes)

text \<open>C32: Every CCID class descriptor is recovered from its 54-byte encoding, whatever the record
  held before and whatever follows.\<close>

theorem ccid_parse_roundtrip:
  "ccid_parse_usb_descriptor d0 (ccid_bytes d @ rest) 54 = Inr (True, d)"
  using ccid_parse_layout [of 54 "ccid_bytes d @ rest" d0]
  by (simp add: length_ccid_bytes ccid_layout_bytes)

end
