(* ===== verification/Descriptor.thy ===== *)
theory Descriptor
  imports Ccid Util Environment
begin

text \<open>
  descriptor.c and uusb_impl.h: the parser that turns the \<^verbatim>\<open>descriptors\<close> file of sysfs into the
  tree of configurations, interfaces and endpoints of a device. The tree is kept in arrays of
  fixed size, as in C; a pointer into it is the index of the element. The \<^verbatim>\<open>usb_debug\<close> calls
  are compiled out (\<^verbatim>\<open>#undef USB_DEBUG\<close>).
\<close>

section \<open>Constants and structures\<close>

definition USB_DT_DEVICE :: u8 where "USB_DT_DEVICE = 0x01"
definition USB_DT_CONFIG :: u8 where "USB_DT_CONFIG = 0x02"
definition USB_DT_STRING :: u8 where "USB_DT_STRING = 0x03"
definition USB_DT_INTERFACE :: u8 where "USB_DT_INTERFACE = 0x04"
definition USB_DT_ENDPOINT :: u8 where "USB_DT_ENDPOINT = 0x05"
definition USB_DT_HID :: u8 where "USB_DT_HID = 0x21"

lemmas dt_type_defs = USB_DT_DEVICE_def USB_DT_CONFIG_def USB_DT_INTERFACE_def USB_DT_ENDPOINT_def

definition UUSB_MAX_CONFIGS :: nat where "UUSB_MAX_CONFIGS = 8"
definition UUSB_MAX_INTERFACES :: nat where "UUSB_MAX_INTERFACES = 8"
definition UUSB_MAX_ENDPOINTS :: nat where "UUSB_MAX_ENDPOINTS = 4"

lemmas max_defs = UUSB_MAX_CONFIGS_def UUSB_MAX_INTERFACES_def UUSB_MAX_ENDPOINTS_def

text \<open>The name of a descriptor type; \<^verbatim>\<open>snprintf\<close> cuts it to the size of the static array.\<close>

definition uusb_dt_type_string :: "u32 \<Rightarrow> string" where
  "uusb_dt_type_string dt_type =
     (if dt_type = ucast USB_DT_DEVICE then ''device''
      else if dt_type = ucast USB_DT_CONFIG then ''config''
      else if dt_type = ucast USB_DT_STRING then ''string''
      else if dt_type = ucast USB_DT_INTERFACE then ''intf''
      else if dt_type = ucast USB_DT_ENDPOINT then ''ep''
      else if dt_type = ucast USB_DT_HID then ''hid''
      else take 15 (''t'' @ zero_pad 2 (nat_digits 16 (unat dt_type))))"

record uusb_type =
  idVendor :: u16
  idProduct :: u16

record uusb_devaddr =
  bus :: u16
  dev_num :: u16

record classproto =
  cp_class :: u8
  cp_subclass :: u8
  cp_protocol :: u8

record device_descriptor =
  dd_bDevice :: classproto
  dd_bMaxPacketSize0 :: u8
  dd_idVendor :: u16
  dd_idProduct :: u16
  bNumConfigurations :: u8

record config_descriptor =
  bNumInterfaces :: u8
  bConfigurationValue :: u8
  cd_bmAttributes :: u8
  MaxPower :: u8

record interface_descriptor =
  id_bInterface :: classproto
  bInterfaceNumber :: u8
  bAlternateSetting :: u8
  bNumEndpoints :: u8

record endpoint_descriptor =
  bEndpointAddress :: u8
  ed_bmAttributes :: u8

text \<open>The function pointer \<^verbatim>\<open>handle_descriptor\<close> has one possible target.\<close>

datatype descriptor_handler = Handle_ccid_descriptor

record intf_type =
  it_name :: string
  it_classproto :: classproto
  handle_descriptor :: "descriptor_handler option"

record uusb_interface =
  if_descriptor :: interface_descriptor
  if_type :: "intf_type option"
  if_ccid :: "ccid_descriptor option"
  num_endpoints :: u32
  if_endpoint :: "endpoint_descriptor list"

record uusb_config =
  cf_descriptor :: config_descriptor
  num_interfaces :: u32
  cf_interface :: "uusb_interface list"

record uusb_dev =
  sysfs_dir :: string
  dev_path :: "string option"
  dev_fd :: int
  ep_o :: int
  ep_i :: int
  ep_intr :: int
  dev_type :: uusb_type
  devaddr :: uusb_devaddr
  dev_descriptor :: device_descriptor
  num_configs :: u32
  dev_config :: "uusb_config list"

text \<open>The structures as \<^verbatim>\<open>calloc\<close> leaves them.\<close>

definition classproto_zero :: classproto where
  "classproto_zero = \<lparr>cp_class = 0, cp_subclass = 0, cp_protocol = 0\<rparr>"

definition endpoint_zero :: endpoint_descriptor where
  "endpoint_zero = \<lparr>bEndpointAddress = 0, ed_bmAttributes = 0\<rparr>"

definition interface_zero :: uusb_interface where
  "interface_zero = \<lparr>if_descriptor = \<lparr>id_bInterface = classproto_zero, bInterfaceNumber = 0,
       bAlternateSetting = 0, bNumEndpoints = 0\<rparr>, if_type = None, if_ccid = None,
     num_endpoints = 0, if_endpoint = replicate UUSB_MAX_ENDPOINTS endpoint_zero\<rparr>"

definition config_zero :: uusb_config where
  "config_zero = \<lparr>cf_descriptor = \<lparr>bNumInterfaces = 0, bConfigurationValue = 0,
       cd_bmAttributes = 0, MaxPower = 0\<rparr>, num_interfaces = 0,
     cf_interface = replicate UUSB_MAX_INTERFACES interface_zero\<rparr>"

definition dev_zero :: uusb_dev where
  "dev_zero = \<lparr>sysfs_dir = [], dev_path = None, dev_fd = 0, ep_o = 0, ep_i = 0, ep_intr = 0,
     dev_type = \<lparr>idVendor = 0, idProduct = 0\<rparr>, devaddr = \<lparr>bus = 0, dev_num = 0\<rparr>,
     dev_descriptor = \<lparr>dd_bDevice = classproto_zero, dd_bMaxPacketSize0 = 0, dd_idVendor = 0,
       dd_idProduct = 0, bNumConfigurations = 0\<rparr>,
     num_configs = 0, dev_config = replicate UUSB_MAX_CONFIGS config_zero\<rparr>"

section \<open>Interface types\<close>

text \<open>The class codes of uusb_const.h.\<close>

definition USB_INTF_CLASS_ZERO :: u8 where "USB_INTF_CLASS_ZERO = 0"
definition USB_INTF_CLASS_HID :: u8 where "USB_INTF_CLASS_HID = 3"
definition USB_INTF_CLASS_STORAGE :: u8 where "USB_INTF_CLASS_STORAGE = 8"
definition USB_INTF_CLASS_CCID :: u8 where "USB_INTF_CLASS_CCID = 11"
definition USB_INTF_SUBCLASS_ZERO :: u8 where "USB_INTF_SUBCLASS_ZERO = 0"
definition USB_INTF_SUBCLASS_BOOT :: u8 where "USB_INTF_SUBCLASS_BOOT = 1"
definition USB_INTF_SUBCLASS_SCSI :: u8 where "USB_INTF_SUBCLASS_SCSI = 6"
definition USB_INTF_SUBCLASS_ANY :: u8 where "USB_INTF_SUBCLASS_ANY = 0xFF"
definition USB_INTF_PROTOCOL_ZERO :: u8 where "USB_INTF_PROTOCOL_ZERO = 0"
definition USB_INTF_PROTOCOL_KEYBOARD :: u8 where "USB_INTF_PROTOCOL_KEYBOARD = 1"
definition USB_INTF_PROTOCOL_ANY :: u8 where "USB_INTF_PROTOCOL_ANY = 0xFF"

definition uusb_intf_type_list :: "intf_type list" where
  "uusb_intf_type_list =
    [\<lparr>it_name = ''keyboard'', it_classproto = \<lparr>cp_class = USB_INTF_CLASS_HID,
        cp_subclass = USB_INTF_SUBCLASS_BOOT, cp_protocol = USB_INTF_PROTOCOL_KEYBOARD\<rparr>,
      handle_descriptor = None\<rparr>,
     \<lparr>it_name = ''ccid'', it_classproto = \<lparr>cp_class = USB_INTF_CLASS_CCID,
        cp_subclass = USB_INTF_SUBCLASS_ZERO, cp_protocol = USB_INTF_PROTOCOL_ZERO\<rparr>,
      handle_descriptor = Some Handle_ccid_descriptor\<rparr>,
     \<lparr>it_name = ''storage'', it_classproto = \<lparr>cp_class = USB_INTF_CLASS_STORAGE,
        cp_subclass = USB_INTF_SUBCLASS_ANY, cp_protocol = USB_INTF_PROTOCOL_ANY\<rparr>,
      handle_descriptor = None\<rparr>]"

definition uusb_match_interface_id :: "u8 \<Rightarrow> u8 \<Rightarrow> bool" where
  "uusb_match_interface_id want got \<longleftrightarrow> want = 0xFF \<or> want = got"

definition uusb_match_classproto :: "classproto \<Rightarrow> classproto \<Rightarrow> bool" where
  "uusb_match_classproto want got \<longleftrightarrow>
     (cp_class want = 0xFF \<or> cp_class want = cp_class got)
     \<and> (cp_subclass want = 0xFF \<or> cp_subclass want = cp_subclass got)
     \<and> (cp_protocol want = 0xFF \<or> cp_protocol want = cp_protocol got)"

definition uusb_find_interface_type :: "classproto \<Rightarrow> intf_type option" where
  "uusb_find_interface_type cp =
     find (\<lambda>t. uusb_match_classproto (it_classproto t) cp) uusb_intf_type_list"

section \<open>The standard descriptors\<close>

definition uusb_parse_device_descriptor ::
    "device_descriptor \<times> dt_parser \<Rightarrow> (bool \<times> device_descriptor \<times> dt_parser) res" where
  "uusb_parse_device_descriptor = and_all
    [skip_word16,
     get_byte (\<lambda>v d. d\<lparr>dd_bDevice := (dd_bDevice d)\<lparr>cp_class := v\<rparr>\<rparr>),
     get_byte (\<lambda>v d. d\<lparr>dd_bDevice := (dd_bDevice d)\<lparr>cp_subclass := v\<rparr>\<rparr>),
     get_byte (\<lambda>v d. d\<lparr>dd_bDevice := (dd_bDevice d)\<lparr>cp_protocol := v\<rparr>\<rparr>),
     get_byte (\<lambda>v d. d\<lparr>dd_bMaxPacketSize0 := v\<rparr>),
     get_word16 (\<lambda>v d. d\<lparr>dd_idVendor := v\<rparr>),
     get_word16 (\<lambda>v d. d\<lparr>dd_idProduct := v\<rparr>),
     skip_word16, skip_byte, skip_byte, skip_byte,
     get_byte (\<lambda>v d. d\<lparr>bNumConfigurations := v\<rparr>)]"

definition uusb_parse_config_descriptor ::
    "config_descriptor \<times> dt_parser \<Rightarrow> (bool \<times> config_descriptor \<times> dt_parser) res" where
  "uusb_parse_config_descriptor = and_all
    [skip_word16,
     get_byte (\<lambda>v d. d\<lparr>bNumInterfaces := v\<rparr>),
     get_byte (\<lambda>v d. d\<lparr>bConfigurationValue := v\<rparr>),
     skip_byte,
     get_byte (\<lambda>v d. d\<lparr>cd_bmAttributes := v\<rparr>),
     get_byte (\<lambda>v d. d\<lparr>MaxPower := v\<rparr>)]"

definition uusb_parse_interface_descriptor ::
    "interface_descriptor \<times> dt_parser \<Rightarrow> (bool \<times> interface_descriptor \<times> dt_parser) res" where
  "uusb_parse_interface_descriptor = and_all
    [get_byte (\<lambda>v d. d\<lparr>bInterfaceNumber := v\<rparr>),
     get_byte (\<lambda>v d. d\<lparr>bAlternateSetting := v\<rparr>),
     get_byte (\<lambda>v d. d\<lparr>bNumEndpoints := v\<rparr>),
     get_byte (\<lambda>v d. d\<lparr>id_bInterface := (id_bInterface d)\<lparr>cp_class := v\<rparr>\<rparr>),
     get_byte (\<lambda>v d. d\<lparr>id_bInterface := (id_bInterface d)\<lparr>cp_subclass := v\<rparr>\<rparr>),
     get_byte (\<lambda>v d. d\<lparr>id_bInterface := (id_bInterface d)\<lparr>cp_protocol := v\<rparr>\<rparr>),
     skip_byte]"

definition uusb_parse_endpoint_descriptor ::
    "endpoint_descriptor \<times> dt_parser \<Rightarrow> (bool \<times> endpoint_descriptor \<times> dt_parser) res" where
  "uusb_parse_endpoint_descriptor = and_all
    [get_byte (\<lambda>v d. d\<lparr>bEndpointAddress := v\<rparr>),
     get_byte (\<lambda>v d. d\<lparr>ed_bmAttributes := v\<rparr>),
     skip_word16, skip_byte]"

section \<open>Class descriptors\<close>

definition uusb_handle_ccid_descriptor ::
    "uusb_interface \<Rightarrow> bytes \<Rightarrow> u32 \<Rightarrow> (bool \<times> uusb_interface) res" where
  "uusb_handle_ccid_descriptor intf data len =
     rbind (ccid_parse_usb_descriptor ccid_zero data len) (\<lambda>(ok, ccid).
       Inr (if ok then (True, intf\<lparr>if_ccid := Some ccid\<rparr>) else (False, intf)))"

definition uusb_interface_process_descriptor ::
    "uusb_interface \<Rightarrow> bytes \<Rightarrow> u64 \<Rightarrow> (bool \<times> uusb_interface) res" where
  "uusb_interface_process_descriptor intf data len =
     (case if_type intf of None \<Rightarrow> Inr (True, intf)
      | Some t \<Rightarrow> (case handle_descriptor t of None \<Rightarrow> Inr (True, intf)
          | Some Handle_ccid_descriptor \<Rightarrow> uusb_handle_ccid_descriptor intf data (ucast len)))"

section \<open>The descriptor stream\<close>

text \<open>
  The local variables of the loop: the device, and the pointers \<^verbatim>\<open>config\<close> and
  \<^verbatim>\<open>interface\<close> (an index into \<open>dev_config\<close>, and one into the interfaces of that
  configuration; \<open>None\<close> is \<^verbatim>\<open>NULL\<close>).
\<close>

record parse_state =
  ps_dev :: uusb_dev
  ps_config :: "nat option"
  ps_interface :: "nat option"

text \<open>Access through the two pointers.\<close>

definition get_config :: "parse_state \<Rightarrow> nat \<Rightarrow> uusb_config res" where
  "get_config st c = arr_get (dev_config (ps_dev st)) c"

definition put_config :: "parse_state \<Rightarrow> nat \<Rightarrow> uusb_config \<Rightarrow> parse_state res" where
  "put_config st c cf =
     rbind (arr_set (dev_config (ps_dev st)) c cf) (\<lambda>cfs.
       Inr (st\<lparr>ps_dev := (ps_dev st)\<lparr>dev_config := cfs\<rparr>\<rparr>))"

definition put_interface :: "parse_state \<Rightarrow> nat \<Rightarrow> nat \<Rightarrow> uusb_interface \<Rightarrow> parse_state res" where
  "put_interface st c i intf =
     rbind (get_config st c) (\<lambda>cf.
       rbind (arr_set (cf_interface cf) i intf) (\<lambda>is.
         put_config st c (cf\<lparr>cf_interface := is\<rparr>)))"

definition get_interface :: "parse_state \<Rightarrow> nat \<Rightarrow> nat \<Rightarrow> uusb_interface res" where
  "get_interface st c i = rbind (get_config st c) (\<lambda>cf. arr_get (cf_interface cf) i)"

text \<open>The first descriptor, and the cases of the switch for all later ones.\<close>

definition parse_first :: "parse_state \<Rightarrow> u8 \<Rightarrow> dt_parser \<Rightarrow> (bool \<times> parse_state) res" where
  "parse_first st dt_type dt =
     (if dt_type \<noteq> USB_DT_DEVICE then Inr (False, st)
      else rbind (uusb_parse_device_descriptor (dev_descriptor (ps_dev st), dt)) (\<lambda>(ok, dd, _).
        let st = st\<lparr>ps_dev := (ps_dev st)\<lparr>dev_descriptor := dd\<rparr>\<rparr> in
        if \<not> ok then Inr (False, st)
        else if bNumConfigurations dd = 0 \<or> unat (bNumConfigurations dd) > UUSB_MAX_CONFIGS
        then Inr (False, st)
        else Inr (True, st)))"

text \<open>
  \<^verbatim>\<open>&dev->config[n]\<close> with the array full is a pointer behind the array, which is never checked. The
  parser of the descriptor first skips \<^verbatim>\<open>wTotalLength\<close>; where that fails it returns before it has used
  the pointer. Its next step stores to the structure, whether or not there is a byte to store. The
  parsers of the other two structures store in their first step.
\<close>

definition parse_config_behind :: "parse_state \<Rightarrow> dt_parser \<Rightarrow> (bool \<times> parse_state) res" where
  "parse_config_behind st dt = rbind (skip_word16 ((), dt)) (\<lambda>(ok, _).
     if ok then Inl Out_Of_Bounds else Inr (False, st))"

definition parse_config :: "parse_state \<Rightarrow> dt_parser \<Rightarrow> (bool \<times> parse_state) res" where
  "parse_config st dt =
     (let dev = ps_dev st; c = unat (num_configs dev) in
      if num_configs dev > ucast (bNumConfigurations (dev_descriptor dev)) then Inr (False, st)
      else
        (let st = st\<lparr>ps_dev := dev\<lparr>num_configs := num_configs dev + 1\<rparr>, ps_config := Some c\<rparr> in
         if c \<ge> length (dev_config dev) then parse_config_behind st dt
         else rbind (get_config st c) (\<lambda>cf.
           rbind (uusb_parse_config_descriptor (cf_descriptor cf, dt)) (\<lambda>(ok, cd, _).
             rbind (put_config st c (cf\<lparr>cf_descriptor := cd\<rparr>)) (\<lambda>st.
               if ok then Inr (True, st\<lparr>ps_interface := None\<rparr>) else Inr (False, st))))))"

definition parse_interface :: "parse_state \<Rightarrow> dt_parser \<Rightarrow> (bool \<times> parse_state) res" where
  "parse_interface st dt =
     (case ps_config st of None \<Rightarrow> Inr (False, st)
      | Some c \<Rightarrow> rbind (get_config st c) (\<lambda>cf.
          if num_interfaces cf > ucast (bNumInterfaces (cf_descriptor cf)) then Inr (False, st)
          else
            (let i = unat (num_interfaces cf) in
             rbind (put_config st c (cf\<lparr>num_interfaces := num_interfaces cf + 1\<rparr>)) (\<lambda>st.
             rbind (get_interface st c i) (\<lambda>intf.
             rbind (uusb_parse_interface_descriptor (if_descriptor intf, dt)) (\<lambda>(ok, d, _).
               let intf = intf\<lparr>if_descriptor := d\<rparr>;
                   intf = (if ok then intf\<lparr>if_type := uusb_find_interface_type (id_bInterface d)\<rparr>
                           else intf)
               in rbind (put_interface st c i intf) (\<lambda>st.
                    Inr (ok, st\<lparr>ps_interface := Some i\<rparr>))))))))"

definition parse_endpoint :: "parse_state \<Rightarrow> dt_parser \<Rightarrow> (bool \<times> parse_state) res" where
  "parse_endpoint st dt =
     (case (ps_config st, ps_interface st) of
        (Some c, Some i) \<Rightarrow> rbind (get_interface st c i) (\<lambda>intf.
          if num_endpoints intf > ucast (bNumEndpoints (if_descriptor intf)) then Inr (False, st)
          else
            (let e = unat (num_endpoints intf) in
             rbind (arr_get (if_endpoint intf) e) (\<lambda>ep.
             rbind (uusb_parse_endpoint_descriptor (ep, dt)) (\<lambda>(ok, ep, _).
             rbind (arr_set (if_endpoint intf) e ep) (\<lambda>eps.
             rbind (put_interface st c i
                 (intf\<lparr>num_endpoints := num_endpoints intf + 1, if_endpoint := eps\<rparr>)) (\<lambda>st.
               Inr (ok, st)))))))
      | _ \<Rightarrow> Inr (False, st))"

definition parse_other :: "parse_state \<Rightarrow> bytes \<Rightarrow> u8 \<Rightarrow> (bool \<times> parse_state) res" where
  "parse_other st dt_bytes dt_len =
     (case (ps_config st, ps_interface st) of
        (Some c, Some i) \<Rightarrow> rbind (get_interface st c i) (\<lambda>intf.
          rbind (uusb_interface_process_descriptor intf dt_bytes (ucast dt_len)) (\<lambda>(ok, intf).
            rbind (put_interface st c i intf) (\<lambda>st. Inr (ok, st))))
      | _ \<Rightarrow> Inr (True, st))"

definition parse_later ::
    "parse_state \<Rightarrow> u8 \<Rightarrow> bytes \<Rightarrow> u8 \<Rightarrow> dt_parser \<Rightarrow> (bool \<times> parse_state) res" where
  "parse_later st dt_type dt_bytes dt_len dt =
     (if dt_type = USB_DT_DEVICE then Inr (False, st)
      else if dt_type = USB_DT_CONFIG then parse_config st dt
      else if dt_type = USB_DT_INTERFACE then parse_interface st dt
      else if dt_type = USB_DT_ENDPOINT then parse_endpoint st dt
      else parse_other st dt_bytes dt_len)"

text \<open>One round of the loop, and the loop. \<open>pos\<close> is an \<^verbatim>\<open>unsigned int\<close>; a descriptor of
  length zero does not advance it, so the loop need not end and takes its budget as fuel.\<close>

definition parse_round :: "bytes \<Rightarrow> u32 \<Rightarrow> u64 \<Rightarrow> parse_state \<Rightarrow> (bool \<times> parse_state) res" where
  "parse_round data pos len st =
     rbind (mem_get data (unat pos)) (\<lambda>dt_len.
     rbind (mem_get data (unat (pos + 1))) (\<lambda>dt_type.
       if ucast (pos + ucast dt_len) > len then Inr (False, st)
       else
         (let dt_bytes = drop (unat pos) data;
              dt = uusb_dt_parser_init dt_bytes (ucast dt_len)
          in if pos = 0 then parse_first st dt_type dt
             else parse_later st dt_type dt_bytes dt_len dt)))"

fun parse_loop :: "nat \<Rightarrow> bytes \<Rightarrow> u32 \<Rightarrow> u64 \<Rightarrow> parse_state \<Rightarrow> (bool \<times> parse_state) res" where
  "parse_loop 0 data pos len st = Inl Out_Of_Fuel"
| "parse_loop (Suc n) data pos len st =
     (if ucast (pos + 2) < len then
        rbind (parse_round data pos len st) (\<lambda>(ok, st).
          if ok then rbind (mem_get data (unat pos)) (\<lambda>l.
                 parse_loop n data (pos + ucast l) len st)
          else Inr (False, st))
      else Inr (True, st))"

definition uusb_parse_descriptors ::
    "nat \<Rightarrow> uusb_dev \<Rightarrow> bytes \<Rightarrow> u64 \<Rightarrow> (bool \<times> uusb_dev) res" where
  "uusb_parse_descriptors budget dev data len =
     rbind (parse_loop budget data 0 len
              \<lparr>ps_dev = dev, ps_config = None, ps_interface = None\<rparr>) (\<lambda>(ok, st).
       Inr (ok, ps_dev st))"

lemma dt_type_string_fits:
  "length (''t'' @ zero_pad 2 (nat_digits 16 (unat (dt_type :: u32)))) \<le> 9"
proof -
  have "length (nat_digits 16 (unat dt_type)) \<le> 8"
    using unat_u32_lt [of dt_type] by (intro nat_digits_length) (simp_all del: unat_u32_lt)
  then show ?thesis by (simp add: zero_pad_def)
qed

section \<open>The contracts of the parsers\<close>

definition device_layout :: "bytes \<Rightarrow> device_descriptor \<Rightarrow> device_descriptor" where
  "device_layout bs d = \<lparr>dd_bDevice = \<lparr>cp_class = field 2 1 bs, cp_subclass = field 3 1 bs,
       cp_protocol = field 4 1 bs\<rparr>, dd_bMaxPacketSize0 = field 5 1 bs, dd_idVendor = field 6 2 bs,
     dd_idProduct = field 8 2 bs, bNumConfigurations = field 15 1 bs\<rparr>"

definition config_layout :: "bytes \<Rightarrow> config_descriptor \<Rightarrow> config_descriptor" where
  "config_layout bs d = \<lparr>bNumInterfaces = field 2 1 bs, bConfigurationValue = field 3 1 bs,
     cd_bmAttributes = field 5 1 bs, MaxPower = field 6 1 bs\<rparr>"

definition interface_layout :: "bytes \<Rightarrow> interface_descriptor \<Rightarrow> interface_descriptor" where
  "interface_layout bs d = \<lparr>id_bInterface = \<lparr>cp_class = field 3 1 bs, cp_subclass = field 4 1 bs,
       cp_protocol = field 5 1 bs\<rparr>, bInterfaceNumber = field 0 1 bs,
     bAlternateSetting = field 1 1 bs, bNumEndpoints = field 2 1 bs\<rparr>"

definition endpoint_layout :: "bytes \<Rightarrow> endpoint_descriptor \<Rightarrow> endpoint_descriptor" where
  "endpoint_layout bs d = \<lparr>bEndpointAddress = field 0 1 bs, ed_bmAttributes = field 1 1 bs\<rparr>"

lemmas layout_defs = device_layout_def config_layout_def interface_layout_def endpoint_layout_def
  field_def

interpretation device: descriptor_parser uusb_parse_device_descriptor 16 device_layout
proof unfold_locales
  show "reads uusb_parse_device_descriptor 16 device_layout"
    unfolding uusb_parse_device_descriptor_def
    by (rule reads_eqI, (rule reads_Cons reads_steps reads_Nil)+)
      (auto intro!: device_descriptor.equality classproto.equality
        simp: fun_eq_iff layout_defs simp flip: numeral_3_eq_3)
qed

interpretation config: descriptor_parser uusb_parse_config_descriptor 7 config_layout
proof unfold_locales
  show "reads uusb_parse_config_descriptor 7 config_layout"
    unfolding uusb_parse_config_descriptor_def
    by (rule reads_eqI, (rule reads_Cons reads_steps reads_Nil)+)
      (auto intro!: config_descriptor.equality simp: fun_eq_iff layout_defs
        simp flip: numeral_3_eq_3)
qed

interpretation intf: descriptor_parser uusb_parse_interface_descriptor 7 interface_layout
proof unfold_locales
  show "reads uusb_parse_interface_descriptor 7 interface_layout"
    unfolding uusb_parse_interface_descriptor_def
    by (rule reads_eqI, (rule reads_Cons reads_steps reads_Nil)+)
      (auto intro!: interface_descriptor.equality classproto.equality
        simp: fun_eq_iff layout_defs simp flip: numeral_2_eq_2 numeral_3_eq_3)
qed

interpretation endpoint: descriptor_parser uusb_parse_endpoint_descriptor 5 endpoint_layout
proof unfold_locales
  show "reads uusb_parse_endpoint_descriptor 5 endpoint_layout"
    unfolding uusb_parse_endpoint_descriptor_def
    by (rule reads_eqI, (rule reads_Cons reads_steps reads_Nil)+)
      (auto intro!: endpoint_descriptor.equality simp: fun_eq_iff layout_defs
        simp flip: numeral_3_eq_3)
qed

section \<open>The loop as a walk over a list of descriptors\<close>

text \<open>
  The data a device presents is the concatenation of its descriptors, each beginning with its
  own length. \<open>stream_run\<close> is the loop on that list; \<open>slack\<close> is memory behind the data.
\<close>

definition descriptor_ok :: "bytes \<Rightarrow> bool" where
  "descriptor_ok d \<longleftrightarrow> 3 \<le> length d \<and> length d < 256 \<and> d ! 0 = of_nat (length d)"

fun stream_run :: "bytes \<Rightarrow> parse_state \<Rightarrow> bytes list \<Rightarrow> (bool \<times> parse_state) res" where
  "stream_run slack st [] = Inr (True, st)"
| "stream_run slack st (d # ds) =
     and_then (parse_later st (d ! 1) (concat (d # ds) @ slack) (of_nat (length d))
         (uusb_dt_parser_init (concat (d # ds) @ slack) (of_nat (length d))))
       (\<lambda>st. stream_run slack st ds)"

lemma unat_length_u8: "descriptor_ok d \<Longrightarrow> unat (of_nat (length d) :: u8) = length d"
  by (simp add: descriptor_ok_def unat_of_nat take_bit_nat_eq_self)

lemma ucast_length: "descriptor_ok d \<Longrightarrow> (ucast (of_nat (length d) :: u8) :: u32) = of_nat (length d)"
  using unat_length_u8 [of d] by (metis of_nat_unat)

lemma ucast_length_nonzero:
  assumes "descriptor_ok d"
  shows "(ucast (of_nat (length d) :: u8) :: u32) \<noteq> 0"
proof
  assume "(ucast (of_nat (length d) :: u8) :: u32) = 0"
  then have "unat (of_nat (length d) :: u8) = 0"
    by (metis unat_0 unat_ucast_8_32)
  with assms show False
    by (simp add: unat_length_u8 [OF assms] descriptor_ok_def)
qed

text \<open>What a round sees at the start of a descriptor.\<close>

lemma round_at:
  assumes d: "descriptor_ok d" and pos: "unat pos = length pre"
    and len: "unat len = length pre + length d + n" and small: "unat len < 2 ^ 31"
  shows "parse_round (pre @ d @ rest) pos len st =
      (let dt = uusb_dt_parser_init (d @ rest) (of_nat (length d))
       in if pos = 0 then parse_first st (d ! 1) dt
          else parse_later st (d ! 1) (d @ rest) (of_nat (length d)) dt)"
    and "ucast (pos + 2) < len"
    and "mem_get (pre @ d @ rest) (unat pos) = Inr (of_nat (length d))"
    and "unat (pos + ucast (of_nat (length d) :: u8)) = length pre + length d"
proof -
  have l: "3 \<le> length d" "length d < 256" "d ! 0 = of_nat (length d)" "d \<noteq> []"
    using d by (auto simp: descriptor_ok_def)
  have small': "length pre + length d < 2147483648"
    using len small by simp
  have p1: "unat (pos + 1) = length pre + 1" and p2: "unat (pos + 2) = length pre + 2"
    using pos small' by (simp_all add: unat_add_small)
  show pd: "unat (pos + ucast (of_nat (length d) :: u8)) = length pre + length d"
    using pos small' by (subst unat_add_small) (simp_all add: unat_length_u8 [OF d])
  show "ucast (pos + 2) < len"
    using p2 len l by (simp add: word_less_nat_alt)
  show get: "mem_get (pre @ d @ rest) (unat pos) = Inr (of_nat (length d))"
    using pos l by (simp add: mem_get_in nth_append)
  have "mem_get (pre @ d @ rest) (unat (pos + 1)) = Inr (d ! 1)"
    using p1 l by (simp add: mem_get_in nth_append)
  moreover have "\<not> ucast (pos + ucast (of_nat (length d) :: u8)) > len"
    using pd len by (simp add: word_less_nat_alt)
  ultimately show "parse_round (pre @ d @ rest) pos len st =
      (let dt = uusb_dt_parser_init (d @ rest) (of_nat (length d))
       in if pos = 0 then parse_first st (d ! 1) dt
          else parse_later st (d ! 1) (d @ rest) (of_nat (length d)) dt)"
    using get pos ucast_length [OF d] by (simp add: parse_round_def Let_def)
qed

lemma loop_stream:
  assumes "list_all descriptor_ok ds" and "unat pos = length pre" and "pos \<noteq> 0"
    and "unat len = length pre + length (concat ds)" and "unat len < 2 ^ 31"
    and "length ds < n"
  shows "parse_loop n (pre @ concat ds @ slack) pos len st = stream_run slack st ds"
  using assms
proof (induction ds arbitrary: n pre pos st)
  case Nil
  have "unat (pos + 2) = unat pos + 2"
    using Nil.prems by (subst unat_add_small) simp_all
  with Nil.prems have "\<not> ucast (pos + 2) < len"
    by (simp add: word_less_nat_alt)
  with Nil.prems show ?case by (cases n) simp_all
next
  case (Cons d ds)
  then obtain m where n: "n = Suc m" and m: "length ds < m"
    by (cases n) auto
  have d: "descriptor_ok d" using Cons.prems by simp
  have len: "unat len = length pre + length d + length (concat ds)"
    using Cons.prems by simp
  note R = round_at [OF d Cons.prems(2) len Cons.prems(5)]
  let ?pos = "pos + ucast (of_nat (length d) :: u8)"
  have "?pos \<noteq> 0"
  proof
    assume "?pos = 0"
    with R(4) have "length d = 0" by simp
    with d show False by (simp add: descriptor_ok_def)
  qed
  then have IH: "parse_loop m (pre @ d @ concat ds @ slack) ?pos len st' = stream_run slack st' ds" for st'
    using Cons.IH [of ?pos "pre @ d" m st'] Cons.prems R(4) m by simp
  show ?case
    using Cons.prems(3) n R(1) [where rest = "concat ds @ slack"] R(2) R(3) [where rest = "concat ds @ slack"]
    by (auto simp: and_then_def rbind_def Let_def IH split: sum.splits)
qed

lemma loop_stream_first:
  assumes "descriptor_ok d" and "list_all descriptor_ok ds"
    and "unat len = length (concat (d # ds))" and "unat len < 2 ^ 31" and "Suc (length ds) < n"
  shows "parse_loop n (concat (d # ds) @ slack) 0 len st =
     and_then (parse_first st (d ! 1)
         (uusb_dt_parser_init (concat (d # ds) @ slack) (of_nat (length d))))
       (\<lambda>st. stream_run slack st ds)"
proof -
  obtain m where n: "n = Suc m" and m: "length ds < m"
    using assms(5) by (cases n) auto
  have len: "unat len = length [] + length d + length (concat ds)"
    using assms(3) by simp
  have z: "unat (0 :: u32) = length []" by simp
  note R = round_at [OF assms(1) z len assms(4)]
  let ?pos = "ucast (of_nat (length d) :: u8) :: u32"
  have "?pos \<noteq> 0"
    by (rule ucast_length_nonzero [OF assms(1)])
  then have "parse_loop m (d @ concat ds @ slack) ?pos len st' = stream_run slack st' ds" for st'
    using loop_stream [OF assms(2), of ?pos d len m slack st'] R(4) assms(3,4) m by simp
  then show ?thesis
    using R(1) [where rest = "concat ds @ slack"] R(2) R(3) [where rest = "concat ds @ slack"] n
    by (auto simp: and_then_def rbind_def Let_def split: sum.splits)
qed

section \<open>Well-formed devices and the capacity of the arrays\<close>

text \<open>
  The arrays have their C sizes, and the elements behind the counters are untouched.
\<close>

definition cfg_ok :: "uusb_config \<Rightarrow> bool" where
  "cfg_ok cf \<longleftrightarrow> length (cf_interface cf) = UUSB_MAX_INTERFACES
     \<and> (\<forall>j < UUSB_MAX_INTERFACES. length (if_endpoint (cf_interface cf ! j)) = UUSB_MAX_ENDPOINTS
         \<and> (unat (num_interfaces cf) \<le> j \<longrightarrow> num_endpoints (cf_interface cf ! j) = 0))"

definition dev_ok :: "uusb_dev \<Rightarrow> bool" where
  "dev_ok dev \<longleftrightarrow> length (dev_config dev) = UUSB_MAX_CONFIGS
     \<and> (\<forall>k < UUSB_MAX_CONFIGS. cfg_ok (dev_config dev ! k)
         \<and> (unat (num_configs dev) \<le> k \<longrightarrow> num_interfaces (dev_config dev ! k) = 0))"

text \<open>
  \<open>at st c i e\<close>: \<open>c\<close> configurations seen, \<open>i\<close> interfaces in the current one, \<open>e\<close> endpoints in
  the current interface, and the two pointers point into the arrays.
\<close>

definition at :: "parse_state \<Rightarrow> nat \<Rightarrow> nat \<Rightarrow> nat \<Rightarrow> bool" where
  "at st c i e \<longleftrightarrow> dev_ok (ps_dev st) \<and> unat (num_configs (ps_dev st)) = c
     \<and> (case ps_config st of None \<Rightarrow> ps_interface st = None
        | Some k \<Rightarrow> k < UUSB_MAX_CONFIGS \<and> k < c
            \<and> unat (num_interfaces (dev_config (ps_dev st) ! k)) = i
            \<and> (case ps_interface st of None \<Rightarrow> True
               | Some j \<Rightarrow> j < UUSB_MAX_INTERFACES \<and> j < i
                   \<and> unat (num_endpoints (cf_interface (dev_config (ps_dev st) ! k) ! j)) = e))"

text \<open>The descriptors of a stream never exceed the capacity of the array they go to.\<close>

fun within :: "nat \<Rightarrow> nat \<Rightarrow> nat \<Rightarrow> bytes list \<Rightarrow> bool" where
  "within c i e [] = True"
| "within c i e (d # ds) =
     (if d ! 1 = USB_DT_CONFIG then c < UUSB_MAX_CONFIGS \<and> within (Suc c) 0 0 ds
      else if d ! 1 = USB_DT_INTERFACE then i < UUSB_MAX_INTERFACES \<and> within c (Suc i) 0 ds
      else if d ! 1 = USB_DT_ENDPOINT then e < UUSB_MAX_ENDPOINTS \<and> within c i (Suc e) ds
      else within c i e ds)"

text \<open>A healthy parser for one descriptor: its bytes are there.\<close>

definition dt_for :: "bytes \<Rightarrow> u8 \<Rightarrow> dt_parser \<Rightarrow> bool" where
  "dt_for data dt_len dt \<longleftrightarrow> dt = uusb_dt_parser_init data (ucast dt_len)
     \<and> 2 \<le> unat dt_len \<and> unat dt_len \<le> length data"

lemma dt_for_safe:
  assumes "dt_for data l dt"
  shows "\<exists>ok d' p'. uusb_parse_device_descriptor (dd, dt) = Inr (ok, d', p')"
    and "\<exists>ok d' p'. uusb_parse_config_descriptor (cd, dt) = Inr (ok, d', p')"
    and "\<exists>ok d' p'. uusb_parse_interface_descriptor (id', dt) = Inr (ok, d', p')"
    and "\<exists>ok d' p'. uusb_parse_endpoint_descriptor (ed, dt) = Inr (ok, d', p')"
  using assms device.parse_safe config.parse_safe intf.parse_safe endpoint.parse_safe
  by (simp_all add: dt_for_def)

lemma at_parse_config:
  assumes "at st c i e" and "dt_for data l dt" and "c < UUSB_MAX_CONFIGS"
  shows "runs (parse_config st dt) (\<lambda>st'. at st' (Suc c) 0 0)"
proof (cases "num_configs (ps_dev st) > ucast (bNumConfigurations (dev_descriptor (ps_dev st)))")
  case True
  then show ?thesis by (simp add: parse_config_def)
next
  case False
  let ?dev = "ps_dev st"
  have dev: "dev_ok ?dev" and c: "unat (num_configs ?dev) = c"
    using assms(1) by (simp_all add: at_def)
  have len: "length (dev_config ?dev) = 8"
    using dev by (simp add: dev_ok_def max_defs)
  obtain ok cd p where cd: "uusb_parse_config_descriptor (cf_descriptor (dev_config ?dev ! c), dt)
      = Inr (ok, cd, p)"
    using dt_for_safe(2) [OF assms(2)] by blast
  have c8: "c < 8" using assms(3) by (simp add: max_defs)
  have c1: "unat (num_configs ?dev + 1) = Suc c"
    using c c8 by (simp add: unat_add_small)
  show ?thesis
    using False len c c8 cd c1 dev
    by (auto simp: parse_config_def Let_def get_config_def put_config_def arr_in at_def dev_ok_def
        cfg_ok_def max_defs nth_list_update)
qed

lemma at_parse_interface:
  assumes "at st c i e" and "dt_for data l dt" and "i < UUSB_MAX_INTERFACES"
  shows "runs (parse_interface st dt) (\<lambda>st'. at st' c (Suc i) 0)"
proof (cases "ps_config st")
  case None
  then show ?thesis by (simp add: parse_interface_def)
next
  case (Some k)
  let ?dev = "ps_dev st" and ?cf = "dev_config (ps_dev st) ! k"
  have k: "k < 8" "k < c" and i: "unat (num_interfaces ?cf) = i" and dev: "dev_ok ?dev"
    and c: "unat (num_configs ?dev) = c"
    using assms(1) Some by (simp_all add: at_def max_defs)
  have len: "length (dev_config ?dev) = 8" "length (cf_interface ?cf) = 8"
    using dev k by (simp_all add: dev_ok_def cfg_ok_def max_defs)
  have i8: "i < 8" using assms(3) by (simp add: max_defs)
  have i1: "unat (num_interfaces ?cf + 1) = Suc i"
    using i i8 by (simp add: unat_add_small)
  have zero: "num_endpoints (cf_interface ?cf ! i) = 0"
    using dev k i i8 by (simp add: dev_ok_def cfg_ok_def max_defs)
  obtain ok d p where d: "uusb_parse_interface_descriptor (if_descriptor (cf_interface ?cf ! i), dt)
      = Inr (ok, d, p)"
    using dt_for_safe(3) [OF assms(2)] by blast
  show ?thesis
    using Some len k i i8 i1 d zero dev c
    by (auto simp: parse_interface_def Let_def get_config_def put_config_def get_interface_def
        put_interface_def arr_in at_def dev_ok_def cfg_ok_def max_defs nth_list_update)
qed

lemma at_parse_endpoint:
  assumes "at st c i e" and "dt_for data l dt" and "e < UUSB_MAX_ENDPOINTS"
  shows "runs (parse_endpoint st dt) (\<lambda>st'. at st' c i (Suc e))"
proof (cases "ps_interface st")
  case None
  then show ?thesis by (simp add: parse_endpoint_def split: option.splits)
next
  case (Some j)
  then obtain k where k: "ps_config st = Some k"
    using assms(1) by (auto simp: at_def split: option.splits)
  let ?dev = "ps_dev st" and ?cf = "dev_config (ps_dev st) ! k"
  let ?if = "cf_interface (dev_config (ps_dev st) ! k) ! j"
  have b: "k < 8" "k < c" "j < 8" "j < i" and dev: "dev_ok ?dev"
    and e: "unat (num_endpoints ?if) = e" and i: "unat (num_interfaces ?cf) = i"
    and c: "unat (num_configs ?dev) = c"
    using assms(1) k Some by (simp_all add: at_def max_defs)
  have len: "length (dev_config ?dev) = 8" "length (cf_interface ?cf) = 8"
    "length (if_endpoint ?if) = 4"
    using dev b by (simp_all add: dev_ok_def cfg_ok_def max_defs)
  have e4: "e < 4" using assms(3) by (simp add: max_defs)
  have e1: "unat (num_endpoints ?if + 1) = Suc e"
    using e e4 by (simp add: unat_add_small)
  obtain ok d p where d: "uusb_parse_endpoint_descriptor (if_endpoint ?if ! e, dt) = Inr (ok, d, p)"
    using dt_for_safe(4) [OF assms(2)] by blast
  show ?thesis
    using Some k len b e e4 e1 d dev c i
    by (auto simp: parse_endpoint_def Let_def get_config_def put_config_def get_interface_def
        put_interface_def arr_in at_def dev_ok_def cfg_ok_def max_defs nth_list_update)
qed

lemma process_descriptor_safe:
  assumes "2 \<le> unat l" and "unat l \<le> length data"
  shows "\<exists>ok if'. uusb_interface_process_descriptor if0 data (ucast (l :: u8)) = Inr (ok, if')
           \<and> num_endpoints if' = num_endpoints if0 \<and> if_endpoint if' = if_endpoint if0"
proof -
  have l: "unat (ucast (ucast l :: u64) :: u32) = unat l"
    by (simp add: unat_ucast_64_32 less_trans [OF unat_u8_lt])
  obtain ok d p where "ccid_fields (ccid_zero, uusb_dt_parser_init data (ucast (ucast l :: u64)))
      = Inr (ok, d, p)"
    using ccid.parse_safe [of "ucast (ucast l :: u64)" data ccid_zero] assms l by auto
  then show ?thesis
    by (auto simp: uusb_interface_process_descriptor_def uusb_handle_ccid_descriptor_def
        ccid_parse_usb_descriptor_def split: option.splits descriptor_handler.splits)
qed

lemma at_parse_other:
  assumes "at st c i e" and "2 \<le> unat l" and "unat l \<le> length data"
  shows "runs (parse_other st data l) (\<lambda>st'. at st' c i e)"
proof (cases "ps_interface st")
  case None
  with assms(1) show ?thesis by (simp add: parse_other_def split: option.splits)
next
  case (Some j)
  then obtain k where k: "ps_config st = Some k"
    using assms(1) by (auto simp: at_def split: option.splits)
  let ?dev = "ps_dev st" and ?cf = "dev_config (ps_dev st) ! k"
  let ?if = "cf_interface (dev_config (ps_dev st) ! k) ! j"
  have b: "k < 8" "j < 8" and dev: "dev_ok ?dev"
    using assms(1) k Some by (simp_all add: at_def max_defs)
  have len: "length (dev_config ?dev) = 8" "length (cf_interface ?cf) = 8"
    using dev b by (simp_all add: dev_ok_def cfg_ok_def max_defs)
  obtain ok if' where "uusb_interface_process_descriptor ?if data (ucast l) = Inr (ok, if')"
    "num_endpoints if' = num_endpoints ?if" "if_endpoint if' = if_endpoint ?if"
    using process_descriptor_safe [OF assms(2,3)] by blast
  then show ?thesis
    using Some k len b dev assms(1)
    by (auto simp: parse_other_def Let_def get_config_def put_config_def get_interface_def
        put_interface_def arr_in at_def dev_ok_def cfg_ok_def max_defs nth_list_update)
qed

lemma dt_for_descriptor:
  assumes "descriptor_ok d"
  shows "dt_for (d @ rest) (of_nat (length d)) (uusb_dt_parser_init (d @ rest) (of_nat (length d)))"
  using assms unat_length_u8 [OF assms] ucast_length [OF assms]
  by (simp add: dt_for_def descriptor_ok_def)

text \<open>One descriptor of the stream, whatever its type.\<close>

lemma at_parse_later:
  assumes "at st c i e" and "dt_for data l dt" and "within c i e (d # ds)"
  shows "runs (parse_later st (d ! 1) data l dt) (\<lambda>st'. \<exists>c i e. at st' c i e \<and> within c i e ds)"
proof -
  have l: "2 \<le> unat l" "unat l \<le> length data"
    using assms(2) by (simp_all add: dt_for_def)
  consider (config) "d ! 1 = USB_DT_CONFIG" | (intf) "d ! 1 = USB_DT_INTERFACE"
    | (endpoint) "d ! 1 = USB_DT_ENDPOINT" | (device) "d ! 1 = USB_DT_DEVICE"
    | (other) "d ! 1 \<notin> {USB_DT_DEVICE, USB_DT_CONFIG, USB_DT_INTERFACE, USB_DT_ENDPOINT}"
    by blast
  then show ?thesis
  proof cases
    case config
    with assms(3) have "c < UUSB_MAX_CONFIGS" "within (Suc c) 0 0 ds" by simp_all
    then have "runs (parse_config st dt) (\<lambda>st'. \<exists>c i e. at st' c i e \<and> within c i e ds)"
      by (intro runs_mono [OF at_parse_config [OF assms(1,2)]]) auto
    with config show ?thesis by (simp add: parse_later_def dt_type_defs)
  next
    case intf
    with assms(3) have "i < UUSB_MAX_INTERFACES" "within c (Suc i) 0 ds"
      by (simp_all add: dt_type_defs)
    then have "runs (parse_interface st dt) (\<lambda>st'. \<exists>c i e. at st' c i e \<and> within c i e ds)"
      by (intro runs_mono [OF at_parse_interface [OF assms(1,2)]]) auto
    with intf show ?thesis by (simp add: parse_later_def dt_type_defs)
  next
    case endpoint
    with assms(3) have "e < UUSB_MAX_ENDPOINTS" "within c i (Suc e) ds"
      by (simp_all add: dt_type_defs)
    then have "runs (parse_endpoint st dt) (\<lambda>st'. \<exists>c i e. at st' c i e \<and> within c i e ds)"
      by (intro runs_mono [OF at_parse_endpoint [OF assms(1,2)]]) auto
    with endpoint show ?thesis by (simp add: parse_later_def dt_type_defs)
  next
    case device
    then show ?thesis by (simp add: parse_later_def)
  next
    case other
    with assms(3) have "within c i e ds" by simp
    then have "runs (parse_other st data l) (\<lambda>st'. \<exists>c i e. at st' c i e \<and> within c i e ds)"
      by (intro runs_mono [OF at_parse_other [OF assms(1) l]]) auto
    with other show ?thesis by (simp add: parse_later_def)
  qed
qed

lemma at_stream_run:
  "at st c i e \<Longrightarrow> list_all descriptor_ok ds \<Longrightarrow> within c i e ds \<Longrightarrow>
     runs (stream_run slack st ds) (\<lambda>st'. dev_ok (ps_dev st'))"
proof (induction ds arbitrary: st c i e)
  case Nil
  then show ?case by (simp add: at_def)
next
  case (Cons d ds)
  let ?data = "concat (d # ds) @ slack" and ?l = "of_nat (length d) :: u8"
  have "dt_for ?data ?l (uusb_dt_parser_init ?data (of_nat (length d)))"
    using dt_for_descriptor [of d "concat ds @ slack"] Cons.prems(2) by simp
  from at_parse_later [OF Cons.prems(1) this Cons.prems(3)] show ?case
    using Cons.IH Cons.prems(2) by (auto intro!: runs_and_then)
qed

lemma at_start:
  assumes "dev_ok dev" and "num_configs dev = 0"
  shows "at \<lparr>ps_dev = dev, ps_config = None, ps_interface = None\<rparr> 0 0 0"
  using assms by (simp add: at_def)

lemma parse_first_runs:
  assumes "dt_for data l dt" and "at st 0 0 0" and "ps_config st = None"
  shows "runs (parse_first st t dt) (\<lambda>st'. at st' 0 0 0)"
proof -
  obtain ok dd p where "uusb_parse_device_descriptor (dev_descriptor (ps_dev st), dt) = Inr (ok, dd, p)"
    using dt_for_safe(1) [OF assms(1)] by blast
  with assms(2,3) show ?thesis
    by (simp add: parse_first_def Let_def at_def dev_ok_def)
qed

lemma dev_ok_zero: "dev_ok dev_zero"
  by (simp add: dev_ok_def dev_zero_def cfg_ok_def config_zero_def interface_zero_def max_defs)

lemma parse_safe_stream:
  assumes "dev_ok dev" and "num_configs dev = 0"
    and "list_all descriptor_ok (d # ds)" and "within 0 0 0 ds"
    and "unat len = length (concat (d # ds))" and "unat len < 2 ^ 31"
    and "Suc (length ds) < budget"
  shows "\<exists>ok dev'. uusb_parse_descriptors budget dev (concat (d # ds) @ slack) len = Inr (ok, dev')
           \<and> (ok \<longrightarrow> dev_ok dev')"
proof -
  let ?st = "\<lparr>ps_dev = dev, ps_config = None, ps_interface = None\<rparr>"
  let ?data = "concat (d # ds) @ slack"
  have d: "descriptor_ok d" and ds: "list_all descriptor_ok ds"
    using assms(3) by simp_all
  have "runs (parse_first ?st (d ! 1) (uusb_dt_parser_init ?data (of_nat (length d))))
      (\<lambda>st. at st 0 0 0)"
    using parse_first_runs [OF dt_for_descriptor [OF d, of "concat ds @ slack"] at_start [OF assms(1,2)]]
    by simp
  then have "runs (parse_loop budget ?data 0 len ?st) (\<lambda>st. dev_ok (ps_dev st))"
    unfolding loop_stream_first [OF d ds assms(5-7)]
    by (rule runs_and_then) (rule at_stream_run [OF _ ds assms(4)])
  then show ?thesis
    by (auto simp: uusb_parse_descriptors_def runs_def)
qed

text \<open>C14: On a well-formed descriptor stream of less than two gigabytes (descriptors of at least
  three bytes whose first byte is their length, no more of a kind than the arrays hold) and a
  device record that satisfies the invariant and has no configuration yet,
  uusb_parse_descriptors returns without reading or writing out of bounds, within one iteration
  per descriptor and one more, and a device it accepts satisfies the invariant of the device
  record.\<close>

theorem parse_descriptors_safe:
  assumes "dev_ok dev" and "num_configs dev = 0"
    and "list_all descriptor_ok (d # ds)" and "within 0 0 0 ds"
    and "unat len = length (concat (d # ds))" and "unat len < 2 ^ 31"
    and "Suc (length ds) < budget"
  shows "\<exists>ok dev'. uusb_parse_descriptors budget dev (concat (d # ds) @ slack) len = Inr (ok, dev')
           \<and> (ok \<longrightarrow> dev_ok dev')"
  using assms by (rule parse_safe_stream)

section \<open>A YubiKey 5, and hostile devices\<close>

definition yk5_device :: bytes where
  "yk5_device = [0x12, 0x01, 0x00, 0x02, 0x00, 0x00, 0x00, 0x40, 0x50, 0x10, 0x07, 0x04, 0x27, 0x05,
     0x01, 0x02, 0x00, 0x01]"

definition yk5_ccid :: ccid_descriptor where
  "yk5_ccid = \<lparr>bcdCCID = 0x100, bMaxSlotIndex = 0, bVoltageSupport = 7, dwProtocols = 3,
     dwDefaultClock = 4000, dwMaximumClock = 4000, bNumClockRatesSupported = 0, dwDataRate = 307200,
     dwMaxDataRate = 307200, bNumDataRatesSupported = 0, dwMaxIFSD = 3062, dwSynchProtocols = 0,
     dwMechanical = 0, dwFeatures = 0x400FE, dwMaxCCIDMessageLength = 3072, bClassGetResponse = 0xFF,
     bClassEnvelope = 0xFF, wLcdLayout = 0, bPINSupport = 0, bMaxCCIDBusySlots = 1\<rparr>"

definition yk5_descriptors :: "bytes list" where
  "yk5_descriptors =
    [[0x09, 0x02, 0x96, 0x00, 0x03, 0x01, 0x00, 0x80, 0x0F],
     [0x09, 0x04, 0x00, 0x00, 0x01, 0x03, 0x01, 0x01, 0x00],
     [0x09, 0x21, 0x10, 0x01, 0x00, 0x01, 0x22, 0x47, 0x00],
     [0x07, 0x05, 0x81, 0x03, 0x08, 0x00, 0x0A],
     [0x09, 0x04, 0x01, 0x00, 0x02, 0x03, 0x00, 0x00, 0x00],
     [0x09, 0x21, 0x10, 0x01, 0x00, 0x01, 0x22, 0x22, 0x00],
     [0x07, 0x05, 0x04, 0x03, 0x40, 0x00, 0x02],
     [0x07, 0x05, 0x84, 0x03, 0x40, 0x00, 0x02],
     [0x09, 0x04, 0x02, 0x00, 0x03, 0x0B, 0x00, 0x00, 0x00],
     ccid_bytes yk5_ccid,
     [0x07, 0x05, 0x02, 0x02, 0x40, 0x00, 0x00],
     [0x07, 0x05, 0x82, 0x02, 0x40, 0x00, 0x00],
     [0x07, 0x05, 0x83, 0x03, 0x08, 0x00, 0x20]]"

definition yk5_bytes :: bytes where
  "yk5_bytes = concat (yk5_device # yk5_descriptors)"

text \<open>The CCID interface of the parsed device.\<close>

definition yk5_parsed :: "uusb_dev res" where
  "yk5_parsed = rbind (uusb_parse_descriptors 20 dev_zero yk5_bytes (of_nat (length yk5_bytes)))
     (\<lambda>(ok, dev). if ok then Inr dev else Inl Uninitialised)"

lemma yk5_stream:
  "list_all descriptor_ok (yk5_device # yk5_descriptors)" "within 0 0 0 yk5_descriptors"
  by (simp_all add: yk5_device_def yk5_descriptors_def descriptor_ok_def ccid_bytes_def yk5_ccid_def
      dt_type_defs max_defs)

text \<open>A device descriptor that announces \<open>n\<close> configurations, and a configuration that announces
  \<open>n\<close> interfaces.\<close>

definition device_with :: "u8 \<Rightarrow> bytes" where
  "device_with n = [18, 1, 0, 2, 0, 0, 0, 64, 0x50, 0x10, 7, 4, 0, 1, 1, 2, 0, n]"

definition config_with :: "u8 \<Rightarrow> bytes" where
  "config_with n = [9, 2, 9, 0, n, 1, 0, 0x80, 50]"

definition interface_with :: "u8 \<Rightarrow> bytes" where
  "interface_with n = [9, 4, 0, 0, n, 3, 1, 1, 0]"

definition some_endpoint :: bytes where
  "some_endpoint = [7, 5, 0x81, 3, 8, 0, 10]"

definition parse_stream :: "bytes list \<Rightarrow> (bool \<times> uusb_dev) res" where
  "parse_stream ds = uusb_parse_descriptors 30 dev_zero (concat ds) (of_nat (length (concat ds)))"

theorem parse_descriptors_safe_witness:
  "\<exists>ok dev'. uusb_parse_descriptors 20 dev_zero (yk5_bytes @ [0xAA]) 168 = Inr (ok, dev')
     \<and> (ok \<longrightarrow> dev_ok dev')"
proof -
  have len: "length (concat (yk5_device # yk5_descriptors)) = 168"
    by (simp add: yk5_device_def yk5_descriptors_def length_ccid_bytes)
  have "Suc (length yk5_descriptors) < 20"
    by (simp add: yk5_descriptors_def)
  then show ?thesis
    using parse_descriptors_safe [OF dev_ok_zero _ yk5_stream, of 168 20 "[0xAA]"] len
    by (simp add: yk5_bytes_def dev_zero_def)
qed

theorem yk5_parse:
  "\<exists>dev. yk5_parsed = Inr dev \<and> num_configs dev = 1 \<and> num_interfaces (dev_config dev ! 0) = 3
     \<and> map (map_option it_name \<circ> if_type) (take 3 (cf_interface (dev_config dev ! 0)))
         = [Some ''keyboard'', None, Some ''ccid'']
     \<and> map if_ccid (take 3 (cf_interface (dev_config dev ! 0))) = [None, None, Some yk5_ccid]"
proof -
  have "(case yk5_parsed of Inl e \<Rightarrow> False | Inr dev \<Rightarrow> num_configs dev = 1
     \<and> num_interfaces (dev_config dev ! 0) = 3
     \<and> map (map_option it_name \<circ> if_type) (take 3 (cf_interface (dev_config dev ! 0)))
         = [Some ''keyboard'', None, Some ''ccid'']
     \<and> map if_ccid (take 3 (cf_interface (dev_config dev ! 0))) = [None, None, Some yk5_ccid])"
    by code_simp
  then show ?thesis by (auto split: sum.splits)
qed

lemma zero_length_loop:
  assumes "unat pos = length pre" and "pos \<noteq> 0" and "unat len < 2 ^ 31"
    and "length pre + 2 < unat len" and "t \<notin> {USB_DT_DEVICE, USB_DT_CONFIG, USB_DT_INTERFACE, USB_DT_ENDPOINT}"
    and "ps_config st = None"
  shows "parse_loop n (pre @ [0, t] @ rest) pos len st = Inl Out_Of_Fuel"
proof (induction n)
  case 0
  show ?case by simp
next
  case (Suc n)
  have p: "unat (pos + 1) = length pre + 1" "unat (pos + 2) = length pre + 2"
    using assms by (simp_all add: unat_add_small)
  have round: "parse_round (pre @ [0, t] @ rest) pos len st = Inr (True, st)"
    using assms p
    by (simp add: parse_round_def mem_get_in nth_append Let_def parse_later_def parse_other_def
        word_less_nat_alt)
  moreover have "ucast (pos + 2) < len"
    using p assms by (simp add: word_less_nat_alt)
  moreover have "mem_get (pre @ [0, t] @ rest) (unat pos) = Inr 0"
    using assms(1) by (simp add: mem_get_in nth_append)
  ultimately show ?case
    using Suc.IH by simp
qed

text \<open>C33: The loop of uusb_parse_descriptors does not end on a descriptor of length zero of any type
  but device, configuration, interface and endpoint that follows a device descriptor of one to
  eight configurations, with more data behind it: no number of iterations is enough.\<close>

theorem zero_length_diverges:
  assumes "descriptor_ok d" and "d ! 1 = USB_DT_DEVICE" and "18 \<le> length d"
    and "1 \<le> unat (d ! 17)" and "unat (d ! 17) \<le> 8"
    and "t \<notin> {USB_DT_DEVICE, USB_DT_CONFIG, USB_DT_INTERFACE, USB_DT_ENDPOINT}"
    and "length d + 2 < unat len" and "unat len < 2 ^ 31"
  shows "uusb_parse_descriptors budget dev (d @ [0, t] @ rest) len = Inl Out_Of_Fuel"
proof (cases budget)
  case 0
  then show ?thesis by (simp add: uusb_parse_descriptors_def)
next
  case (Suc n)
  let ?st = "\<lparr>ps_dev = dev, ps_config = None, ps_interface = None\<rparr>"
  let ?dt = "uusb_dt_parser_init (d @ [0, t] @ rest) (of_nat (length d))"
  let ?pos = "ucast (of_nat (length d) :: u8) :: u32"
  note R = round_at [OF assms(1), where pos = 0 and pre = "[]" and len = len
      and n = "unat len - length d"]
  have p: "unat ?pos = length d" and l: "length d < 256"
    using unat_length_u8 [OF assms(1)] assms(1) by (simp_all add: descriptor_ok_def)
  have l32: "unat (of_nat (length d) :: u32) = length d"
    using l by (simp add: unat_of_nat take_bit_nat_eq_self)
  have "take 1 (drop 15 (take 16 (drop 2 (d @ [0, t] @ rest)))) = [d ! 17]"
    using assms(3) by (simp add: take_Suc_conv_app_nth drop_take nth_append numeral_eq_Suc)
  then have num: "bNumConfigurations (device_layout (take 16 (drop 2 (d @ [0, t] @ rest))) dd) = d ! 17" for dd
    by (simp add: device_layout_def field_def)
  have "uusb_parse_device_descriptor (dev_descriptor dev, ?dt)
      = Inr (True, device_layout (take 16 (drop 2 (d @ [0, t] @ rest))) (dev_descriptor dev),
             dt_advance ?dt 16)"
    using assms(3) l32 by (intro device.parse_fits) simp_all
  moreover have nz: "d ! 17 \<noteq> 0"
    using assms(4) by auto
  ultimately obtain st where first: "parse_first ?st (d ! 1) ?dt = Inr (True, st)" and "ps_config st = None"
    using assms(2,5) num nz
    by (auto simp: parse_first_def Let_def max_defs simp del: drop_append)
  moreover have "?pos \<noteq> 0"
    by (rule ucast_length_nonzero [OF assms(1)])
  ultimately have "parse_loop n (d @ [0, t] @ rest) ?pos len st = Inl Out_Of_Fuel"
    using zero_length_loop [of ?pos d len t st n rest] assms(6-8) p by simp
  with R(1) [where rest = "[0, t] @ rest" and st = ?st] R(2) R(3) [where rest = "[0, t] @ rest"]
    assms(7,8) first Suc show ?thesis
    by (simp add: uusb_parse_descriptors_def Let_def)
qed

theorem zero_length_diverges_witness:
  "uusb_parse_descriptors 1000 dev_zero (device_with 1 @ [0, 0x21] @ [0]) 21 = Inl Out_Of_Fuel"
  by (rule zero_length_diverges) (simp_all add: device_with_def descriptor_ok_def dt_type_defs)

end
