(* ===== verification/Device_Counts.thy ===== *)
theory Device_Counts
  imports Descriptor
begin

text \<open>
  The record of a device as a type with an invariant. The parser of descriptor.c has no check that
  a counter fits its array, but every element is written before the parser goes on; so on any
  bytes at all, a device it accepts without having written behind an array has its counters within
  the arrays. The same walk carries any condition on the CCID descriptors of a stream into the
  device.
\<close>

section \<open>Counters and arrays\<close>

text \<open>
  \<open>fits P dev\<close>: the arrays have their C sizes, no counter exceeds its array, and every parsed
  CCID descriptor satisfies \<open>P\<close>.
\<close>

definition intf_fits :: "(ccid_descriptor \<Rightarrow> bool) \<Rightarrow> uusb_interface \<Rightarrow> bool" where
  "intf_fits P intf \<longleftrightarrow> length (if_endpoint intf) = UUSB_MAX_ENDPOINTS
     \<and> unat (num_endpoints intf) \<le> UUSB_MAX_ENDPOINTS \<and> pred_option P (if_ccid intf)"

definition config_fits :: "(ccid_descriptor \<Rightarrow> bool) \<Rightarrow> uusb_config \<Rightarrow> bool" where
  "config_fits P cf \<longleftrightarrow> length (cf_interface cf) = UUSB_MAX_INTERFACES
     \<and> unat (num_interfaces cf) \<le> UUSB_MAX_INTERFACES \<and> (\<forall>intf \<in> set (cf_interface cf). intf_fits P intf)"

definition fits :: "(ccid_descriptor \<Rightarrow> bool) \<Rightarrow> uusb_dev \<Rightarrow> bool" where
  "fits P dev \<longleftrightarrow> length (dev_config dev) = UUSB_MAX_CONFIGS
     \<and> unat (num_configs dev) \<le> UUSB_MAX_CONFIGS \<and> (\<forall>cf \<in> set (dev_config dev). config_fits P cf)"

lemma fits_zero: "fits P dev_zero"
  by (simp add: fits_def dev_zero_def config_fits_def config_zero_def intf_fits_def interface_zero_def max_defs)

text \<open>What the parser leaves alone.\<close>

definition same_place :: "uusb_dev \<Rightarrow> uusb_dev \<Rightarrow> bool" where
  "same_place dev dev' \<longleftrightarrow> sysfs_dir dev' = sysfs_dir dev \<and> dev_path dev' = dev_path dev
     \<and> dev_fd dev' = dev_fd dev \<and> dev_type dev' = dev_type dev \<and> devaddr dev' = devaddr dev"

lemma same_place_refl: "same_place dev dev"
  by (simp add: same_place_def)

lemma same_place_trans: "same_place a b \<Longrightarrow> same_place b c \<Longrightarrow> same_place a c"
  by (simp add: same_place_def)

text \<open>One step of the parser: the device stays where it is, and fits if it did before. A step that
  fails may leave a counter too high; \<open>step_ok\<close> asks for the second part of successful steps only.\<close>

definition fit_step :: "(ccid_descriptor \<Rightarrow> bool) \<Rightarrow> parse_state \<Rightarrow> parse_state \<Rightarrow> bool" where
  "fit_step P st st' \<longleftrightarrow> same_place (ps_dev st) (ps_dev st')
     \<and> (fits P (ps_dev st) \<longrightarrow> fits P (ps_dev st'))"

definition step_ok :: "(ccid_descriptor \<Rightarrow> bool) \<Rightarrow> parse_state \<Rightarrow> bool \<Rightarrow> parse_state \<Rightarrow> bool" where
  "step_ok P st ok st' \<longleftrightarrow> same_place (ps_dev st) (ps_dev st') \<and> (ok \<longrightarrow> fit_step P st st')"

lemma fit_step_ok: "fit_step P st st' \<Longrightarrow> step_ok P st ok st'"
  by (simp add: step_ok_def fit_step_def)

lemma step_okD: "step_ok P st True st' \<Longrightarrow> fit_step P st st'"
  by (simp add: step_ok_def)

lemma fit_step_refl: "ps_dev st' = ps_dev st \<Longrightarrow> fit_step P st st'"
  by (simp add: fit_step_def same_place_refl)

lemma fit_step_trans: "fit_step P a b \<Longrightarrow> fit_step P b c \<Longrightarrow> fit_step P a c"
  by (auto simp: fit_step_def intro: same_place_trans)

lemma fit_step_ok_trans: "fit_step P a b \<Longrightarrow> step_ok P b ok c \<Longrightarrow> step_ok P a ok c"
  by (auto simp: step_ok_def fit_step_def intro: same_place_trans)

lemma get_config_fits: "get_config st c = Inr cf \<Longrightarrow> fits P (ps_dev st) \<Longrightarrow> config_fits P cf"
  by (auto simp: get_config_def arr_get_def fits_def split: if_splits)

lemma get_interface_fits: "get_interface st c i = Inr intf \<Longrightarrow> fits P (ps_dev st) \<Longrightarrow> intf_fits P intf"
  by (auto simp: get_interface_def rbind_eq_Inr arr_get_def config_fits_def split: if_splits
      dest!: get_config_fits)

lemma put_config_fits:
  assumes "put_config st c cf = Inr st'" and "fits P (ps_dev st) \<Longrightarrow> config_fits P cf"
  shows "fit_step P st st'"
  using assms
  by (auto simp: put_config_def rbind_eq_Inr arr_set_def fit_step_def same_place_def fits_def split: if_splits
      dest!: set_update_subset_insert [THEN subsetD])

lemma put_interface_fits:
  assumes "put_interface st c i intf = Inr st'" and "fits P (ps_dev st) \<Longrightarrow> intf_fits P intf"
  shows "fit_step P st st'"
proof -
  obtain cf ifs where p: "get_config st c = Inr cf" "arr_set (cf_interface cf) i intf = Inr ifs"
      "put_config st c (cf\<lparr>cf_interface := ifs\<rparr>) = Inr st'"
    using assms(1) by (auto simp: put_interface_def rbind_eq_Inr)
  show ?thesis
  proof (rule put_config_fits [OF p(3)])
    assume f: "fits P (ps_dev st)"
    from get_config_fits [OF p(1) f] assms(2) [OF f] p(2) show "config_fits P (cf\<lparr>cf_interface := ifs\<rparr>)"
      by (auto simp: config_fits_def arr_set_def split: if_splits dest!: set_update_subset_insert [THEN subsetD])
  qed
qed

lemma get_config_bound: "get_config st c = Inr cf \<Longrightarrow> c < length (dev_config (ps_dev st))"
  by (simp add: get_config_def arr_get_def split: if_splits)

lemma parse_config_fits:
  assumes "parse_config st dt = Inr (ok, st')"
  shows "step_ok P st ok st'"
proof (cases "num_configs (ps_dev st) > ucast (bNumConfigurations (dev_descriptor (ps_dev st)))")
  case True
  with assms show ?thesis by (simp add: parse_config_def fit_step_ok fit_step_refl)
next
  case False
  let ?dev = "ps_dev st" and ?c = "unat (num_configs (ps_dev st))"
  let ?st1 = "st\<lparr>ps_dev := ?dev\<lparr>num_configs := num_configs ?dev + 1\<rparr>, ps_config := Some ?c\<rparr>"
  show ?thesis
  proof (cases "?c \<ge> length (dev_config ?dev)")
    case True
    with assms False have "\<not> ok" "st' = ?st1"
      by (auto simp: parse_config_def parse_config_behind_def Let_def rbind_eq_Inr split: if_splits)
    then show ?thesis by (simp add: step_ok_def same_place_def)
  next
    case inside: False
    then obtain cf cd st2 where p: "get_config ?st1 ?c = Inr cf" "put_config ?st1 ?c (cf\<lparr>cf_descriptor := cd\<rparr>) = Inr st2"
        "ps_dev st' = ps_dev st2"
      using assms False by (auto simp: parse_config_def Let_def rbind_eq_Inr split: if_splits)
    have "fits P ?dev \<Longrightarrow> fits P (ps_dev ?st1)"
      using inside by (simp add: fits_def max_defs unat_add_small)
    then have 1: "fit_step P st ?st1"
      by (simp add: fit_step_def same_place_def)
    have 2: "fit_step P ?st1 st2"
      using get_config_fits [OF p(1), of P] by (intro put_config_fits [OF p(2)]) (simp add: config_fits_def)
    show ?thesis
      by (rule fit_step_ok [OF fit_step_trans [OF 1 fit_step_trans [OF 2 fit_step_refl [OF p(3)]]]])
  qed
qed

lemma parse_interface_fits:
  assumes "parse_interface st dt = Inr (ok, st')"
  shows "fit_step P st st'"
proof (cases "ps_config st")
  case None
  with assms show ?thesis by (simp add: parse_interface_def fit_step_refl)
next
  case (Some c)
  obtain cf where cf: "get_config st c = Inr cf"
    using assms Some by (auto simp: parse_interface_def rbind_eq_Inr)
  show ?thesis
  proof (cases "num_interfaces cf > ucast (bNumInterfaces (cf_descriptor cf))")
    case True
    with assms Some cf show ?thesis by (simp add: parse_interface_def fit_step_refl)
  next
    case False
    let ?i = "unat (num_interfaces cf)" and ?cf = "cf\<lparr>num_interfaces := num_interfaces cf + 1\<rparr>"
    obtain st1 intf intf' st2 where p: "put_config st c ?cf = Inr st1" "get_interface st1 c ?i = Inr intf"
        "put_interface st1 c ?i intf' = Inr st2" "ps_dev st' = ps_dev st2"
        and same: "intf_fits P intf \<Longrightarrow> intf_fits P intf'"
    proof -
      have "\<exists>st1 intf intf' st2. put_config st c ?cf = Inr st1 \<and> get_interface st1 c ?i = Inr intf
          \<and> put_interface st1 c ?i intf' = Inr st2 \<and> ps_dev st' = ps_dev st2
          \<and> (intf_fits P intf \<longrightarrow> intf_fits P intf')"
        using assms Some cf False
        by (fastforce simp: parse_interface_def Let_def rbind_eq_Inr intf_fits_def split: if_splits)
      then show thesis using that by blast
    qed
    have "config_fits P ?cf" if f: "fits P (ps_dev st)"
    proof -
      have i: "?i < UUSB_MAX_INTERFACES"
      proof -
        have "?cf \<in> set (dev_config (ps_dev st1))" "c < length (dev_config (ps_dev st))"
          using p(1) get_config_bound [OF cf]
          by (auto simp: put_config_def rbind_eq_Inr arr_set_def set_update_memI split: if_splits)
        with p(1,2) get_config_fits [OF cf f] show ?thesis
          by (auto simp: put_config_def get_interface_def get_config_def rbind_eq_Inr arr_set_def arr_get_def
              config_fits_def split: if_splits)
      qed
      with get_config_fits [OF cf f] show ?thesis
        by (simp add: config_fits_def max_defs unat_add_small)
    qed
    then have 1: "fit_step P st st1" by (rule put_config_fits [OF p(1)])
    have 2: "fit_step P st1 st2"
      by (rule put_interface_fits [OF p(3) same [OF get_interface_fits [OF p(2)]]])
    show ?thesis
      by (rule fit_step_trans [OF 1 fit_step_trans [OF 2 fit_step_refl [OF p(4)]]])
  qed
qed

lemma parse_endpoint_fits:
  assumes "parse_endpoint st dt = Inr (ok, st')"
  shows "fit_step P st st'"
proof -
  consider (none) "ps_config st = None \<or> ps_interface st = None"
    | (both) c i where "ps_config st = Some c" "ps_interface st = Some i"
    by (cases "ps_config st"; cases "ps_interface st") auto
  then show ?thesis
  proof cases
    case none
    with assms show ?thesis by (auto simp: parse_endpoint_def fit_step_refl split: option.splits)
  next
    case both
    obtain intf where intf: "get_interface st c i = Inr intf"
      using assms both by (auto simp: parse_endpoint_def rbind_eq_Inr)
    show ?thesis
    proof (cases "num_endpoints intf > ucast (bNumEndpoints (if_descriptor intf))")
      case True
      with assms both intf show ?thesis by (simp add: parse_endpoint_def fit_step_refl)
    next
      case False
      obtain ep eps where p: "arr_set (if_endpoint intf) (unat (num_endpoints intf)) ep = Inr eps"
          "put_interface st c i (intf\<lparr>num_endpoints := num_endpoints intf + 1, if_endpoint := eps\<rparr>) = Inr st'"
        using assms both intf False by (auto simp: parse_endpoint_def Let_def rbind_eq_Inr)
      show ?thesis
        using get_interface_fits [OF intf, of P] p(1)
        by (intro put_interface_fits [OF p(2)])
          (auto simp: intf_fits_def arr_set_def max_defs unat_add_small split: if_splits)
    qed
  qed
qed

text \<open>The class descriptors are the only ones the condition on CCID descriptors is about.\<close>

lemma parse_other_fits:
  assumes "parse_other st data l = Inr (ok, st')"
    and "\<And>c. ccid_parse_usb_descriptor ccid_zero data (ucast (ucast l :: u64)) = Inr (True, c) \<Longrightarrow> P c"
  shows "fit_step P st st'"
proof -
  consider (none) "ps_config st = None \<or> ps_interface st = None"
    | (both) c i where "ps_config st = Some c" "ps_interface st = Some i"
    by (cases "ps_config st"; cases "ps_interface st") auto
  then show ?thesis
  proof cases
    case none
    with assms show ?thesis by (auto simp: parse_other_def fit_step_refl split: option.splits)
  next
    case both
    obtain intf ok' intf' where p: "get_interface st c i = Inr intf"
        "uusb_interface_process_descriptor intf data (ucast l) = Inr (ok', intf')"
        "put_interface st c i intf' = Inr st'"
      using assms(1) both by (auto simp: parse_other_def rbind_eq_Inr)
    have "intf_fits P intf' \<or> \<not> intf_fits P intf"
      using p(2) assms(2)
      by (auto simp: uusb_interface_process_descriptor_def uusb_handle_ccid_descriptor_def rbind_eq_Inr
          intf_fits_def split: option.splits descriptor_handler.splits if_splits)
    with get_interface_fits [OF p(1), of P] show ?thesis
      by (intro put_interface_fits [OF p(3)]) auto
  qed
qed

lemma parse_later_fits:
  assumes "parse_later st t data l dt = Inr (ok, st')"
    and "\<And>c. t \<notin> {USB_DT_DEVICE, USB_DT_CONFIG, USB_DT_INTERFACE, USB_DT_ENDPOINT}
      \<Longrightarrow> ccid_parse_usb_descriptor ccid_zero data (ucast (ucast l :: u64)) = Inr (True, c) \<Longrightarrow> P c"
  shows "step_ok P st ok st'"
  using assms
  by (auto simp: parse_later_def fit_step_ok fit_step_refl parse_config_fits parse_interface_fits
      parse_endpoint_fits parse_other_fits split: if_splits)

lemma parse_first_fits: "parse_first st t dt = Inr (ok, st') \<Longrightarrow> fit_step P st st'"
  by (auto simp: parse_first_def Let_def rbind_eq_Inr fit_step_def same_place_def fits_def split: if_splits)

lemma parse_loop_fits: "parse_loop n data pos len st = Inr (ok, st') \<Longrightarrow> step_ok (\<lambda>_. True) st ok st'"
proof (induction n arbitrary: pos st)
  case 0
  then show ?case by simp
next
  case (Suc n)
  show ?case
  proof (cases "ucast (pos + 2) < len")
    case False
    with Suc.prems show ?thesis by (simp add: fit_step_ok fit_step_refl)
  next
    case True
    then obtain ok1 st1 where r: "parse_round data pos len st = Inr (ok1, st1)"
      using Suc.prems by (auto simp: rbind_eq_Inr)
    then have 1: "step_ok (\<lambda>_. True) st ok1 st1"
      by (auto simp: parse_round_def rbind_eq_Inr Let_def fit_step_ok fit_step_refl
          intro: parse_first_fits [THEN fit_step_ok] parse_later_fits split: if_splits)
    show ?thesis
    proof (cases ok1)
      case True
      with 1 have "fit_step (\<lambda>_. True) st st1" by (simp add: step_okD)
      with Suc.prems True \<open>ucast (pos + 2) < len\<close> r Suc.IH show ?thesis
        by (auto simp: rbind_eq_Inr intro: fit_step_ok_trans)
    next
      case False
      with Suc.prems True r 1 show ?thesis by simp
    qed
  qed
qed

lemma parse_fits_any:
  assumes "uusb_parse_descriptors budget dev data len = Inr (ok, dev')" and "fits (\<lambda>_. True) dev"
  shows "(ok \<longrightarrow> fits (\<lambda>_. True) dev') \<and> same_place dev dev'"
  using assms parse_loop_fits [of budget data 0 len "\<lparr>ps_dev = dev, ps_config = None, ps_interface = None\<rparr>"]
  by (auto simp: uusb_parse_descriptors_def rbind_eq_Inr step_ok_def fit_step_def)

text \<open>A parse that fails can leave a counter behind its array: \<^verbatim>\<open>usb_open\<close> releases that device.\<close>

lemma rejected_counter:
  "case parse_stream (device_with 8 # replicate 8 (config_with 1) @ [[3, USB_DT_CONFIG, 9]]) of
     Inl e \<Rightarrow> False | Inr (ok, dev) \<Rightarrow> \<not> ok \<and> num_configs dev = 9"
  by code_simp

text \<open>C13: The device record is well-formed after any parse that accepts it: whatever the bytes are,
  where uusb_parse_descriptors runs to its end without an access out of bounds and accepts the
  device, a record that had its arrays at their sizes and no counter beyond the array it counts
  still does. Its place in sysfs is untouched in any case.\<close>

theorem parse_counts_fit:
  assumes "uusb_parse_descriptors budget dev data len = Inr (ok, dev')" and "fits (\<lambda>_. True) dev"
  shows "(ok \<longrightarrow> fits (\<lambda>_. True) dev') \<and> same_place dev dev'"
  using assms by (rule parse_fits_any)

theorem parse_counts_fit_witness:
  "case uusb_parse_descriptors 30 dev_zero (concat [device_with 1, config_with 1, interface_with 1]) 36 of
     Inl e \<Rightarrow> False | Inr (ok, dev') \<Rightarrow> ok \<and> fits (\<lambda>_. True) dev' \<and> same_place dev_zero dev'"
proof -
  have "(case uusb_parse_descriptors 30 dev_zero (concat [device_with 1, config_with 1, interface_with 1]) 36 of
     Inl e \<Rightarrow> False | Inr (ok, dev') \<Rightarrow> ok)"
    by code_simp
  then show ?thesis
    using parse_counts_fit [OF _ fits_zero]
    by (auto split: sum.splits prod.splits)
qed

text \<open>On a well-formed stream the condition on the CCID descriptors can be read off the bytes.\<close>

definition class_ok :: "(ccid_descriptor \<Rightarrow> bool) \<Rightarrow> bytes \<Rightarrow> bool" where
  "class_ok P d \<longleftrightarrow> d ! 1 \<notin> {USB_DT_DEVICE, USB_DT_CONFIG, USB_DT_INTERFACE, USB_DT_ENDPOINT}
     \<longrightarrow> 54 \<le> length d \<longrightarrow> P (ccid_layout (take 52 (drop 2 d)))"

lemma ccid_at:
  assumes "descriptor_ok d"
    and "ccid_parse_usb_descriptor ccid_zero (d @ rest) (ucast (ucast (of_nat (length d) :: u8) :: u64)) = Inr (True, c)"
  shows "54 \<le> length d \<and> c = ccid_layout (take 52 (drop 2 d))"
proof -
  let ?l = "ucast (ucast (of_nat (length d) :: u8) :: u64) :: u32"
  have l: "unat ?l = length d"
    using unat_length_u8 [OF assms(1)] assms(1) by (simp add: unat_ucast_64_32 descriptor_ok_def)
  have "2 \<le> unat ?l" "unat ?l \<le> length (d @ rest)"
    using assms(1) l by (simp_all add: descriptor_ok_def)
  with ccid_parse_layout [of ?l "d @ rest" ccid_zero] ccid.parse_short [of ?l "d @ rest" ccid_zero] assms(2) l
  show ?thesis
    by (cases "54 \<le> length d") (auto simp: ccid_parse_usb_descriptor_def drop_append)
qed

lemma stream_run_fits:
  "list_all descriptor_ok ds \<Longrightarrow> list_all (class_ok P) ds \<Longrightarrow> stream_run slack st ds = Inr (ok, st')
     \<Longrightarrow> step_ok P st ok st'"
proof (induction ds arbitrary: st)
  case Nil
  then show ?case by (simp add: fit_step_ok fit_step_refl)
next
  case (Cons d ds)
  let ?data = "concat (d # ds) @ slack"
  obtain ok1 st1 where l: "parse_later st (d ! 1) ?data (of_nat (length d))
      (uusb_dt_parser_init ?data (of_nat (length d))) = Inr (ok1, st1)"
    using Cons.prems(3) by (auto simp: and_then_def rbind_eq_Inr)
  have 1: "step_ok P st ok1 st1"
  proof (rule parse_later_fits [OF l])
    fix c
    assume "d ! 1 \<notin> {USB_DT_DEVICE, USB_DT_CONFIG, USB_DT_INTERFACE, USB_DT_ENDPOINT}"
      and "ccid_parse_usb_descriptor ccid_zero ?data (ucast (ucast (of_nat (length d) :: u8) :: u64)) = Inr (True, c)"
    then show "P c"
      using ccid_at [of d "concat ds @ slack" c] Cons.prems(1,2) by (auto simp: class_ok_def)
  qed
  show ?case
  proof (cases ok1)
    case True
    with 1 have "fit_step P st st1" by (simp add: step_okD)
    moreover have "step_ok P st1 ok st'"
      using Cons.IH [of st1] Cons.prems l True by simp
    ultimately show ?thesis by (rule fit_step_ok_trans)
  next
    case False
    with Cons.prems(3) l 1 show ?thesis by simp
  qed
qed

end
