(* ===== verification/Device_Tree.thy ===== *)
theory Device_Tree
  imports Device_Counts
begin

text \<open>
  What the parser of descriptor.c is for: a device presents its descriptors as a flattened tree,
  and \<^verbatim>\<open>uusb_parse_descriptors\<close> builds the tree again in the arrays of the device record. The
  abstract side (\<open>config_tree\<close>, \<open>device_of_tree\<close>) is written with \<open>map\<close>, \<open>filter\<close> and \<open>last\<close> over the
  tree; \<open>leads\<close> composes the runs over its parts.
\<close>

section \<open>The tree of a device\<close>

text \<open>
  A device as a tree of its descriptors. The body of an interface holds its endpoints and class
  descriptors in any order; \<open>ct_other\<close> are descriptors between a configuration and its first
  interface. A descriptor may be longer than what the program reads of it.
\<close>

record intf_tree =
  it_head :: bytes
  it_body :: "bytes list"

record config_tree =
  ct_head :: bytes
  ct_other :: "bytes list"
  ct_intfs :: "intf_tree list"

definition intf_stream :: "intf_tree \<Rightarrow> bytes list" where
  "intf_stream t = it_head t # it_body t"

definition config_stream :: "config_tree \<Rightarrow> bytes list" where
  "config_stream t = ct_head t # ct_other t @ concat (map intf_stream (ct_intfs t))"

definition tree_stream :: "config_tree list \<Rightarrow> bytes list" where
  "tree_stream ts = concat (map config_stream ts)"

text \<open>What the program should make of the tree.\<close>

definition device_of :: "bytes \<Rightarrow> device_descriptor \<Rightarrow> device_descriptor" where
  "device_of d = device_layout (take 16 (drop 2 d))"

definition config_of :: "bytes \<Rightarrow> config_descriptor" where
  "config_of d = config_layout (take 7 (drop 2 d)) (cf_descriptor config_zero)"

definition interface_of :: "bytes \<Rightarrow> interface_descriptor" where
  "interface_of d = interface_layout (take 7 (drop 2 d)) (if_descriptor interface_zero)"

definition endpoint_of :: "bytes \<Rightarrow> endpoint_descriptor" where
  "endpoint_of d = endpoint_layout (take 5 (drop 2 d)) endpoint_zero"

definition class_of :: "bytes \<Rightarrow> ccid_descriptor" where
  "class_of d = ccid_layout (take 52 (drop 2 d))"

definition is_endpoint :: "bytes \<Rightarrow> bool" where
  "is_endpoint d \<longleftrightarrow> d ! 1 = USB_DT_ENDPOINT"

definition endpoints :: "bytes list \<Rightarrow> bytes list" where
  "endpoints ds = filter is_endpoint ds"

definition others :: "bytes list \<Rightarrow> bytes list" where
  "others ds = filter (\<lambda>d. \<not> is_endpoint d) ds"

text \<open>Only interfaces of a type with a handler look at their class descriptors.\<close>

definition handled :: "interface_descriptor \<Rightarrow> bool" where
  "handled d \<longleftrightarrow> (case uusb_find_interface_type (id_bInterface d) of None \<Rightarrow> False
     | Some t \<Rightarrow> handle_descriptor t \<noteq> None)"

definition built_interface :: "interface_descriptor \<Rightarrow> bytes list \<Rightarrow> uusb_interface" where
  "built_interface d body = \<lparr>if_descriptor = d, if_type = uusb_find_interface_type (id_bInterface d),
     if_ccid = (if handled d \<and> others body \<noteq> [] then Some (class_of (last (others body))) else None),
     num_endpoints = of_nat (length (endpoints body)),
     if_endpoint = map endpoint_of (endpoints body)
       @ replicate (UUSB_MAX_ENDPOINTS - length (endpoints body)) endpoint_zero\<rparr>"

definition intf_of_tree :: "intf_tree \<Rightarrow> uusb_interface" where
  "intf_of_tree t = built_interface (interface_of (it_head t)) (it_body t)"

definition built_config :: "config_descriptor \<Rightarrow> uusb_interface list \<Rightarrow> uusb_config" where
  "built_config d is = \<lparr>cf_descriptor = d, num_interfaces = of_nat (length is),
     cf_interface = is @ replicate (UUSB_MAX_INTERFACES - length is) interface_zero\<rparr>"

definition config_of_tree :: "config_tree \<Rightarrow> uusb_config" where
  "config_of_tree t = built_config (config_of (ct_head t)) (map intf_of_tree (ct_intfs t))"

definition built_dev :: "uusb_dev \<Rightarrow> uusb_config list \<Rightarrow> uusb_dev" where
  "built_dev dev cs = dev\<lparr>num_configs := of_nat (length cs),
     dev_config := cs @ replicate (UUSB_MAX_CONFIGS - length cs) config_zero\<rparr>"

text \<open>Trees the program can hold.\<close>

definition std_types :: "u8 set" where
  "std_types = {USB_DT_DEVICE, USB_DT_CONFIG, USB_DT_INTERFACE, USB_DT_ENDPOINT}"

definition body_ok :: "interface_descriptor \<Rightarrow> bytes list \<Rightarrow> bool" where
  "body_ok d body \<longleftrightarrow>
     (\<forall>x \<in> set body. descriptor_ok x \<and> (if is_endpoint x then 7 \<le> length x
        else x ! 1 \<notin> std_types \<and> (handled d \<longrightarrow> 54 \<le> length x)))
     \<and> length (endpoints body) \<le> UUSB_MAX_ENDPOINTS \<and> length (endpoints body) \<le> unat (bNumEndpoints d)"

definition intf_tree_ok :: "intf_tree \<Rightarrow> bool" where
  "intf_tree_ok t \<longleftrightarrow> descriptor_ok (it_head t) \<and> it_head t ! 1 = USB_DT_INTERFACE \<and> 9 \<le> length (it_head t)
     \<and> body_ok (interface_of (it_head t)) (it_body t)"

definition config_tree_ok :: "config_tree \<Rightarrow> bool" where
  "config_tree_ok t \<longleftrightarrow> descriptor_ok (ct_head t) \<and> ct_head t ! 1 = USB_DT_CONFIG \<and> 9 \<le> length (ct_head t)
     \<and> (\<forall>x \<in> set (ct_other t). descriptor_ok x \<and> x ! 1 \<notin> std_types)
     \<and> (\<forall>i \<in> set (ct_intfs t). intf_tree_ok i)
     \<and> length (ct_intfs t) \<le> UUSB_MAX_INTERFACES
     \<and> length (ct_intfs t) \<le> unat (bNumInterfaces (config_of (ct_head t)))"

section \<open>Reading a tree\<close>

definition leads :: "bytes \<Rightarrow> parse_state \<Rightarrow> bytes list \<Rightarrow> parse_state \<Rightarrow> bool" where
  "leads slack st ds st' \<longleftrightarrow> (\<forall>rest. stream_run slack st (ds @ rest) = stream_run slack st' rest)"

lemma leads_Nil: "leads slack st [] st"
  by (simp add: leads_def)

lemma leads_append: "leads slack st ds st1 \<Longrightarrow> leads slack st1 es st2 \<Longrightarrow> leads slack st (ds @ es) st2"
  by (simp add: leads_def)

lemma leads_run: "leads slack st ds st' \<Longrightarrow> stream_run slack st ds = Inr (True, st')"
  by (simp add: leads_def) (metis append_Nil2 stream_run.simps(1))

lemma leads_one:
  assumes "\<And>data. parse_later st (d ! 1) (d @ data) (of_nat (length d))
      (uusb_dt_parser_init (d @ data) (of_nat (length d))) = Inr (True, st')"
  shows "leads slack st [d] st'"
  using assms by (simp add: leads_def)

text \<open>The parsers on a descriptor with enough bytes.\<close>

lemma unat_length_u32: "descriptor_ok d \<Longrightarrow> unat (of_nat (length d) :: u32) = length d"
  by (simp add: descriptor_ok_def unat_of_nat take_bit_nat_eq_self)

lemma parse_std:
  assumes "descriptor_ok d"
  shows "18 \<le> length d \<Longrightarrow> \<exists>p. uusb_parse_device_descriptor (x, uusb_dt_parser_init (d @ data) (of_nat (length d)))
      = Inr (True, device_layout (take 16 (drop 2 d)) x, p)"
    and "9 \<le> length d \<Longrightarrow> \<exists>p. uusb_parse_config_descriptor (y, uusb_dt_parser_init (d @ data) (of_nat (length d)))
      = Inr (True, config_of d, p)"
    and "9 \<le> length d \<Longrightarrow> \<exists>p. uusb_parse_interface_descriptor (z, uusb_dt_parser_init (d @ data) (of_nat (length d)))
      = Inr (True, interface_of d, p)"
    and "7 \<le> length d \<Longrightarrow> \<exists>p. uusb_parse_endpoint_descriptor (e, uusb_dt_parser_init (d @ data) (of_nat (length d)))
      = Inr (True, endpoint_of d, p)"
  using unat_length_u32 [OF assms]
  by (simp_all add: device.parse_fits config.parse_fits intf.parse_fits endpoint.parse_fits
      config_of_def interface_of_def endpoint_of_def config_layout_def interface_layout_def endpoint_layout_def)

text \<open>The interface the pointers point to.\<close>

definition with_interface :: "parse_state \<Rightarrow> nat \<Rightarrow> nat \<Rightarrow> uusb_interface \<Rightarrow> parse_state" where
  "with_interface st c i intf = st\<lparr>ps_dev := (ps_dev st)\<lparr>dev_config := (dev_config (ps_dev st))
     [c := (dev_config (ps_dev st) ! c)\<lparr>cf_interface := (cf_interface (dev_config (ps_dev st) ! c))[i := intf]\<rparr>]\<rparr>\<rparr>"

definition points :: "parse_state \<Rightarrow> nat \<Rightarrow> nat \<Rightarrow> uusb_interface \<Rightarrow> bool" where
  "points st c i intf \<longleftrightarrow> ps_config st = Some c \<and> ps_interface st = Some i
     \<and> c < length (dev_config (ps_dev st)) \<and> i < length (cf_interface (dev_config (ps_dev st) ! c))
     \<and> cf_interface (dev_config (ps_dev st) ! c) ! i = intf"

lemma points_with: "points st c i intf \<Longrightarrow> points (with_interface st c i intf') c i intf'"
  by (simp add: points_def with_interface_def)

lemma with_with: "points st c i intf \<Longrightarrow> with_interface (with_interface st c i a) c i b = with_interface st c i b"
  by (simp add: points_def with_interface_def)

lemma points_access:
  assumes "points st c i intf"
  shows "ps_config st = Some c" and "ps_interface st = Some i" and "get_interface st c i = Inr intf" and "put_interface st c i intf' = Inr (with_interface st c i intf')"
  using assms
  by (auto simp: points_def get_interface_def put_interface_def get_config_def put_config_def arr_in with_interface_def)

text \<open>One descriptor of a body.\<close>

lemma body_endpoint:
  assumes "points st c i (built_interface d pre)" and "descriptor_ok x" and "is_endpoint x" and "7 \<le> length x"
    and "length (endpoints pre) < UUSB_MAX_ENDPOINTS" and "length (endpoints pre) \<le> unat (bNumEndpoints d)"
  shows "leads slack st [x] (with_interface st c i (built_interface d (pre @ [x])))"
proof (rule leads_one)
  fix data
  let ?n = "length (endpoints pre)" and ?dt = "uusb_dt_parser_init (x @ data) (of_nat (length x))"
  let ?i = "built_interface d pre"
  have n: "unat (num_endpoints ?i) = ?n"
    using assms(5) by (simp add: built_interface_def max_defs unat_of_nat take_bit_nat_eq_self)
  have guard: "\<not> num_endpoints ?i > ucast (bNumEndpoints (if_descriptor ?i))"
    using assms(6) n by (simp add: word_less_nat_alt built_interface_def)
  have len: "length (if_endpoint ?i) = UUSB_MAX_ENDPOINTS"
    using assms(5) by (simp add: built_interface_def)
  have set: "(if_endpoint ?i)[?n := endpoint_of x]
      = map endpoint_of (endpoints (pre @ [x])) @ replicate (UUSB_MAX_ENDPOINTS - length (endpoints (pre @ [x]))) endpoint_zero"
  proof -
    obtain m where "UUSB_MAX_ENDPOINTS - ?n = Suc m"
      using assms(5) by (metis Suc_diff_Suc)
    then show ?thesis
      using assms(3) by (simp add: built_interface_def endpoints_def list_update_append)
  qed
  have new: "?i\<lparr>num_endpoints := num_endpoints ?i + 1, if_endpoint := (if_endpoint ?i)[?n := endpoint_of x]\<rparr>
      = built_interface d (pre @ [x])"
    unfolding set using assms(3) by (simp add: built_interface_def endpoints_def others_def)
  obtain p where "uusb_parse_endpoint_descriptor (if_endpoint ?i ! ?n, ?dt) = Inr (True, endpoint_of x, p)"
    using parse_std(4) [OF assms(2,4)] by blast
  then have "parse_endpoint st ?dt = Inr (True, with_interface st c i (built_interface d (pre @ [x])))"
    using assms(5) guard len n new
    by (simp add: parse_endpoint_def points_access [OF assms(1)] arr_in Let_def)
  then show "parse_later st (x ! 1) (x @ data) (of_nat (length x)) ?dt
      = Inr (True, with_interface st c i (built_interface d (pre @ [x])))"
    using assms(3) by (simp add: parse_later_def is_endpoint_def dt_type_defs)
qed

lemma body_class:
  assumes "points st c i (built_interface d pre)" and "descriptor_ok x" and "x ! 1 \<notin> std_types"
    and "handled d \<longrightarrow> 54 \<le> length x"
  shows "leads slack st [x] (with_interface st c i (built_interface d (pre @ [x])))"
proof (rule leads_one)
  fix data
  let ?l = "ucast (ucast (of_nat (length x) :: u8) :: u64) :: u32"
  have ne: "\<not> is_endpoint x" using assms(3) by (simp add: std_types_def is_endpoint_def)
  have l: "unat ?l = length x"
    using unat_length_u8 [OF assms(2)] assms(2) by (simp add: unat_ucast_64_32 descriptor_ok_def)
  have "uusb_interface_process_descriptor (built_interface d pre) (x @ data) (ucast (of_nat (length x) :: u8))
      = Inr (True, built_interface d (pre @ [x]))"
  proof (cases "handled d")
    case True
    then obtain t where t: "uusb_find_interface_type (id_bInterface d) = Some t"
        "handle_descriptor t = Some Handle_ccid_descriptor"
      by (auto simp: handled_def split: option.splits) (metis descriptor_handler.exhaust)
    have "ccid_parse_usb_descriptor ccid_zero (x @ data) ?l = Inr (True, class_of x)"
      using ccid_parse_layout [of ?l "x @ data" ccid_zero] l assms(4) True by (simp add: class_of_def)
    with t True ne show ?thesis
      by (simp add: uusb_interface_process_descriptor_def uusb_handle_ccid_descriptor_def built_interface_def
          endpoints_def others_def)
  next
    case False
    with ne show ?thesis
      by (auto simp: uusb_interface_process_descriptor_def built_interface_def endpoints_def handled_def
          split: option.splits descriptor_handler.splits)
  qed
  with assms(3) show "parse_later st (x ! 1) (x @ data) (of_nat (length x))
      (uusb_dt_parser_init (x @ data) (of_nat (length x)))
      = Inr (True, with_interface st c i (built_interface d (pre @ [x])))"
    by (simp add: parse_later_def std_types_def parse_other_def points_access [OF assms(1)])
qed

lemma body_leads:
  assumes "points st c i (built_interface d pre)" and "body_ok d (pre @ body)"
  shows "leads slack st body (with_interface st c i (built_interface d (pre @ body)))"
  using assms
proof (induction body arbitrary: st pre)
  case Nil
  then have "built_interface d pre = cf_interface (dev_config (ps_dev st) ! c) ! i"
    by (simp add: points_def)
  then have "with_interface st c i (built_interface d pre) = st"
    by (simp only: with_interface_def list_update_id) simp
  then show ?case by (simp add: leads_Nil)
next
  case (Cons x xs)
  let ?st1 = "with_interface st c i (built_interface d (pre @ [x]))"
  have x: "descriptor_ok x" using Cons.prems(2) by (simp add: body_ok_def)
  have 1: "leads slack st [x] ?st1"
  proof (cases "is_endpoint x")
    case True
    have e: "length (endpoints pre) < length (endpoints (pre @ x # xs))"
      using True by (simp add: endpoints_def)
    show ?thesis
      using Cons.prems(2) True e by (intro body_endpoint [OF Cons.prems(1) x True]) (auto simp: body_ok_def)
  next
    case False
    show ?thesis
      using Cons.prems(2) False by (intro body_class [OF Cons.prems(1) x]) (auto simp: body_ok_def)
  qed
  have "leads slack ?st1 xs (with_interface ?st1 c i (built_interface d ((pre @ [x]) @ xs)))"
    using Cons.prems(2) by (intro Cons.IH points_with [OF Cons.prems(1)]) simp
  with leads_append [OF 1] show ?case
    by (simp add: with_with [OF Cons.prems(1)])
qed

text \<open>The states between the parts: at the end of a configuration, and of the tree.\<close>

definition in_config :: "uusb_dev \<Rightarrow> uusb_config list \<Rightarrow> config_descriptor \<Rightarrow> uusb_interface list \<Rightarrow> nat option \<Rightarrow> parse_state" where
  "in_config dev cs d ifs j = \<lparr>ps_dev = built_dev dev (cs @ [built_config d ifs]), ps_config = Some (length cs),
     ps_interface = j\<rparr>"

lemma built_dev_config: "length cs < UUSB_MAX_CONFIGS \<Longrightarrow> dev_config (built_dev dev cs) ! length cs = config_zero
    \<and> (dev_config (built_dev dev cs))[length cs := cf] = dev_config (built_dev dev (cs @ [cf]))"
proof -
  assume "length cs < UUSB_MAX_CONFIGS"
  then obtain m where "UUSB_MAX_CONFIGS - length cs = Suc m" by (metis Suc_diff_Suc)
  then show ?thesis by (simp add: built_dev_def list_update_append nth_append)
qed

lemma built_config_interface: "length ifs < UUSB_MAX_INTERFACES \<Longrightarrow> cf_interface (built_config d ifs) ! length ifs = interface_zero
    \<and> (cf_interface (built_config d ifs))[length ifs := intf] = cf_interface (built_config d (ifs @ [intf]))"
proof -
  assume "length ifs < UUSB_MAX_INTERFACES"
  then obtain m where "UUSB_MAX_INTERFACES - length ifs = Suc m" by (metis Suc_diff_Suc)
  then show ?thesis by (simp add: built_config_def list_update_append nth_append)
qed

lemma config_zero_built: "config_zero = built_config (cf_descriptor config_zero) []"
  by (simp add: config_zero_def built_config_def)

lemma interface_zero_built: "interface_zero\<lparr>if_descriptor := d, if_type := uusb_find_interface_type (id_bInterface d)\<rparr>
    = built_interface d []"
  by (simp add: interface_zero_def built_interface_def endpoints_def others_def)

text \<open>Within a configuration, everything happens in the last element of the list.\<close>

lemma in_config_access:
  assumes "length cs < UUSB_MAX_CONFIGS" and "length ifs \<le> UUSB_MAX_INTERFACES"
  shows "get_config (in_config dev cs d ifs j) (length cs) = Inr (built_config d ifs)"
    and "put_config (in_config dev cs d ifs j) (length cs) (built_config d' ifs') = Inr (in_config dev cs d' ifs' j)"
  using assms
  by (simp_all add: get_config_def put_config_def in_config_def built_dev_def arr_in nth_append list_update_append)

lemma interface_leads:
  assumes "length cs < UUSB_MAX_CONFIGS" and "length ifs < UUSB_MAX_INTERFACES"
    and "length ifs \<le> unat (bNumInterfaces d)"
    and "descriptor_ok x" and "x ! 1 = USB_DT_INTERFACE" and "9 \<le> length x"
  shows "leads slack (in_config dev cs d ifs j) [x]
    (in_config dev cs d (ifs @ [built_interface (interface_of x) []]) (Some (length ifs)))"
proof (rule leads_one)
  fix data
  let ?st = "in_config dev cs d ifs j" and ?n = "length ifs" and ?cf = "built_config d ifs"
  let ?dt = "uusb_dt_parser_init (x @ data) (of_nat (length x))" and ?i = "built_interface (interface_of x) []"
  let ?cf1 = "?cf\<lparr>num_interfaces := num_interfaces ?cf + 1\<rparr>"
  have ps: "ps_config ?st = Some (length cs)" by (simp add: in_config_def)
  have n: "unat (num_interfaces ?cf) = ?n"
    using assms(2) by (simp add: built_config_def max_defs unat_of_nat take_bit_nat_eq_self)
  have guard: "\<not> num_interfaces ?cf > ucast (bNumInterfaces (cf_descriptor ?cf))"
    using assms(3) n by (simp add: word_less_nat_alt built_config_def)
  let ?cfs = "dev_config (built_dev dev (cs @ [?cf]))"
  let ?st1 = "?st\<lparr>ps_dev := (ps_dev ?st)\<lparr>dev_config := ?cfs[length cs := ?cf1]\<rparr>\<rparr>"
  have len: "length cs < length ?cfs" "?n < length (cf_interface ?cf)"
    using assms(1,2) by (simp_all add: built_dev_def built_config_def)
  have p1: "put_config ?st (length cs) ?cf1 = Inr ?st1"
    using len(1) by (simp add: put_config_def in_config_def arr_in)
  have g1: "get_config ?st1 (length cs) = Inr ?cf1"
    using len(1) by (simp add: get_config_def arr_in)
  have g2: "get_interface ?st1 (length cs) ?n = Inr interface_zero"
    using len(2) built_config_interface [OF assms(2), of d] by (simp add: get_interface_def g1 arr_in)
  have set: "?cf1\<lparr>cf_interface := (cf_interface ?cf)[?n := ?i]\<rparr> = built_config d (ifs @ [?i])"
    using built_config_interface [OF assms(2), of d ?i] by (simp add: built_config_def)
  have p2: "put_config ?st1 (length cs) (built_config d (ifs @ [?i])) = Inr (in_config dev cs d (ifs @ [?i]) j)"
    using len(1) by (simp add: arr_in put_config_def in_config_def built_dev_def list_update_append)
  have p3: "put_interface ?st1 (length cs) ?n ?i = Inr (in_config dev cs d (ifs @ [?i]) j)"
    using len(2) unfolding put_interface_def g1 rbind_Inr
    by (simp add: arr_in del: uusb_config.update_convs) (simp only: set p2)
  obtain p where "uusb_parse_interface_descriptor (if_descriptor interface_zero, ?dt) = Inr (True, interface_of x, p)"
    using parse_std(3) [OF assms(4,6)] by blast
  then have "parse_interface ?st ?dt = Inr (True, (in_config dev cs d (ifs @ [?i]) j)\<lparr>ps_interface := Some ?n\<rparr>)"
    using guard n
    by (simp add: parse_interface_def in_config_access(1) [OF assms(1) less_imp_le [OF assms(2)]] p1 g2 p3 ps
        Let_def interface_zero_built)
  then show "parse_later ?st (x ! 1) (x @ data) (of_nat (length x)) ?dt
      = Inr (True, in_config dev cs d (ifs @ [?i]) (Some ?n))"
    using assms(5) by (simp add: parse_later_def dt_type_defs) (simp add: in_config_def)
qed

lemma body_in_config:
  assumes "length cs < UUSB_MAX_CONFIGS" and "length ifs < UUSB_MAX_INTERFACES" and "body_ok h body"
  shows "leads slack (in_config dev cs d (ifs @ [built_interface h []]) (Some (length ifs))) body
    (in_config dev cs d (ifs @ [built_interface h body]) (Some (length ifs)))"
proof -
  let ?st = "in_config dev cs d (ifs @ [built_interface h []]) (Some (length ifs))"
  have "points ?st (length cs) (length ifs) (built_interface h [])"
    using assms(1,2) by (simp add: points_def in_config_def built_dev_def built_config_def nth_append)
  from body_leads [OF this, of body slack] assms(3)
  have "leads slack ?st body (with_interface ?st (length cs) (length ifs) (built_interface h body))"
    by simp
  moreover have "with_interface ?st (length cs) (length ifs) (built_interface h body)
      = in_config dev cs d (ifs @ [built_interface h body]) (Some (length ifs))"
    by (simp add: with_interface_def in_config_def built_dev_def built_config_def nth_append list_update_append)
  ultimately show ?thesis by simp
qed

lemma intfs_lead:
  assumes "length cs < UUSB_MAX_CONFIGS" and "length ifs + length ts \<le> UUSB_MAX_INTERFACES"
    and "length ifs + length ts \<le> unat (bNumInterfaces d)" and "\<forall>t \<in> set ts. intf_tree_ok t"
  shows "leads slack (in_config dev cs d ifs j) (concat (map intf_stream ts))
    (in_config dev cs d (ifs @ map intf_of_tree ts) (if ts = [] then j else Some (length ifs + length ts - 1)))"
  using assms(2-4)
proof (induction ts arbitrary: ifs j)
  case Nil
  show ?case using leads_Nil by simp
next
  case (Cons t ts)
  let ?h = "interface_of (it_head t)"
  have t: "intf_tree_ok t" using Cons.prems by simp
  have 1: "leads slack (in_config dev cs d ifs j) [it_head t]
      (in_config dev cs d (ifs @ [built_interface ?h []]) (Some (length ifs)))"
    using t Cons.prems by (intro interface_leads assms(1)) (simp_all add: intf_tree_ok_def)
  have 2: "leads slack (in_config dev cs d (ifs @ [built_interface ?h []]) (Some (length ifs))) (it_body t)
      (in_config dev cs d (ifs @ [intf_of_tree t]) (Some (length ifs)))"
    unfolding intf_of_tree_def
    using t Cons.prems by (intro body_in_config assms(1)) (simp_all add: intf_tree_ok_def)
  have 3: "leads slack (in_config dev cs d (ifs @ [intf_of_tree t]) (Some (length ifs)))
      (concat (map intf_stream ts)) (in_config dev cs d ((ifs @ [intf_of_tree t]) @ map intf_of_tree ts)
        (if ts = [] then Some (length ifs) else Some (length (ifs @ [intf_of_tree t]) + length ts - 1)))"
    using Cons.prems by (intro Cons.IH) simp_all
  have "(if ts = [] then Some (length ifs) else Some (length (ifs @ [intf_of_tree t]) + length ts - 1))
      = (if t # ts = [] then j else Some (length ifs + length (t # ts) - 1))"
    by simp
  with leads_append [OF leads_append [OF 1 2] 3] show ?case
    by (simp only: intf_stream_def [of t] list.map concat.simps append_assoc append_Cons append_Nil)
qed

lemma config_leads:
  assumes "length cs < UUSB_MAX_CONFIGS" and "length cs \<le> unat (bNumConfigurations (dev_descriptor dev))"
    and "descriptor_ok x" and "x ! 1 = USB_DT_CONFIG" and "9 \<le> length x" and "ps_dev st = built_dev dev cs"
  shows "leads slack st [x] (in_config dev cs (config_of x) [] None)"
proof (rule leads_one)
  fix data
  let ?n = "length cs" and ?dt = "uusb_dt_parser_init (x @ data) (of_nat (length x))"
  let ?dev = "built_dev dev cs"
  have n: "unat (num_configs ?dev) = ?n"
    using assms(1) by (simp add: built_dev_def max_defs unat_of_nat take_bit_nat_eq_self)
  have guard: "\<not> num_configs ?dev > ucast (bNumConfigurations (dev_descriptor ?dev))"
    using assms(2) n by (simp add: word_less_nat_alt built_dev_def)
  have len: "?n < length (dev_config ?dev)" using assms(1) by (simp add: built_dev_def)
  let ?st1 = "st\<lparr>ps_dev := ?dev\<lparr>num_configs := num_configs ?dev + 1\<rparr>, ps_config := Some ?n\<rparr>"
  have g: "get_config ?st1 ?n = Inr config_zero"
    using len built_dev_config [OF assms(1), of dev] by (simp add: get_config_def arr_in)
  obtain p where "uusb_parse_config_descriptor (cf_descriptor config_zero, ?dt) = Inr (True, config_of x, p)"
    using parse_std(2) [OF assms(3,5)] by blast
  moreover have "config_zero\<lparr>cf_descriptor := config_of x\<rparr> = built_config (config_of x) []"
    by (simp add: config_zero_def built_config_def)
  moreover have "put_config ?st1 ?n (built_config (config_of x) [])
      = Inr ((in_config dev cs (config_of x) [] (ps_interface st)))"
    using len built_dev_config [OF assms(1), of dev "built_config (config_of x) []"]
    by (simp add: put_config_def arr_in in_config_def) (simp add: built_dev_def)
  ultimately have "parse_config st ?dt = Inr (True, in_config dev cs (config_of x) [] None)"
    using guard n g len by (simp add: parse_config_def assms(6) Let_def) (simp add: in_config_def)
  then show "parse_later st (x ! 1) (x @ data) (of_nat (length x)) ?dt
      = Inr (True, in_config dev cs (config_of x) [] None)"
    using assms(4) by (simp add: parse_later_def dt_type_defs)
qed

lemma others_lead:
  "ps_interface st = None \<Longrightarrow> \<forall>x \<in> set ds. descriptor_ok x \<and> x ! 1 \<notin> std_types \<Longrightarrow> leads slack st ds st"
proof (induction ds)
  case Nil
  show ?case by (rule leads_Nil)
next
  case (Cons d ds)
  have "leads slack st [d] st"
    using Cons.prems by (intro leads_one) (auto simp: parse_later_def std_types_def parse_other_def split: option.splits)
  from leads_append [OF this Cons.IH] Cons.prems show ?case by simp
qed

text \<open>The pointer \<^verbatim>\<open>interface\<close> behind a configuration: its last interface.\<close>

definition last_interface :: "config_tree \<Rightarrow> nat option" where
  "last_interface t = (if ct_intfs t = [] then None else Some (length (ct_intfs t) - 1))"

lemma config_tree_leads:
  assumes "length cs < UUSB_MAX_CONFIGS" and "length cs \<le> unat (bNumConfigurations (dev_descriptor dev))"
    and "config_tree_ok t" and "ps_dev st = built_dev dev cs"
  shows "leads slack st (config_stream t)
    (in_config dev cs (config_of (ct_head t)) (map intf_of_tree (ct_intfs t)) (last_interface t))"
proof -
  let ?d = "config_of (ct_head t)"
  have 1: "leads slack st [ct_head t] (in_config dev cs ?d [] None)"
    using assms by (intro config_leads) (simp_all add: config_tree_ok_def)
  have 2: "leads slack (in_config dev cs ?d [] None) (ct_other t) (in_config dev cs ?d [] None)"
    using assms(3) by (intro others_lead) (auto simp: in_config_def config_tree_ok_def)
  have 3: "leads slack (in_config dev cs ?d [] None) (concat (map intf_stream (ct_intfs t)))
      (in_config dev cs ?d (map intf_of_tree (ct_intfs t)) (last_interface t))"
  proof -
    have "length [] + length (ct_intfs t) \<le> UUSB_MAX_INTERFACES"
        "length [] + length (ct_intfs t) \<le> unat (bNumInterfaces ?d)" "\<forall>i \<in> set (ct_intfs t). intf_tree_ok i"
      using assms(3) by (simp_all add: config_tree_ok_def)
    from intfs_lead [OF assms(1) this, of slack dev None] show ?thesis
      unfolding last_interface_def list.size add_0 append_Nil .
  qed
  from leads_append [OF leads_append [OF 1 2] 3] show ?thesis
    by (simp add: config_stream_def)
qed

lemma configs_lead:
  assumes "length cs + length ts \<le> UUSB_MAX_CONFIGS"
    and "length cs + length ts \<le> unat (bNumConfigurations (dev_descriptor dev))"
    and "\<forall>t \<in> set ts. config_tree_ok t" and "ps_dev st = built_dev dev cs"
  shows "\<exists>st'. leads slack st (tree_stream ts) st' \<and> ps_dev st' = built_dev dev (cs @ map config_of_tree ts)"
  using assms
proof (induction ts arbitrary: cs st)
  case Nil
  then show ?case using leads_Nil by (auto simp: tree_stream_def)
next
  case (Cons t ts)
  let ?st = "in_config dev cs (config_of (ct_head t)) (map intf_of_tree (ct_intfs t)) (last_interface t)"
  have 1: "leads slack st (config_stream t) ?st"
    using Cons.prems by (intro config_tree_leads) simp_all
  have "ps_dev ?st = built_dev dev (cs @ [config_of_tree t])"
    by (simp add: in_config_def config_of_tree_def)
  then obtain st' where 2: "leads slack ?st (tree_stream ts) st'"
      "ps_dev st' = built_dev dev ((cs @ [config_of_tree t]) @ map config_of_tree ts)"
    using Cons.IH [of "cs @ [config_of_tree t]" ?st] Cons.prems by auto
  from leads_append [OF 1 2(1)] 2(2) show ?case
    by (auto simp: tree_stream_def)
qed

definition tree_ok :: "bytes \<Rightarrow> config_tree list \<Rightarrow> bool" where
  "tree_ok h ts \<longleftrightarrow> descriptor_ok h \<and> h ! 1 = USB_DT_DEVICE \<and> 18 \<le> length h
     \<and> h ! 17 \<noteq> 0 \<and> unat (h ! 17) \<le> UUSB_MAX_CONFIGS \<and> length ts \<le> unat (h ! 17)
     \<and> (\<forall>t \<in> set ts. config_tree_ok t)"

text \<open>A device as \<^verbatim>\<open>usb_open\<close> hands it to the parser.\<close>

definition fresh :: "uusb_dev \<Rightarrow> bool" where
  "fresh dev \<longleftrightarrow> num_configs dev = 0 \<and> dev_config dev = replicate UUSB_MAX_CONFIGS config_zero"

definition device_of_tree :: "uusb_dev \<Rightarrow> bytes \<Rightarrow> config_tree list \<Rightarrow> uusb_dev" where
  "device_of_tree dev h ts =
     built_dev (dev\<lparr>dev_descriptor := device_of h (dev_descriptor dev)\<rparr>) (map config_of_tree ts)"

lemma body_ok_stream: "body_ok d body \<Longrightarrow> list_all descriptor_ok body"
  by (simp add: body_ok_def list_all_iff)

lemma tree_ok_stream: "tree_ok h ts \<Longrightarrow> list_all descriptor_ok (h # tree_stream ts)"
  by (auto simp: tree_ok_def list_all_iff tree_stream_def config_stream_def intf_stream_def
      config_tree_ok_def intf_tree_ok_def body_ok_def)

lemma device_of_configs: "18 \<le> length h \<Longrightarrow> bNumConfigurations (device_of h d) = h ! 17"
proof -
  assume "18 \<le> length h"
  then have "take 1 (drop 15 (take 16 (drop 2 h))) = [h ! 17]"
    by (simp add: take_Suc_conv_app_nth drop_take numeral_eq_Suc)
  then show ?thesis by (simp add: device_of_def device_layout_def field_def)
qed

lemma fresh_built: "fresh dev \<Longrightarrow> dev\<lparr>dev_descriptor := d\<rparr> = built_dev (dev\<lparr>dev_descriptor := d\<rparr>) []"
  by (simp add: fresh_def built_dev_def)

text \<open>The run up to the device descriptor.\<close>

lemma parse_from_device:
  assumes "tree_ok h ts" and "fresh dev" and "list_all descriptor_ok ds"
    and "unat len = length (concat (h # ds))" and "unat len < 2 ^ 31" and "Suc (length ds) < budget"
  shows "\<exists>st. uusb_parse_descriptors budget dev (concat (h # ds) @ slack) len
      = rbind (stream_run slack st ds) (\<lambda>(ok, st'). Inr (ok, ps_dev st'))
    \<and> ps_dev st = built_dev (dev\<lparr>dev_descriptor := device_of h (dev_descriptor dev)\<rparr>) []"
proof -
  let ?data = "concat (h # ds) @ slack" and ?dev = "dev\<lparr>dev_descriptor := device_of h (dev_descriptor dev)\<rparr>"
  let ?st = "\<lparr>ps_dev = dev, ps_config = None, ps_interface = None\<rparr>"
  let ?st1 = "\<lparr>ps_dev = ?dev, ps_config = None, ps_interface = None\<rparr>"
  have h: "descriptor_ok h" "18 \<le> length h" "h ! 1 = USB_DT_DEVICE" "h ! 17 \<noteq> 0"
      "unat (h ! 17) \<le> UUSB_MAX_CONFIGS"
    using assms(1) by (simp_all add: tree_ok_def)
  obtain p where "uusb_parse_device_descriptor (dev_descriptor dev,
      uusb_dt_parser_init ?data (of_nat (length h))) = Inr (True, device_of h (dev_descriptor dev), p)"
    using parse_std(1) [OF h(1,2), of "dev_descriptor dev" "concat ds @ slack"]
    by (auto simp: device_of_def)
  then have "parse_first ?st (h ! 1) (uusb_dt_parser_init ?data (of_nat (length h))) = Inr (True, ?st1)"
    using h(3-5) device_of_configs [OF h(2), of "dev_descriptor dev"]
    by (simp add: parse_first_def Let_def)
  then show ?thesis
    unfolding uusb_parse_descriptors_def loop_stream_first [OF h(1) assms(3-6)]
    using fresh_built [OF assms(2)] by (intro exI [of _ ?st1]) simp
qed

lemma parse_tree_ok:
  assumes "tree_ok h ts" and "fresh dev"
    and "unat len = length (concat (h # tree_stream ts))" and "unat len < 2 ^ 31"
    and "Suc (length (tree_stream ts)) < budget"
  shows "uusb_parse_descriptors budget dev (concat (h # tree_stream ts) @ slack) len
    = Inr (True, device_of_tree dev h ts)"
proof -
  let ?dev = "dev\<lparr>dev_descriptor := device_of h (dev_descriptor dev)\<rparr>"
  have h: "18 \<le> length h" "unat (h ! 17) \<le> UUSB_MAX_CONFIGS" "length ts \<le> unat (h ! 17)" "\<forall>t \<in> set ts. config_tree_ok t"
    using assms(1) by (simp_all add: tree_ok_def)
  have "list_all descriptor_ok (tree_stream ts)" using tree_ok_stream [OF assms(1)] by simp
  from parse_from_device [OF assms(1,2) this assms(3-5), of slack] obtain st where
      run: "uusb_parse_descriptors budget dev (concat (h # tree_stream ts) @ slack) len
        = rbind (stream_run slack st (tree_stream ts)) (\<lambda>(ok, st'). Inr (ok, ps_dev st'))"
      and st: "ps_dev st = built_dev ?dev []"
    by auto
  obtain st' where "leads slack st (tree_stream ts) st'" "ps_dev st' = built_dev ?dev (map config_of_tree ts)"
    using configs_lead [of "[]" ts ?dev st slack] st h device_of_configs [OF h(1), of "dev_descriptor dev"]
    by auto
  then show ?thesis
    unfolding run by (simp add: leads_run device_of_tree_def)
qed

text \<open>C7: For every device whose descriptors form a tree (each configuration followed by its
  interfaces, each interface by its endpoints and class descriptors in any order, the numbers
  within what the headers announce and the arrays hold), uusb_parse_descriptors accepts the
  concatenated bytes and rebuilds exactly this tree: every configuration, interface and endpoint
  at its place with the fields its bytes hold, the type of each interface, the CCID descriptor
  of each CCID interface, and the rest of the arrays zero.\<close>

theorem parse_rebuilds_tree:
  assumes "tree_ok h ts" and "fresh dev"
    and "unat len = length (concat (h # tree_stream ts))" and "unat len < 2 ^ 31"
    and "Suc (length (tree_stream ts)) < budget"
  shows "uusb_parse_descriptors budget dev (concat (h # tree_stream ts) @ slack) len
    = Inr (True, device_of_tree dev h ts)"
  using assms by (rule parse_tree_ok)

text \<open>The YubiKey as a tree.\<close>

definition yk5_tree :: "config_tree list" where
  "yk5_tree = [\<lparr>ct_head = yk5_descriptors ! 0, ct_other = [], ct_intfs =
     [\<lparr>it_head = yk5_descriptors ! 1, it_body = take 2 (drop 2 yk5_descriptors)\<rparr>,
      \<lparr>it_head = yk5_descriptors ! 4, it_body = take 3 (drop 5 yk5_descriptors)\<rparr>,
      \<lparr>it_head = yk5_descriptors ! 8, it_body = drop 9 yk5_descriptors\<rparr>]\<rparr>]"

lemma yk5_tree_stream: "tree_stream yk5_tree = yk5_descriptors"
  by (simp add: yk5_tree_def yk5_descriptors_def tree_stream_def config_stream_def intf_stream_def)

lemma yk5_tree_ok: "tree_ok yk5_device yk5_tree"
  by code_simp

lemma dev_zero_fresh: "fresh dev_zero"
  by (simp add: fresh_def dev_zero_def)

theorem parse_rebuilds_tree_witness:
  "uusb_parse_descriptors 20 dev_zero (yk5_bytes @ [0xAA]) 168 = Inr (True, device_of_tree dev_zero yk5_device yk5_tree)
   \<and> map if_ccid (cf_interface (config_of_tree (yk5_tree ! 0))) = [None, None, Some yk5_ccid, None, None, None, None, None]"
proof
  have len: "length (concat (yk5_device # yk5_descriptors)) = 168" "length yk5_descriptors = 13"
    by (simp_all add: yk5_device_def yk5_descriptors_def length_ccid_bytes)
  show "uusb_parse_descriptors 20 dev_zero (yk5_bytes @ [0xAA]) 168 = Inr (True, device_of_tree dev_zero yk5_device yk5_tree)"
    using parse_rebuilds_tree [OF yk5_tree_ok dev_zero_fresh, of 168 20 "[0xAA]"] len
    by (simp add: yk5_tree_stream yk5_bytes_def)
  show "map if_ccid (cf_interface (config_of_tree (yk5_tree ! 0))) = [None, None, Some yk5_ccid, None, None, None, None, None]"
    by code_simp
qed

section \<open>One descriptor too many\<close>







text \<open>
  A descriptor with alternate settings is not accepted: bNumInterfaces does not count them, the
  program does. Nor is an endpoint companion (type 30) in a CCID interface: it is taken for a
  class descriptor.
\<close>

lemma alternate_settings_rejected:
  "case parse_stream [device_with 1, config_with 1, interface_with 0, interface_with 0, interface_with 0] of
     Inr (ok, _) \<Rightarrow> \<not> ok | Inl _ \<Rightarrow> False"
  by code_simp

lemma companion_rejected:
  "case parse_stream [device_with 1, config_with 1, [9, 4, 0, 0, 2, 11, 0, 0, 0], ccid_bytes yk5_ccid,
       some_endpoint, [6, 0x30, 15, 0, 0, 0]] of
     Inr (ok, _) \<Rightarrow> \<not> ok | Inl _ \<Rightarrow> False"
  by code_simp






end
