(* ===== verification/Usb.thy ===== *)
theory Usb
  imports Descriptor Bufparser Util
begin

text \<open>
  usb.c: finding the device in sysfs, attaching to its device node, choosing the CCID interface,
  and the bulk transfers that carry CCID packets.
\<close>

section \<open>Vendor and product\<close>

text \<open>The values \<^verbatim>\<open>strtoul\<close> returns are stored into 16-bit fields.\<close>

definition usb_parse_type :: "string \<Rightarrow> bool \<times> uusb_type" where
  "usb_parse_type string =
     (let type0 = \<lparr>idVendor = 0, idProduct = 0\<rparr>;
          (copy, s) = split_at CHR '':'' string;
          (v, end1) = strtoul copy 16;
          type1 = type0\<lparr>idVendor := ucast v\<rparr>
      in if end1 \<noteq> [] then (False, type1)
         else (case s of None \<Rightarrow> (True, type1)
               | Some s \<Rightarrow>
                   (let (p, end2) = strtoul s 16; type2 = type1\<lparr>idProduct := ucast p\<rparr>
                    in (end2 = [], type2))))"

section \<open>sysfs\<close>

definition PATH_MAX :: nat where "PATH_MAX = 4096"

definition SYSFS_USB_DEVICES :: string where "SYSFS_USB_DEVICES = ''/sys/bus/usb/devices''"

text \<open>\<^verbatim>\<open>snprintf(buf, PATH_MAX, "%s/%s", dir, name)\<close>\<close>

definition sysfs_path :: "string \<Rightarrow> string \<Rightarrow> string" where
  "sysfs_path dir name = take (PATH_MAX - 1) (dir @ ''/'' @ name)"

fun find_matching :: "(string \<Rightarrow> bool) \<Rightarrow> string list \<Rightarrow> string option" where
  "find_matching match_fn [] = None"
| "find_matching match_fn (d_name # ds) =
     (if take 1 d_name = ''.'' then find_matching match_fn ds
      else (let dir = sysfs_path SYSFS_USB_DEVICES d_name in
            if match_fn dir then Some dir else find_matching match_fn ds))"

definition usb_find_device :: "'w env \<Rightarrow> (string \<Rightarrow> bool) \<Rightarrow> 'w \<Rightarrow> string option" where
  "usb_find_device env match_fn w =
     (case sys_readdir env SYSFS_USB_DEVICES w of None \<Rightarrow> None
      | Some names \<Rightarrow> find_matching match_fn names)"

text \<open>
  \<^verbatim>\<open>sysfs_read_buffer\<close>: every \<^verbatim>\<open>read\<close> of the loop goes to the start of the buffer; the
  third argument of the result is what the block holds in the end.
\<close>

fun sysfs_read_loop :: "nat \<Rightarrow> 'w env \<Rightarrow> int \<Rightarrow> u64 \<Rightarrow> bytes \<Rightarrow> u32 \<Rightarrow> 'w \<Rightarrow> ((bytes \<times> u32) option \<times> 'w) res" where
  "sysfs_read_loop 0 env fd st_size result count w = Inl Out_Of_Fuel"
| "sysfs_read_loop (Suc n) env fd st_size result count w =
     (case sys_read env fd (unat (st_size - scast count)) w of
        (None, w) \<Rightarrow> Inr (None, w)
      | (Some bs, w) \<Rightarrow>
          if bs = [] then Inr (Some (result, count), w)
          else rbind (mem_write result 0 bs) (\<lambda>result.
            sysfs_read_loop n env fd st_size result (count + of_nat (length bs)) w))"

definition sysfs_read_buffer :: "'w env \<Rightarrow> string \<Rightarrow> string \<Rightarrow> 'w \<Rightarrow> ((bytes \<times> u64) option \<times> 'w) res" where
  "sysfs_read_buffer env dir name w =
     (case sys_open env (sysfs_path dir name) O_RDONLY w of (fd, w) \<Rightarrow>
        if fd < 0 then Inr (None, w)
        else (case sys_fstat env fd w of
            None \<Rightarrow> Inr (None, sys_close env fd w)
          | Some st_size \<Rightarrow>
              rbind (sysfs_read_loop (fuel env) env fd st_size
                       (malloc_block (junk env) (unat st_size)) 0 w) (\<lambda>(r, w).
                Inr (map_option (\<lambda>(result, count). (result, scast count)) r, sys_close env fd w))))"

definition sysfs_read_line :: "'w env \<Rightarrow> string \<Rightarrow> string \<Rightarrow> 'w \<Rightarrow> string option" where
  "sysfs_read_line env dir name w =
     (case sys_text env (sysfs_path dir name) w of None \<Rightarrow> None
      | Some text \<Rightarrow>
          if text = [] then None
          else Some (takeWhile (\<lambda>c. char_code c \<notin> {0, 10, 13}) (take 1023 text)))"

definition sysfs_read_integer_base :: "'w env \<Rightarrow> string \<Rightarrow> string \<Rightarrow> nat \<Rightarrow> 'w \<Rightarrow> u32" where
  "sysfs_read_integer_base env dir name base w =
     (case sysfs_read_line env dir name w of None \<Rightarrow> - 1
      | Some line \<Rightarrow>
          (let (result, end1) = strtoul line base
           in if end1 \<noteq> [] \<or> result \<ge> 0xFFFFFFFF then - 1 else ucast result))"

definition sysfs_read_decimal :: "'w env \<Rightarrow> string \<Rightarrow> string \<Rightarrow> 'w \<Rightarrow> u32" where
  "sysfs_read_decimal env dir name w = sysfs_read_integer_base env dir name 10 w"

definition sysfs_read_hexadecimal :: "'w env \<Rightarrow> string \<Rightarrow> string \<Rightarrow> 'w \<Rightarrow> u32" where
  "sysfs_read_hexadecimal env dir name w = sysfs_read_integer_base env dir name 16 w"

definition usb_match_type :: "'w env \<Rightarrow> 'w \<Rightarrow> uusb_type \<Rightarrow> string \<Rightarrow> bool" where
  "usb_match_type env w type dir =
     (if idVendor type \<noteq> 0 \<and> ucast (idVendor type) \<noteq> sysfs_read_hexadecimal env dir ''idVendor'' w
      then False
      else if idProduct type \<noteq> 0 \<and> ucast (idProduct type) \<noteq> sysfs_read_hexadecimal env dir ''idProduct'' w
      then False
      else True)"

definition uusb_process_descriptors :: "'w env \<Rightarrow> uusb_dev \<Rightarrow> 'w \<Rightarrow> (bool \<times> uusb_dev \<times> 'w) res" where
  "uusb_process_descriptors env dev w =
     rbind (sysfs_read_buffer env (sysfs_dir dev) ''descriptors'' w) (\<lambda>(r, w).
       (case r of None \<Rightarrow> Inr (False, dev, w)
        | Some (data, len) \<Rightarrow>
            rbind (uusb_parse_descriptors (fuel env) dev data len) (\<lambda>(rv, dev).
              Inr (rv, dev, w))))"

text \<open>glibc's \<^verbatim>\<open>makedev\<close>.\<close>

definition makedev :: "u32 \<Rightarrow> u32 \<Rightarrow> u64" where
  "makedev major minor =
     push_bit 8 (ucast (major AND 0xFFF)) OR push_bit 32 (ucast (major AND NOT 0xFFF))
     OR ucast (minor AND 0xFF) OR push_bit 12 (ucast (minor AND NOT 0xFF))"

text \<open>\<^verbatim>\<open>sysfs_get_dev_t\<close> ignores its parameter \<^verbatim>\<open>name\<close>. The first \<^verbatim>\<open>strtok\<close> skips leading
  colons, the second one takes the rest of the line if there is any.\<close>

definition sysfs_get_dev_t :: "'w env \<Rightarrow> string \<Rightarrow> string \<Rightarrow> 'w \<Rightarrow> u64 option" where
  "sysfs_get_dev_t env dir name w =
     (case sysfs_read_line env dir ''dev'' w of None \<Rightarrow> None
      | Some majmin \<Rightarrow>
          (let w1 = dropWhile (\<lambda>c. c = CHR '':'') majmin in
           if w1 = [] then None
           else (case split_at CHR '':'' w1 of
                   (w1, None) \<Rightarrow> None
                 | (w1, Some w2) \<Rightarrow>
                     if w2 = [] then None
                     else Some (makedev (ucast (fst (strtoul w1 0))) (ucast (fst (strtoul w2 0)))))))"

definition dev_node :: "uusb_devaddr \<Rightarrow> string" where
  "dev_node a = ''/dev/bus/usb/'' @ zero_pad 3 (nat_digits 10 (unat (bus a))) @ ''/''
     @ zero_pad 3 (nat_digits 10 (unat (dev_num a)))"

definition uusb_attach_device :: "'w env \<Rightarrow> uusb_dev \<Rightarrow> 'w \<Rightarrow> bool \<times> uusb_dev" where
  "uusb_attach_device env dev w =
     (let addr = \<lparr>bus = ucast (sysfs_read_decimal env (sysfs_dir dev) ''busnum'' w),
                  dev_num = ucast (sysfs_read_decimal env (sysfs_dir dev) ''devnum'' w)\<rparr>;
          dev = dev\<lparr>devaddr := addr\<rparr>
      in case sysfs_get_dev_t env (sysfs_dir dev) ''dev'' w of
           None \<Rightarrow> (False, dev)
         | Some linuxdev \<Rightarrow>
             (case sys_stat env (dev_node addr) w of
                None \<Rightarrow> (False, dev)
              | Some (is_chr, rdev) \<Rightarrow>
                  if \<not> is_chr \<or> rdev \<noteq> linuxdev then (False, dev)
                  else (True, dev\<lparr>dev_path := Some (dev_node addr)\<rparr>)))"

definition uusb_identify_device :: "'w env \<Rightarrow> uusb_dev \<Rightarrow> 'w \<Rightarrow> bool \<times> uusb_dev" where
  "uusb_identify_device env dev w =
     (True, dev\<lparr>dev_type :=
        \<lparr>idVendor = ucast (sysfs_read_hexadecimal env (sysfs_dir dev) ''idVendor'' w),
         idProduct = ucast (sysfs_read_hexadecimal env (sysfs_dir dev) ''idProduct'' w)\<rparr>\<rparr>)"

definition usb_open :: "'w env \<Rightarrow> string \<Rightarrow> 'w \<Rightarrow> (uusb_dev option \<times> 'w) res" where
  "usb_open env dir w =
     (let dev = dev_zero\<lparr>sysfs_dir := dir, dev_fd := - 1\<rparr> in
      case uusb_attach_device env dev w of (ok, dev) \<Rightarrow>
        if \<not> ok then Inr (None, w)
        else (case uusb_identify_device env dev w of (ok, dev) \<Rightarrow>
          if \<not> ok then Inr (None, w)
          else rbind (uusb_process_descriptors env dev w) (\<lambda>(ok, dev, w).
            if \<not> ok then Inr (None, w)
            else (case dev_path dev of None \<Rightarrow> Inl Null_Deref
              | Some path \<Rightarrow> (case sys_open env path O_RDWR w of (fd, w) \<Rightarrow>
                  if fd < 0 then Inr (None, w) else Inr (Some (dev\<lparr>dev_fd := fd\<rparr>), w))))))"

definition usb_open_type :: "'w env \<Rightarrow> uusb_type \<Rightarrow> 'w \<Rightarrow> (uusb_dev option \<times> 'w) res" where
  "usb_open_type env type w =
     (case usb_find_device env (usb_match_type env w type) w of
        None \<Rightarrow> Inr (None, w)
      | Some dir \<Rightarrow> usb_open env dir w)"

section \<open>Choosing the CCID interface\<close>

definition uusb_select_interface ::
    "'w env \<Rightarrow> uusb_dev \<Rightarrow> uusb_config \<Rightarrow> uusb_interface \<Rightarrow> 'w \<Rightarrow> bool \<times> 'w" where
  "uusb_select_interface env dev config intf w =
     (let config_num = ucast (bConfigurationValue (cf_descriptor config));
          interface_num = ucast (bInterfaceNumber (if_descriptor intf));
          (rc, w) = (if bNumConfigurations (dev_descriptor dev) > 1
                     then ioctl_setconfiguration env (dev_fd dev) config_num w else (0, w))
      in if rc < 0 then (False, w)
         else if interface_num \<noteq> 0 then
           (case ioctl_claiminterface env (dev_fd dev) interface_num w of (rc, w) \<Rightarrow> (\<not> rc < 0, w))
         else (True, w))"

text \<open>One endpoint of the loop in \<^verbatim>\<open>uusb_set_endpoints\<close>.\<close>

definition set_endpoint :: "endpoint_descriptor \<Rightarrow> uusb_dev \<Rightarrow> uusb_dev" where
  "set_endpoint d dev =
     (let ep_type = ed_bmAttributes d AND UUSB_ENDPOINT_TYPE_MASK;
          ep_dir = bEndpointAddress d AND UUSB_ENDPOINT_DIR_MASK;
          addr = int (unat (bEndpointAddress d))
      in if ep_type = UUSB_ENDPOINT_TYPE_BULK then
           (if ep_dir = UUSB_ENDPOINT_IN then dev\<lparr>ep_i := addr\<rparr> else dev\<lparr>ep_o := addr\<rparr>)
         else if ep_type = UUSB_ENDPOINT_TYPE_INTERRUPT then
           (if ep_dir = UUSB_ENDPOINT_IN then dev\<lparr>ep_intr := addr\<rparr> else dev)
         else dev)"

fun set_endpoints_loop :: "endpoint_descriptor list \<Rightarrow> nat \<Rightarrow> nat \<Rightarrow> uusb_dev \<Rightarrow> uusb_dev res" where
  "set_endpoints_loop eps i 0 dev = Inr dev"
| "set_endpoints_loop eps i (Suc n) dev =
     rbind (arr_get eps i) (\<lambda>d. set_endpoints_loop eps (Suc i) n (set_endpoint d dev))"

definition uusb_set_endpoints :: "uusb_dev \<Rightarrow> uusb_interface \<Rightarrow> (bool \<times> uusb_dev) res" where
  "uusb_set_endpoints dev intf =
     rbind (set_endpoints_loop (if_endpoint intf) 0 (unat (num_endpoints intf))
              (dev\<lparr>ep_o := - 1, ep_i := - 1, ep_intr := - 1\<rparr>)) (\<lambda>dev.
       Inr (ep_o dev \<ge> 0 \<and> ep_i dev \<ge> 0, dev))"

text \<open>The two nested loops; the first interface that passes the three tests is returned.\<close>

fun select_in_config ::
    "'w env \<Rightarrow> uusb_config \<Rightarrow> nat \<Rightarrow> nat \<Rightarrow> uusb_dev \<Rightarrow> 'w \<Rightarrow> (ccid_descriptor option \<times> uusb_dev \<times> 'w) res"
  where
  "select_in_config env config j 0 dev w = Inr (None, dev, w)"
| "select_in_config env config j (Suc n) dev w =
     rbind (arr_get (cf_interface config) j) (\<lambda>intf.
       (case if_ccid intf of None \<Rightarrow> select_in_config env config (Suc j) n dev w
        | Some ccid \<Rightarrow>
            rbind (uusb_set_endpoints dev intf) (\<lambda>(ok, dev).
              if \<not> ok then select_in_config env config (Suc j) n dev w
              else (case uusb_select_interface env dev config intf w of (ok, w) \<Rightarrow>
                if \<not> ok then select_in_config env config (Suc j) n dev w
                else Inr (Some ccid, dev, w)))))"

fun select_config ::
    "'w env \<Rightarrow> nat \<Rightarrow> nat \<Rightarrow> uusb_dev \<Rightarrow> 'w \<Rightarrow> (ccid_descriptor option \<times> uusb_dev \<times> 'w) res" where
  "select_config env i 0 dev w = Inr (None, dev, w)"
| "select_config env i (Suc n) dev w =
     rbind (arr_get (dev_config dev) i) (\<lambda>config.
       rbind (select_in_config env config 0 (unat (num_interfaces config)) dev w) (\<lambda>(r, dev, w).
         case r of None \<Rightarrow> select_config env (Suc i) n dev w | Some ccid \<Rightarrow> Inr (Some ccid, dev, w)))"

definition uusb_dev_select_ccid_interface ::
    "'w env \<Rightarrow> uusb_dev \<Rightarrow> 'w \<Rightarrow> (ccid_descriptor option \<times> uusb_dev \<times> 'w) res" where
  "uusb_dev_select_ccid_interface env dev w = select_config env 0 (unat (num_configs dev)) dev w"

section \<open>Bulk transfers\<close>

text \<open>
  The memory the transfer may touch is the first \<open>len\<close> bytes at the pointer; what the kernel
  leaves in \<open>bulk_data\<close> is stored back there. The function returns the field \<^verbatim>\<open>bulk.len\<close>,
  not the value of the \<^verbatim>\<open>ioctl\<close>.
\<close>

definition uusb_bulk ::
    "'w env \<Rightarrow> uusb_dev \<Rightarrow> u8 \<Rightarrow> bytes \<Rightarrow> u32 \<Rightarrow> u64 \<Rightarrow> 'w \<Rightarrow> (int \<times> bytes \<times> 'w) res" where
  "uusb_bulk env dev ep buf len timeout w =
     rbind (mem_read buf 0 (unat len)) (\<lambda>region.
       (case ioctl_bulk env (dev_fd dev) \<lparr>bulk_ep = ucast ep, bulk_len = len,
                bulk_timeout = ucast timeout, bulk_data = region\<rparr> w of (rc, bulk, w) \<Rightarrow>
          rbind (mem_write buf 0 (bulk_data bulk)) (\<lambda>buf.
            Inr (if rc < 0 then rc else sint (bulk_len bulk), buf, w))))"

definition uusb_send :: "'w env \<Rightarrow> uusb_dev \<Rightarrow> buffer \<Rightarrow> 'w \<Rightarrow> (bool \<times> 'w) res" where
  "uusb_send env dev pkt w =
     rbind (uusb_bulk env dev (word_of_int (ep_o dev)) (buffer_read_pointer pkt)
              (buffer_available pkt) 10000 w) (\<lambda>(len, _, w). Inr (len \<ge> 0, w))"

definition uusb_recv :: "'w env \<Rightarrow> uusb_dev \<Rightarrow> u64 \<Rightarrow> u64 \<Rightarrow> 'w \<Rightarrow> (buffer option \<times> 'w) res" where
  "uusb_recv env dev maxlen timeout w =
     (let pkt = buffer_alloc_write (junk env) maxlen in
      rbind (mem_write (bdata pkt) (unat (wpos pkt)) (replicate (unat (buffer_tailroom pkt)) 0xAA)) (\<lambda>d.
        let pkt = pkt\<lparr>bdata := d\<rparr> in
        rbind (uusb_bulk env dev (word_of_int (ep_i dev)) (buffer_write_pointer pkt)
                 (buffer_tailroom pkt) timeout w) (\<lambda>(len, buf, w).
          if len < 0 then Inr (None, w)
          else Inr (Some (pkt\<lparr>bdata := take (unat (wpos pkt)) (bdata pkt) @ buf,
                              wpos := wpos pkt + word_of_int len\<rparr>), w))))"

section \<open>Lemmas\<close>

subsection \<open>Transfers\<close>

text \<open>
  What the documentation of usbfs says of \<^verbatim>\<open>USBDEVFS_BULK\<close>: the structure is input only, so
  \<^verbatim>\<open>bulk.len\<close> stays what the caller put there; the transfer touches at most \<^verbatim>\<open>len\<close> bytes of
  the buffer. The number of bytes moved is the value of the \<^verbatim>\<open>ioctl\<close>.
\<close>

definition usbfs_bulk :: "'w env \<Rightarrow> bool" where
  "usbfs_bulk env \<longleftrightarrow> (\<forall>fd b w. case ioctl_bulk env fd b w of (rc, b', w') \<Rightarrow>
      bulk_len b' = bulk_len b \<and> length (bulk_data b') = length (bulk_data b))"

lemma usbfs_bulkD:
  assumes "usbfs_bulk env" and "ioctl_bulk env fd b w = (rc, b', w')"
  shows "bulk_len b' = bulk_len b" and "length (bulk_data b') = length (bulk_data b)"
  using assms(1) [unfolded usbfs_bulk_def, rule_format, of b fd w] assms(2) by simp_all

lemma uusb_bulk_ok:
  assumes "usbfs_bulk env" and "unat len \<le> length buf" and "unat len < 2147483648"
    and "ioctl_bulk env (dev_fd dev) \<lparr>bulk_ep = ucast ep, bulk_len = len,
           bulk_timeout = ucast timeout, bulk_data = take (unat len) buf\<rparr> w = (rc, b', w')"
  shows "uusb_bulk env dev ep buf len timeout w =
    Inr (if rc < 0 then rc else int (unat len), bulk_data b' @ drop (unat len) buf, w')"
proof -
  have "bulk_len b' = len" and "length (bulk_data b') = unat len"
    using usbfs_bulkD [OF assms(1,4)] assms(2) by simp_all
  with assms show ?thesis
    by (simp add: uusb_bulk_def mem_read_in mem_write_in sint_small)
qed

lemma uusb_send_ok:
  assumes "usbfs_bulk env" and "buf_ok pkt" and "length (contents pkt) < 2 ^ 31"
    and "ioctl_bulk env (dev_fd dev) \<lparr>bulk_ep = ucast (word_of_int (ep_o dev) :: u8),
           bulk_len = buffer_available pkt, bulk_timeout = 10000, bulk_data = contents pkt\<rparr> w
         = (rc, b', w')"
  shows "uusb_send env dev pkt w = Inr (0 \<le> rc, w')"
proof -
  have "uusb_bulk env dev (word_of_int (ep_o dev)) (buffer_read_pointer pkt)
          (buffer_available pkt) 10000 w
      = Inr (if rc < 0 then rc else int (length (contents pkt)),
             bulk_data b' @ drop (length (contents pkt)) (buffer_read_pointer pkt), w')"
    using uusb_bulk_ok [OF assms(1), of "buffer_available pkt" "buffer_read_pointer pkt" dev
        "word_of_int (ep_o dev)" 10000 w rc b' w'] assms
    by (simp add: unat_available read_pointer_length read_pointer_prefix)
  then show ?thesis by (simp add: uusb_send_def)
qed

lemma uusb_recv_eq:
  assumes "usbfs_bulk env" and "unat maxlen + 7 < 2 ^ 31"
    and "ioctl_bulk env (dev_fd dev) \<lparr>bulk_ep = ucast (word_of_int (ep_i dev) :: u8),
           bulk_len = of_nat (round8 (unat maxlen)), bulk_timeout = ucast timeout,
           bulk_data = replicate (round8 (unat maxlen)) 0xAA\<rparr> w = (rc, b', w')"
  shows "uusb_recv env dev maxlen timeout w =
    (if rc < 0 then Inr (None, w')
     else Inr (Some \<lparr>rpos = 0, wpos = of_nat (round8 (unat maxlen)),
       bsize = ucast (of_nat (round8 (unat maxlen)) :: u32), bdata = bulk_data b'\<rparr>, w'))"
proof -
  let ?n = "round8 (unat maxlen)"
  have n: "?n < 2147483648" and n32: "unat (of_nat ?n :: u32) = ?n"
    using assms(2) round8_le [of "unat maxlen"] by (simp_all add: of_nat_u32)
  have n64: "unat (ucast (of_nat ?n :: u32) :: u64) = ?n"
    using n32 by simp
  have alloc: "buffer_alloc_write (junk env) maxlen
      = \<lparr>rpos = 0, wpos = 0, bsize = ucast (of_nat ?n :: u32), bdata = malloc_block (junk env) ?n\<rparr>"
    using assms(2) by (simp add: buffer_alloc_write_eq buffer_init_write_def)
  have tail: "ucast (ucast (of_nat ?n :: u32) :: u64) = (of_nat ?n :: u32)"
    using n64 by (metis of_nat_unat)
  have "uusb_bulk env dev (word_of_int (ep_i dev)) (replicate ?n 0xAA) (of_nat ?n) timeout w
      = Inr (if rc < 0 then rc else int ?n, bulk_data b', w')"
    using uusb_bulk_ok [OF assms(1), of "of_nat ?n" "replicate ?n 0xAA" dev
        "word_of_int (ep_i dev)" timeout w rc b' w'] assms(3) n n32 by simp
  then show ?thesis
    by (simp add: uusb_recv_def Let_def alloc mem_write_in buffer_tailroom_def tail n32
        buffer_write_pointer_def)
qed

text \<open>The packet as \<^verbatim>\<open>uusb_recv\<close> hands it out: always as long as the whole buffer.\<close>

lemma uusb_recv_ok:
  assumes "usbfs_bulk env" and "unat maxlen + 7 < 2 ^ 31"
    and "ioctl_bulk env (dev_fd dev) \<lparr>bulk_ep = ucast (word_of_int (ep_i dev) :: u8),
           bulk_len = of_nat (round8 (unat maxlen)), bulk_timeout = ucast timeout,
           bulk_data = replicate (round8 (unat maxlen)) 0xAA\<rparr> w = (rc, b', w')"
    and "0 \<le> rc"
  shows "\<exists>pkt. uusb_recv env dev maxlen timeout w = Inr (Some pkt, w')
     \<and> buf_ok pkt \<and> contents pkt = bulk_data b' \<and> room pkt = 0 \<and> rpos pkt = 0"
proof -
  let ?n = "round8 (unat maxlen)"
  have n: "?n < 2147483648" and n32: "unat (of_nat ?n :: u32) = ?n"
    using assms(2) round8_le [of "unat maxlen"] by (simp_all add: of_nat_u32)
  then have "unat (of_nat ?n :: u64) = ?n" "unat (ucast (of_nat ?n :: u32) :: u64) = ?n"
    by (simp_all add: unat_of_nat_u64)
  moreover have "length (bulk_data b') = ?n"
    using usbfs_bulkD(2) [OF assms(1,3)] by simp
  ultimately show ?thesis
    using uusb_recv_eq [OF assms(1-3)] assms(4) n by (auto simp: contents_def room_def intro!: buf_okI)
qed

text \<open>
  A packet of two gigabytes or more is never received: its length is negative as an \<^verbatim>\<open>int\<close>. The last
  seven lengths of 32 bits are rounded up to 2 ^ 32, for which the buffer's capacity is zero.
\<close>

lemma uusb_recv_huge:
  assumes "usbfs_bulk env" and "2 ^ 31 \<le> unat maxlen + 7" and "unat maxlen < 2 ^ 32"
  shows "\<exists>x w'. uusb_recv env dev maxlen timeout w = Inr (x, w')
     \<and> (\<forall>pkt. x = Some pkt \<longrightarrow> 2 ^ 32 < unat maxlen + 8 \<and> buf_ok pkt \<and> contents pkt = [] \<and> room pkt = 0)"
proof -
  define n where "n = round8 (unat maxlen)"
  define tail :: u32 where "tail = ucast ((maxlen + 7) AND NOT 7)"
  have "unat (maxlen + 7) = unat maxlen + 7"
    using assms(3) by (subst unat_add_small) simp_all
  then have size: "unat ((maxlen + 7) AND NOT 7) = n"
    by (simp add: n_def and_minus_8 round8_def)
  then have alloc: "buffer_alloc_write (junk env) maxlen
      = \<lparr>rpos = 0, wpos = 0, bsize = ucast tail, bdata = malloc_block (junk env) n\<rparr>"
    by (simp only: buffer_alloc_write_def Let_def buffer_init_write_def tail_def)
  have top: "n = 2 ^ 32 \<and> 2 ^ 32 < unat maxlen + 8 \<or> 2 ^ 31 \<le> n \<and> n < 2 ^ 32"
    unfolding n_def by (rule round8_top [OF assms(2,3)])
  have tail: "unat tail = n mod 2 ^ 32"
    using size by (simp add: tail_def unsigned_ucast_eq take_bit_eq_mod)
  then have le: "unat tail \<le> n" by simp
  have tw: "ucast (ucast tail :: u64) = tail"
    by (simp add: word_unat_eq_iff unat_ucast_64_32)
  obtain rc b' w' where b: "ioctl_bulk env (dev_fd dev) \<lparr>bulk_ep = ucast (word_of_int (ep_i dev) :: u8),
      bulk_len = tail, bulk_timeout = ucast timeout, bulk_data = replicate (unat tail) 0xAA\<rparr> w = (rc, b', w')"
    using prod_cases3 by blast
  have len: "length (bulk_data b') = unat tail" "bulk_len b' = tail"
    using usbfs_bulkD [OF assms(1) b] by simp_all
  have run: "uusb_recv env dev maxlen timeout w = Inr (if rc < 0 \<or> sint tail < 0 then None
      else Some \<lparr>rpos = 0, wpos = word_of_int (sint tail), bsize = ucast tail,
                 bdata = bulk_data b' @ drop (unat tail) (malloc_block (junk env) n)\<rparr>, w')"
    using b len le
    by (simp add: uusb_recv_def alloc Let_def buffer_tailroom_def tw buffer_write_pointer_def mem_write_in
        mem_read_in uusb_bulk_def)
  have "sint tail < 0" if "n < 2 ^ 32" "2 ^ 31 \<le> n"
    using that tail by (intro sint_negative) simp
  moreover have "tail = 0" if "n = 2 ^ 32" using that tail by (simp add: word_unat_eq_iff)
  ultimately show ?thesis
    unfolding run using top by (auto simp: contents_def room_def intro!: buf_okI)
qed

subsection \<open>A concrete device\<close>

text \<open>
  An instance of the environment: one device, whose state is the packet waiting on its bulk-in
  endpoint and a state of type \<open>'t\<close>. It serves the theorems with hypotheses on the environment
  as an example; endpoints of 128 and above are the in direction.
\<close>

definition token_bulk ::
    "('t \<Rightarrow> bytes \<Rightarrow> bytes \<times> 't) \<Rightarrow> int \<Rightarrow> bulktransfer \<Rightarrow> bytes \<times> 't \<Rightarrow> int \<times> bulktransfer \<times> bytes \<times> 't" where
  "token_bulk tok fd b s =
     (if bulk_ep b \<ge> 0x80
      then (int (length (fst s)),
            b\<lparr>bulk_data := take (length (bulk_data b)) (fst s @ drop (length (fst s)) (bulk_data b))\<rparr>,
            [], snd s)
      else (int (length (bulk_data b)), b, tok (snd s) (bulk_data b)))"

definition token_world :: "('t \<Rightarrow> bytes \<Rightarrow> bytes \<times> 't) \<Rightarrow> (bytes \<times> 't) env" where
  "token_world tok = \<lparr>opt_debug = 0, junk = (\<lambda>_. 0), fuel = 100,
     sys_open = (\<lambda>_ _ w. (3, w)), sys_close = (\<lambda>_ w. w), sys_fstat = (\<lambda>_ _. None),
     sys_stat = (\<lambda>_ _. None), sys_read = (\<lambda>_ _ w. (None, w)), sys_write = (\<lambda>_ bs w. (int (length bs), w)),
     sys_readdir = (\<lambda>_ _. None), sys_text = (\<lambda>_ _. None), ioctl_bulk = token_bulk tok,
     ioctl_setconfiguration = (\<lambda>_ _ w. (0, w)), ioctl_claiminterface = (\<lambda>_ _ w. (0, w))\<rparr>"

lemma token_world_sel [simp]:
  "opt_debug (token_world tok) = 0" "junk (token_world tok) = (\<lambda>_. 0)"
  "ioctl_bulk (token_world tok) = token_bulk tok"
  "ioctl_setconfiguration (token_world tok) = (\<lambda>_ _ w. (0, w))"
  "ioctl_claiminterface (token_world tok) = (\<lambda>_ _ w. (0, w))"
  by (simp_all add: token_world_def)

lemma token_world_usbfs: "usbfs_bulk (token_world tok)"
  by (auto simp: usbfs_bulk_def token_bulk_def split: prod.splits)

section \<open>Properties\<close>

subsection \<open>Hexadecimal arguments\<close>

text \<open>\<open>strtoul\<close> on a list of hexadecimal digits.\<close>

definition digits_number :: "nat list \<Rightarrow> nat" where
  "digits_number ks = foldl (\<lambda>a k. 16 * a + k) 0 ks"

lemma hex_digit_facts:
  assumes "k < 16"
  shows "digit_value (hex_digit k) = Some k" and "\<not> isspace (hex_digit k)"
    and "hex_digit k \<noteq> CHR ''-''" and "hex_digit k \<noteq> CHR ''+''"
    and "hex_digit k \<noteq> CHR ''x''" and "hex_digit k \<noteq> CHR ''X''" and "hex_digit k \<noteq> CHR '':''"
proof -
  have c: "char_code (hex_digit k) = (if k < 10 then 48 + k else 87 + k)"
    using assms by (rule char_code_hex_digit)
  show "digit_value (hex_digit k) = Some k" "\<not> isspace (hex_digit k)"
    using assms by (auto simp: digit_value_def isspace_def Let_def c)
  have "char_code (CHR ''-'') = 45" "char_code (CHR ''+'') = 43" "char_code (CHR ''x'') = 120"
    "char_code (CHR ''X'') = 88" "char_code (CHR '':'') = 58"
    by (simp_all add: char_code_def)
  then show "hex_digit k \<noteq> CHR ''-''" "hex_digit k \<noteq> CHR ''+''" "hex_digit k \<noteq> CHR ''x''"
    "hex_digit k \<noteq> CHR ''X''" "hex_digit k \<noteq> CHR '':''"
    using c assms by (auto split: if_splits)
qed

lemma digits_value_hex:
  "\<forall>k \<in> set ks. k < 16 \<Longrightarrow> digits_value 16 a (map hex_digit ks) = foldl (\<lambda>a k. 16 * a + k) a ks"
  by (induction ks arbitrary: a) (simp_all add: hex_digit_facts)

lemma strtoul_hex:
  assumes "\<forall>k \<in> set ks. k < 16" and "ks \<noteq> []" and "digits_number ks < 2 ^ 64"
  shows "strtoul (map hex_digit ks) 16 = (of_nat (digits_number ks), [])"
proof -
  obtain k ks' where ks: "ks = k # ks'" "k < 16" using assms by (cases ks) auto
  let ?s = "map hex_digit ks"
  have s1: "dropWhile isspace ?s = ?s" and s2: "take 1 ?s \<notin> {''-'', ''+''}"
    using hex_digit_facts [OF ks(2)] by (simp_all add: ks)
  have "take 1 (drop 1 ?s) \<notin> {''x'', ''X''}"
    using assms(1) hex_digit_facts(5,6) by (cases ks') (auto simp: ks)
  then have b: "strtoul_base ?s 16 = (16, ?s)" by (auto simp: strtoul_base_def)
  have "is_digit 16 c" if "c \<in> set ?s" for c
    using that assms(1) by (auto simp: is_digit_def hex_digit_facts)
  then have tw: "takeWhile (is_digit 16) ?s = ?s" by simp
  have v: "digits_value 16 0 ?s = digits_number ks"
    using assms(1) by (simp add: digits_value_hex digits_number_def)
  show ?thesis
    using s2 assms(2,3) by (simp add: strtoul_def Let_def s1 b tw v)
qed

lemma split_at_hex:
  "\<forall>k \<in> set ks. k < 16 \<Longrightarrow> split_at CHR '':'' (map hex_digit ks @ CHR '':'' # s) = (map hex_digit ks, Some s)"
  by (induction ks) (simp_all add: hex_digit_facts)

definition hex4 :: "u16 \<Rightarrow> string" where
  "hex4 v = map hex_digit [unat v div 4096, unat v div 256 mod 16, unat v div 16 mod 16, unat v mod 16]"

lemma hex4_digits:
  defines "ks v \<equiv> [unat (v :: u16) div 4096, unat v div 256 mod 16, unat v div 16 mod 16, unat v mod 16]"
  shows "\<forall>k \<in> set (ks v). k < 16" and "digits_number (ks v) = unat v" and "ks v \<noteq> []"
proof -
  have "unat v < 65536" by (rule unat_u16_lt)
  then show "\<forall>k \<in> set (ks v). k < 16" by (auto simp: ks_def div_less_iff_less_mult simp del: unat_u16_lt)
  have "unat v = unat v div 4096 * 4096 + unat v div 256 mod 16 * 256 + unat v div 16 mod 16 * 16 + unat v mod 16"
  proof -
    have "unat v div 256 = unat v div 16 div 16" "unat v div 4096 = unat v div 256 div 16"
      by (simp_all flip: div_mult2_eq)
    then show ?thesis
      using div_mult_mod_eq [of "unat v" 16] div_mult_mod_eq [of "unat v div 16" 16]
        div_mult_mod_eq [of "unat v div 256" 16] by linarith
  qed
  then show "digits_number (ks v) = unat v" by (simp add: digits_number_def ks_def)
  show "ks v \<noteq> []" by (simp add: ks_def)
qed

lemma strtoul_hex4: "strtoul (hex4 v) 16 = (of_nat (unat v), [])"
  using strtoul_hex [OF hex4_digits(1) hex4_digits(3), of v] unat_u16_lt [of v]
  unfolding hex4_digits(2) hex4_def by (simp del: unat_u16_lt)

text \<open>C39: Printing vendor and product as four hexadecimal digits each and parsing the text gives them
  back; a missing product is zero.\<close>

theorem parse_type_hex:
  "usb_parse_type (hex4 v @ '':'' @ hex4 p) = (True, \<lparr>idVendor = v, idProduct = p\<rparr>)
   \<and> usb_parse_type (hex4 v) = (True, \<lparr>idVendor = v, idProduct = 0\<rparr>)"
proof -
  have "split_at CHR '':'' (hex4 v @ '':'' @ hex4 p) = (hex4 v, Some (hex4 p))"
    using split_at_hex [OF hex4_digits(1) [of v], of "hex4 p"] by (simp add: hex4_def)
  moreover have "split_at CHR '':'' (map hex_digit ks) = (map hex_digit ks, None)"
    if "\<forall>k \<in> set ks. k < 16" for ks
    using that by (induction ks) (simp_all add: hex_digit_facts)
  then have "split_at CHR '':'' (hex4 v) = (hex4 v, None)"
    using hex4_digits(1) [of v] unfolding hex4_def by blast
  moreover have "ucast (of_nat (unat x) :: u64) = x" for x :: u16
    by (rule bit_word_eqI) (auto simp: bit_unsigned_iff)
  ultimately show ?thesis
    by (simp add: usb_parse_type_def Let_def strtoul_hex4)
qed

theorem parse_type_truncates:
  "usb_parse_type ''11050:0407'' = usb_parse_type ''1050:0407''
   \<and> usb_parse_type '':'' = (True, \<lparr>idVendor = 0, idProduct = 0\<rparr>)"
  by (simp add: usb_parse_type_def strtoul_def strtoul_base_def isspace_def is_digit_def
      digit_value_def char_code_def Let_def)

subsection \<open>Endpoints and interfaces\<close>

definition bulk_in :: "endpoint_descriptor \<Rightarrow> bool" where
  "bulk_in d \<longleftrightarrow> ed_bmAttributes d AND UUSB_ENDPOINT_TYPE_MASK = UUSB_ENDPOINT_TYPE_BULK
     \<and> bEndpointAddress d AND UUSB_ENDPOINT_DIR_MASK = UUSB_ENDPOINT_IN"

definition bulk_out :: "endpoint_descriptor \<Rightarrow> bool" where
  "bulk_out d \<longleftrightarrow> ed_bmAttributes d AND UUSB_ENDPOINT_TYPE_MASK = UUSB_ENDPOINT_TYPE_BULK
     \<and> bEndpointAddress d AND UUSB_ENDPOINT_DIR_MASK \<noteq> UUSB_ENDPOINT_IN"

text \<open>The address of the last endpoint of a kind, if there is one.\<close>

definition last_address :: "(endpoint_descriptor \<Rightarrow> bool) \<Rightarrow> endpoint_descriptor list \<Rightarrow> int \<Rightarrow> int" where
  "last_address P eps a = foldl (\<lambda>a d. if P d then int (unat (bEndpointAddress d)) else a) a eps"

lemma last_address_Cons [simp]:
  "last_address P [] a = a"
  "last_address P (d # eps) a = last_address P eps (if P d then int (unat (bEndpointAddress d)) else a)"
  by (simp_all add: last_address_def)

lemma last_address_nonneg:
  "0 \<le> last_address P eps a \<longleftrightarrow> 0 \<le> a \<or> (\<exists>d \<in> set eps. P d)"
  by (induction eps arbitrary: a) auto

lemma set_endpoint_fields:
  "ep_i (set_endpoint d dev) = (if bulk_in d then int (unat (bEndpointAddress d)) else ep_i dev)"
  "ep_o (set_endpoint d dev) = (if bulk_out d then int (unat (bEndpointAddress d)) else ep_o dev)"
  "dev_config (set_endpoint d dev) = dev_config dev" "num_configs (set_endpoint d dev) = num_configs dev"
  by (auto simp: set_endpoint_def Let_def bulk_in_def bulk_out_def)

lemma set_endpoints_loop_ok:
  "i + n \<le> length eps \<Longrightarrow> \<exists>dev'. set_endpoints_loop eps i n dev = Inr dev'
     \<and> ep_i dev' = last_address bulk_in (take n (drop i eps)) (ep_i dev)
     \<and> ep_o dev' = last_address bulk_out (take n (drop i eps)) (ep_o dev)
     \<and> dev_config dev' = dev_config dev \<and> num_configs dev' = num_configs dev"
proof (induction n arbitrary: i dev)
  case 0
  then show ?case by simp
next
  case (Suc n)
  then have "drop i eps = eps ! i # drop (Suc i) eps"
    by (simp add: Cons_nth_drop_Suc)
  with Suc.IH [of "Suc i" "set_endpoint (eps ! i) dev"] Suc.prems show ?case
    by (auto simp: arr_in set_endpoint_fields)
qed

lemma set_endpoints_ok:
  assumes "unat (num_endpoints intf) \<le> length (if_endpoint intf)"
  defines "eps \<equiv> take (unat (num_endpoints intf)) (if_endpoint intf)"
  shows "\<exists>dev'. uusb_set_endpoints dev intf
      = Inr ((\<exists>d \<in> set eps. bulk_in d) \<and> (\<exists>d \<in> set eps. bulk_out d), dev')
    \<and> ep_i dev' = last_address bulk_in eps (- 1)
    \<and> ep_o dev' = last_address bulk_out eps (- 1)"
  using set_endpoints_loop_ok [of 0 "unat (num_endpoints intf)" "if_endpoint intf"
      "dev\<lparr>ep_o := - 1, ep_i := - 1, ep_intr := - 1\<rparr>"] assms(1)
  by (auto simp: uusb_set_endpoints_def eps_def last_address_nonneg)

theorem set_endpoints_bulk:
  assumes "unat (num_endpoints intf) \<le> length (if_endpoint intf)"
    and "eps = take (unat (num_endpoints intf)) (if_endpoint intf)"
  shows "\<exists>dev'. uusb_set_endpoints dev intf
      = Inr ((\<exists>d \<in> set eps. bulk_in d) \<and> (\<exists>d \<in> set eps. bulk_out d), dev')
    \<and> ep_i dev' = last_address bulk_in eps (- 1)
    \<and> ep_o dev' = last_address bulk_out eps (- 1)"
  using set_endpoints_ok [OF assms(1)] unfolding assms(2) .

theorem set_endpoints_bulk_witness:
  "\<exists>dev'. uusb_set_endpoints dev_zero (interface_zero\<lparr>num_endpoints := 2, if_endpoint :=
       [\<lparr>bEndpointAddress = 2, ed_bmAttributes = 2\<rparr>, \<lparr>bEndpointAddress = 0x82, ed_bmAttributes = 2\<rparr>]\<rparr>)
     = Inr (True, dev') \<and> ep_i dev' = 0x82 \<and> ep_o dev' = 2"
proof -
  let ?eps = "[\<lparr>bEndpointAddress = 2, ed_bmAttributes = 2\<rparr>, \<lparr>bEndpointAddress = 0x82, ed_bmAttributes = 2\<rparr>]"
  have "bulk_in (?eps ! 1) \<and> \<not> bulk_in (?eps ! 0)
      \<and> bulk_out (?eps ! 0) \<and> \<not> bulk_out (?eps ! 1)"
    by code_simp
  then show ?thesis
    using set_endpoints_bulk [of "interface_zero\<lparr>num_endpoints := 2, if_endpoint := ?eps\<rparr>" ?eps dev_zero]
    by simp
qed

text \<open>Whatever the environment does, the interface chosen is one of the device's, it has a CCID
  descriptor, and the endpoints the device object then holds are its bulk endpoints.\<close>

definition usable_interface :: "uusb_interface \<Rightarrow> uusb_dev \<Rightarrow> bool" where
  "usable_interface intf dev \<longleftrightarrow>
     (let eps = take (unat (num_endpoints intf)) (if_endpoint intf) in
      ep_i dev = last_address bulk_in eps (- 1) \<and> 0 \<le> ep_i dev
      \<and> ep_o dev = last_address bulk_out eps (- 1) \<and> 0 \<le> ep_o dev)"

lemma set_endpoints_loop_in:
  "set_endpoints_loop eps i n dev = Inr dev' \<Longrightarrow> i + n \<le> length eps \<or> n = 0"
proof (induction n arbitrary: i dev)
  case 0
  then show ?case by simp
next
  case (Suc n)
  then have "i < length eps" by (auto simp: arr_get_def rbind_eq_Inr split: if_splits)
  with Suc.IH [of "Suc i" "set_endpoint (eps ! i) dev"] Suc.prems show ?case
    by (auto simp: arr_in)
qed

lemma set_endpoints_usable:
  assumes "uusb_set_endpoints dev intf = Inr (ok, dev')"
  shows "dev_config dev' = dev_config dev \<and> num_configs dev' = num_configs dev
    \<and> (ok \<longrightarrow> usable_interface intf dev')"
proof -
  let ?n = "unat (num_endpoints intf)" and ?d = "dev\<lparr>ep_o := - 1, ep_i := - 1, ep_intr := - 1\<rparr>"
  have l: "set_endpoints_loop (if_endpoint intf) 0 ?n ?d = Inr dev'" and ok: "ok = (ep_o dev' \<ge> 0 \<and> ep_i dev' \<ge> 0)"
    using assms by (auto simp: uusb_set_endpoints_def rbind_eq_Inr)
  from set_endpoints_loop_in [OF l] have "0 + ?n \<le> length (if_endpoint intf)" by auto
  from set_endpoints_loop_ok [OF this, of ?d] l ok show ?thesis
    by (auto simp: usable_interface_def Let_def)
qed

lemma select_in_config_sound:
  "select_in_config env config j n dev w = Inr (r, dev', w') \<Longrightarrow>
     dev_config dev' = dev_config dev \<and> num_configs dev' = num_configs dev
     \<and> (\<forall>ccid. r = Some ccid \<longrightarrow> (\<exists>i. j \<le> i \<and> i < j + n \<and> i < length (cf_interface config)
          \<and> if_ccid (cf_interface config ! i) = Some ccid \<and> usable_interface (cf_interface config ! i) dev'))"
proof (induction n arbitrary: j dev w)
  case 0
  then show ?case by simp
next
  case (Suc n)
  obtain intf where j: "j < length (cf_interface config)" "intf = cf_interface config ! j"
    using Suc.prems by (auto simp: arr_get_def rbind_eq_Inr split: if_splits)
  have next_ok: ?case if "select_in_config env config (Suc j) n dev1 w1 = Inr (r, dev', w')"
      "dev_config dev1 = dev_config dev" "num_configs dev1 = num_configs dev" for dev1 w1
    using Suc.IH [OF that(1)] that(2,3) by (fastforce dest: Suc_leD)
  show ?case
  proof (cases "if_ccid intf")
    case None
    with Suc.prems j show ?thesis by (intro next_ok [of dev w]) (simp_all add: arr_in)
  next
    case (Some ccid)
    with Suc.prems j obtain ok dev1 where s: "uusb_set_endpoints dev intf = Inr (ok, dev1)"
      by (cases "uusb_set_endpoints dev intf") (auto simp: arr_in)
    obtain ok2 w2 where u: "uusb_select_interface env dev1 config intf w = (ok2, w2)"
      by (cases "uusb_select_interface env dev1 config intf w")
    note d = set_endpoints_usable [OF s]
    show ?thesis
    proof (cases "ok \<and> ok2")
      case True
      with Suc.prems j Some s u have r: "r = Some ccid" "dev' = dev1" by (simp_all add: arr_in)
      with True d j Some show ?thesis by auto
    next
      case False
      with Suc.prems j Some s u d next_ok show ?thesis by (auto simp: arr_in split: if_splits)
    qed
  qed
qed

lemma select_config_sound:
  "select_config env i n dev w = Inr (Some ccid, dev', w') \<Longrightarrow>
     \<exists>k j. i \<le> k \<and> k < i + n \<and> k < length (dev_config dev)
       \<and> j < unat (num_interfaces (dev_config dev ! k)) \<and> j < length (cf_interface (dev_config dev ! k))
       \<and> if_ccid (cf_interface (dev_config dev ! k) ! j) = Some ccid
       \<and> usable_interface (cf_interface (dev_config dev ! k) ! j) dev'"
proof (induction n arbitrary: i dev w)
  case 0
  then show ?case by simp
next
  case (Suc n)
  let ?cf = "dev_config dev ! i"
  have i: "i < length (dev_config dev)"
    using Suc.prems by (auto simp: arr_get_def rbind_eq_Inr split: if_splits)
  then obtain r dev1 w1 where s: "select_in_config env ?cf 0 (unat (num_interfaces ?cf)) dev w = Inr (r, dev1, w1)"
    using Suc.prems by (cases "select_in_config env ?cf 0 (unat (num_interfaces ?cf)) dev w") (auto simp: arr_in)
  note d = select_in_config_sound [OF s]
  show ?case
  proof (cases r)
    case None
    with Suc.prems i s have "select_config env (Suc i) n dev1 w1 = Inr (Some ccid, dev', w')"
      by (simp add: arr_in)
    from Suc.IH [OF this] d show ?thesis by (auto dest: Suc_leD)
  next
    case (Some c)
    with Suc.prems i s have "c = ccid" "dev' = dev1" by (simp_all add: arr_in)
    with d Some obtain j where "j < unat (num_interfaces ?cf)" "j < length (cf_interface ?cf)"
        "if_ccid (cf_interface ?cf ! j) = Some ccid" "usable_interface (cf_interface ?cf ! j) dev'"
      by auto
    with i show ?thesis by (intro exI [of _ i] exI [of _ j]) simp
  qed
qed

text \<open>C30: A CCID descriptor returned by uusb_dev_select_ccid_interface belongs to an interface of the
  device, inside the counted parts of the arrays, and the endpoints of the device are bulk
  endpoints of that interface.\<close>

theorem select_ccid_interface_sound:
  assumes "uusb_dev_select_ccid_interface env dev w = Inr (Some ccid, dev', w')"
  shows "\<exists>k j. k < unat (num_configs dev) \<and> j < unat (num_interfaces (dev_config dev ! k))
     \<and> if_ccid (cf_interface (dev_config dev ! k) ! j) = Some ccid
     \<and> usable_interface (cf_interface (dev_config dev ! k) ! j) dev'"
  using select_config_sound [OF assms [unfolded uusb_dev_select_ccid_interface_def]] by auto

definition demo_interface :: uusb_interface where
  "demo_interface = interface_zero\<lparr>if_ccid := Some ccid_zero, num_endpoints := 2, if_endpoint :=
     [\<lparr>bEndpointAddress = 2, ed_bmAttributes = 2\<rparr>, \<lparr>bEndpointAddress = 0x82, ed_bmAttributes = 2\<rparr>,
      endpoint_zero, endpoint_zero]\<rparr>"

definition demo_ccid_dev :: uusb_dev where
  "demo_ccid_dev = dev_zero\<lparr>num_configs := 1, dev_config :=
     [config_zero\<lparr>num_interfaces := 1, cf_interface := [demo_interface]\<rparr>]\<rparr>"

theorem select_ccid_interface_sound_witness:
  "\<exists>dev'. uusb_dev_select_ccid_interface (token_world (\<lambda>t p. (p, t))) demo_ccid_dev ([], 0 :: nat)
       = Inr (Some ccid_zero, dev', ([], 0))
     \<and> usable_interface demo_interface dev'"
proof -
  have "case uusb_dev_select_ccid_interface (token_world (\<lambda>t p. (p, t))) demo_ccid_dev ([], 0 :: nat) of
      Inl e \<Rightarrow> False | Inr (r, d, w) \<Rightarrow> r = Some ccid_zero \<and> w = ([], 0)"
    by code_simp
  then obtain d where d: "uusb_dev_select_ccid_interface (token_world (\<lambda>t p. (p, t))) demo_ccid_dev ([], 0 :: nat)
      = Inr (Some ccid_zero, d, ([], 0))"
    by (auto split: sum.splits)
  from select_ccid_interface_sound [OF this] have "usable_interface demo_interface d"
    by (auto simp: demo_ccid_dev_def)
  with d show ?thesis by blast
qed

subsection \<open>sysfs\<close>

text \<open>
  The descriptors come from a sysfs file. Where one \<^verbatim>\<open>read\<close> gets everything, the buffer has
  the file; where the kernel gives it in two pieces, the second piece lies over the first.
\<close>

lemma read_buffer_open:
  assumes "sys_open env (sysfs_path dir name) O_RDONLY w = (fd, w0)" and "0 \<le> fd"
    and "sys_fstat env fd w0 = Some st"
  shows "sysfs_read_buffer env dir name w =
    rbind (sysfs_read_loop (fuel env) env fd st (malloc_block (junk env) (unat st)) 0 w0) (\<lambda>(r, w).
      Inr (map_option (\<lambda>(result, count). (result, scast count)) r, sys_close env fd w))"
  using assms by (simp add: sysfs_read_buffer_def)

lemma read_loop_step:
  assumes "sys_read env fd (unat (st - scast count)) w = (Some bs, w1)" and "bs \<noteq> []"
    and "length bs \<le> length result"
  shows "sysfs_read_loop (Suc n) env fd st result count w
    = sysfs_read_loop n env fd st (bs @ drop (length bs) result) (count + of_nat (length bs)) w1"
  using assms by (simp add: mem_write_in)

lemma read_loop_end:
  assumes "sys_read env fd (unat (st - scast count)) w = (Some [], w1)"
  shows "sysfs_read_loop (Suc n) env fd st result count w = Inr (Some (result, count), w1)"
  using assms by simp

theorem sysfs_read_whole:
  assumes "sys_open env (sysfs_path dir name) O_RDONLY w = (fd, w0)" and "0 \<le> fd"
    and "sys_fstat env fd w0 = Some st" and "unat st < 2 ^ 31"
    and "sys_read env fd (unat st) w0 = (Some bs, w1)" and "bs \<noteq> []" and "length bs \<le> unat st"
    and "sys_read env fd (unat st - length bs) w1 = (Some [], w2)" and "2 \<le> fuel env"
  shows "\<exists>rest. sysfs_read_buffer env dir name w
    = Inr (Some (bs @ rest, of_nat (length bs)), sys_close env fd w2)"
proof -
  obtain n where n: "fuel env = Suc (Suc n)" using assms(9) by (metis add_2_eq_Suc le_Suc_ex)
  have c: "(scast (of_nat (length bs) :: u32) :: u64) = of_nat (length bs)"
    using assms(4,7) by (intro scast_of_nat) simp
  have l: "unat (of_nat (length bs) :: u64) = length bs"
    using assms(4,7) by (intro unat_of_nat_u64) simp
  then have "(of_nat (length bs) :: u64) \<le> st" using assms(7) by (simp add: word_le_nat_alt)
  then have d: "unat (st - of_nat (length bs)) = unat st - length bs" by (simp add: unat_diff l)
  show ?thesis
    unfolding read_buffer_open [OF assms(1-3)] n
    using read_loop_step [of env fd st 0 w0 bs w1 "malloc_block (junk env) (unat st)" "Suc n"]
      read_loop_end [of env fd st "of_nat (length bs)" w1 w2 n] assms(5-8)
    by (simp add: c d)
qed

text \<open>C38: If a file below two gigabytes can be opened and arrives in two reads (two nonempty pieces
  that are no longer than its size, then the end of the file), sysfs_read_buffer stores the
  second piece over the beginning of the first one and reports the sum of the lengths.\<close>

theorem sysfs_read_overwrites:
  assumes "sys_open env (sysfs_path dir name) O_RDONLY w = (fd, w0)" and "0 \<le> fd"
    and "sys_fstat env fd w0 = Some st" and "unat st < 2 ^ 31"
    and "sys_read env fd (unat st) w0 = (Some a, w1)" and "a \<noteq> []"
    and "sys_read env fd (unat st - length a) w1 = (Some b, w2)" and "b \<noteq> []"
    and "length a + length b \<le> unat st"
    and "sys_read env fd (unat st - (length a + length b)) w2 = (Some [], w3)" and "3 \<le> fuel env"
  shows "\<exists>rest. sysfs_read_buffer env dir name w
    = Inr (Some (b @ drop (length b) a @ rest, of_nat (length a + length b)), sys_close env fd w3)"
proof -
  obtain n where n: "fuel env = Suc (Suc (Suc n))" using assms(11) by (cases "fuel env" rule: nat.exhaust; cases "fuel env - 1"; cases "fuel env - 2") auto
  have c: "(scast (of_nat k :: u32) :: u64) = of_nat k" and d: "unat (st - of_nat k) = unat st - k"
    if "k \<le> unat st" for k
  proof -
    show "(scast (of_nat k :: u32) :: u64) = of_nat k"
      using assms(4) that by (intro scast_of_nat) simp
    have l: "unat (of_nat k :: u64) = k"
      using assms(4) that by (intro unat_of_nat_u64) simp
    then have "(of_nat k :: u64) \<le> st" using that by (simp add: word_le_nat_alt)
    then show "unat (st - of_nat k) = unat st - k" by (simp add: unat_diff l)
  qed
  have la: "length a \<le> unat st" using assms(9) by simp
  have sum: "(of_nat (length a) + of_nat (length b) :: u32) = of_nat (length a + length b)" by simp
  let ?m = "malloc_block (junk env) (unat st)"
  have 1: "sysfs_read_loop (fuel env) env fd st ?m 0 w0
      = sysfs_read_loop (Suc (Suc n)) env fd st (a @ drop (length a) ?m) (of_nat (length a)) w1"
    unfolding n using read_loop_step [of env fd st 0 w0 a w1 ?m "Suc (Suc n)"] assms(5,6) la by simp
  have 2: "\<dots> = sysfs_read_loop (Suc n) env fd st (b @ drop (length b) (a @ drop (length a) ?m))
      (of_nat (length a) + of_nat (length b)) w2"
    using assms(7-9) la by (intro read_loop_step) (simp_all add: c [OF la] d [OF la])
  have 3: "\<dots> = Inr (Some (b @ drop (length b) (a @ drop (length a) ?m), of_nat (length a + length b)), w3)"
    unfolding sum using assms(10)
    by (intro read_loop_end) (simp only: c [OF assms(9)] d [OF assms(9)])
  show ?thesis
    unfolding read_buffer_open [OF assms(1-3)] 1 2 3 using c [OF assms(9)] by simp
qed

text \<open>A file system whose state is the list of the pieces it still has to hand out.\<close>

definition piece_env :: "bytes list env" where
  "piece_env = \<lparr>opt_debug = 0, junk = (\<lambda>_. 0), fuel = 100,
     sys_open = (\<lambda>_ _ w. (3, w)), sys_close = (\<lambda>_ w. w), sys_fstat = (\<lambda>_ _. Some 16),
     sys_stat = (\<lambda>_ _. Some (True, makedev 189 3)),
     sys_read = (\<lambda>_ _ w. case w of [] \<Rightarrow> (Some [], []) | p # ps \<Rightarrow> (Some p, ps)),
     sys_write = (\<lambda>_ bs w. (int (length bs), w)), sys_readdir = (\<lambda>_ _. None),
     sys_text = (\<lambda>p _. Some (if p = ''d/dev'' then ''189:3'' else ''4'')),
     ioctl_bulk = (\<lambda>_ b w. (0, b, w)),
     ioctl_setconfiguration = (\<lambda>_ _ w. (0, w)), ioctl_claiminterface = (\<lambda>_ _ w. (0, w))\<rparr>"

theorem sysfs_read_whole_witness:
  "\<exists>rest. sysfs_read_buffer piece_env ''d'' ''descriptors'' [[1, 2, 3, 4]] = Inr (Some ([1, 2, 3, 4] @ rest, 4), [])"
  using sysfs_read_whole [of piece_env "''d''" "''descriptors''" "[[1, 2, 3, 4]]" 3 "[[1, 2, 3, 4]]" 16
      "[1, 2, 3, 4]" "[]" "[]"]
  by (simp add: piece_env_def)

theorem sysfs_read_overwrites_witness:
  "\<exists>rest. sysfs_read_buffer piece_env ''d'' ''descriptors'' [[1, 2, 3, 4], [5, 6]]
     = Inr (Some ([5, 6, 3, 4] @ rest, 6), [])"
  using sysfs_read_overwrites [of piece_env "''d''" "''descriptors''" "[[1, 2, 3, 4], [5, 6]]" 3
      "[[1, 2, 3, 4], [5, 6]]" 16 "[1, 2, 3, 4]" "[[5, 6]]" "[5, 6]" "[]" "[]"]
  by (simp add: piece_env_def)

text \<open>C31: __uusb_attach_device accepts only a device node that is a character device with the device
  number sysfs reports, under the path made of the bus and device numbers of sysfs.\<close>

theorem attach_checks_node:
  assumes "uusb_attach_device env dev w = (True, dev')"
  shows "\<exists>linuxdev. sysfs_read_line env (sysfs_dir dev) ''dev'' w \<noteq> None
    \<and> sysfs_get_dev_t env (sysfs_dir dev) ''dev'' w = Some linuxdev
    \<and> sys_stat env (dev_node (devaddr dev')) w = Some (True, linuxdev)
    \<and> dev_path dev' = Some (dev_node (devaddr dev'))
    \<and> bus (devaddr dev') = ucast (sysfs_read_decimal env (sysfs_dir dev) ''busnum'' w)
    \<and> dev_num (devaddr dev') = ucast (sysfs_read_decimal env (sysfs_dir dev) ''devnum'' w)"
  using assms
  by (auto simp: uusb_attach_device_def Let_def sysfs_get_dev_t_def split: option.splits if_splits)

theorem attach_checks_node_witness:
  "\<exists>dev'. uusb_attach_device piece_env (dev_zero\<lparr>sysfs_dir := ''d''\<rparr>) [] = (True, dev')
     \<and> dev_path dev' = Some ''/dev/bus/usb/004/004''"
proof -
  have z: "zero_pad 3 (nat_digits 10 4) = ''004''" by code_simp
  have r: "case uusb_attach_device piece_env (dev_zero\<lparr>sysfs_dir := ''d''\<rparr>) [] of (ok, d) \<Rightarrow>
      ok \<and> dev_node (devaddr d) = ''/dev/bus/usb/004/004''"
    by (simp add: uusb_attach_device_def piece_env_def sysfs_get_dev_t_def sysfs_read_line_def sysfs_path_def
        PATH_MAX_def sysfs_read_decimal_def sysfs_read_integer_base_def strtoul_def strtoul_base_def
        isspace_def is_digit_def digit_value_def char_code_def dev_zero_def makedev_def dev_node_def
        z Let_def)
  then obtain d where d: "uusb_attach_device piece_env (dev_zero\<lparr>sysfs_dir := ''d''\<rparr>) [] = (True, d)"
      "dev_node (devaddr d) = ''/dev/bus/usb/004/004''"
    by (auto split: prod.splits)
  from attach_checks_node [OF d(1)] d show ?thesis by auto
qed

subsection \<open>Transfers\<close>

text \<open>C37: For lengths of less than two gigabytes after rounding, and bulk transfers as usbfs
  documents them, uusb_recv stays inside its buffer; where the transfer succeeds, the packet it
  returns has the full size of the buffer, the length rounded up to eight, whatever number of
  bytes the ioctl reports, and consists of the buffer as the ioctl has left it. Where the ioctl
  fails, there is no packet.\<close>

theorem uusb_recv_full:
  assumes "usbfs_bulk env" and "unat maxlen + 7 < 2 ^ 31"
    and "ioctl_bulk env (dev_fd dev) \<lparr>bulk_ep = ucast (word_of_int (ep_i dev) :: u8),
           bulk_len = of_nat (round8 (unat maxlen)), bulk_timeout = ucast timeout,
           bulk_data = replicate (round8 (unat maxlen)) 0xAA\<rparr> w = (rc, b', w')"
  shows "if rc < 0 then uusb_recv env dev maxlen timeout w = Inr (None, w')
    else \<exists>pkt. uusb_recv env dev maxlen timeout w = Inr (Some pkt, w')
       \<and> buf_ok pkt \<and> contents pkt = bulk_data b' \<and> length (contents pkt) = round8 (unat maxlen)"
proof (cases "rc < 0")
  case False
  then have "0 \<le> rc" by simp
  from uusb_recv_ok [OF assms this] usbfs_bulkD(2) [OF assms(1,3)] False show ?thesis by auto
next
  case True
  then show ?thesis by (simp add: uusb_recv_eq [OF assms])
qed

theorem uusb_recv_full_witness:
  "\<exists>pkt. uusb_recv (token_world (\<lambda>t p. (p, t))) (dev_zero\<lparr>ep_i := 0x82\<rparr>) 16 10000 ([1, 2, 3], 0 :: nat)
     = Inr (Some pkt, ([], 0)) \<and> contents pkt = [1, 2, 3] @ replicate 13 0xAA"
proof -
  have "round8 16 = 16" by (simp add: round8_def)
  moreover have "ioctl_bulk (token_world (\<lambda>t p. (p, t))) (dev_fd (dev_zero\<lparr>ep_i := 0x82\<rparr>))
      \<lparr>bulk_ep = ucast (word_of_int (ep_i (dev_zero\<lparr>ep_i := 0x82\<rparr>)) :: u8), bulk_len = of_nat 16,
       bulk_timeout = ucast (10000 :: u64), bulk_data = replicate 16 0xAA\<rparr> ([1, 2, 3], 0 :: nat)
    = (3, \<lparr>bulk_ep = 0x82, bulk_len = 16, bulk_timeout = 10000,
           bulk_data = [1, 2, 3] @ replicate 13 0xAA\<rparr>, [], 0)"
    by (simp add: token_bulk_def)
  ultimately show ?thesis
    using uusb_recv_full [OF token_world_usbfs, where maxlen = 16 and dev = "dev_zero\<lparr>ep_i := 0x82\<rparr>"
        and timeout = 10000 and w = "([1, 2, 3], 0 :: nat)"]
    by fastforce
qed

end
