(* ===== verification/Reader.thy ===== *)
theory Reader
  imports Usb
begin

text \<open>
  reader.c: the CCID reader. A command packet is built, sent, and answered by a response packet
  with the same slot and sequence number; \<open>ccid_xfer\<close> is the exchange every operation rests on.
  The part of the file inside \<^verbatim>\<open>#ifdef NOT_NEEDED\<close> is not compiled and not modelled;
  \<^verbatim>\<open>ccid_reader_identify_card\<close> is in the theory Scard, since it makes a card. The ATR buffer of
  scard.h comes first, because powering on a card fills it.
\<close>

section \<open>ATR buffers (scard.h, scard.c)\<close>

definition IFD_MAX_ATR_LEN :: nat where "IFD_MAX_ATR_LEN = 64"

record ifd_atrbuf =
  atr_len :: u32
  atr_data :: bytes

definition ifd_atrbuf_set :: "ifd_atrbuf \<Rightarrow> bytes \<Rightarrow> u64 \<Rightarrow> ifd_atrbuf res" where
  "ifd_atrbuf_set atr data len0 =
     (let len = (if unat len0 > IFD_MAX_ATR_LEN then of_nat IFD_MAX_ATR_LEN else len0) in
      rbind (mem_read data 0 (unat len)) (\<lambda>bs.
        rbind (mem_write (atr_data atr) 0 bs) (\<lambda>d.
          Inr (atr\<lparr>atr_data := d, atr_len := ucast len\<rparr>))))"

section \<open>The reader\<close>

definition CCID_CMD_ICCPOWERON :: u8 where "CCID_CMD_ICCPOWERON = 0x62"
definition CCID_CMD_GETSLOTSTAT :: u8 where "CCID_CMD_GETSLOTSTAT = 0x65"
definition CCID_CMD_XFRBLOCK :: u8 where "CCID_CMD_XFRBLOCK = 0x6F"
definition CCID_RESP_DATA :: u8 where "CCID_RESP_DATA = 0x80"
definition CCID_RESP_SLOTSTAT :: u8 where "CCID_RESP_SLOTSTAT = 0x81"

text \<open>\<open>current_slot\<close> is an \<^verbatim>\<open>int\<close>; its only uses compare it with an \<^verbatim>\<open>unsigned int\<close>, so
  it is kept as its 32 bits.\<close>

record ccid_reader =
  rd_dev :: uusb_dev
  rd_ccid :: ccid_descriptor
  max_message_size :: u32
  supported_protocols :: u32
  auto_voltage :: bool
  supported_voltages :: u32
  current_slot :: u32
  ccid_seq :: u32

text \<open>
  The \<^verbatim>\<open>debug\<close> call that lists the features has six conversions and five arguments, which is
  undefined behaviour as soon as debugging is on.
\<close>

definition ccid_reader_set_features ::
    "'w env \<Rightarrow> ccid_reader \<Rightarrow> ccid_descriptor \<Rightarrow> (bool \<times> ccid_reader) res" where
  "ccid_reader_set_features env reader ccid =
     (let f = dwFeatures ccid in
      if f AND 0x60000 = 0 then Inr (False, reader)
      else
        (let auto_atr = (f AND 0x2 \<noteq> 0);
             reader = (if f AND 0x4 \<noteq> 0 then reader\<lparr>auto_voltage := True\<rparr> else reader);
             reader = (if f AND 0x8 \<noteq> 0 then reader\<lparr>auto_voltage := True\<rparr> else reader);
             no_pts = (f AND 0x40 \<noteq> 0);
             no_setparam = (f AND 0x40 \<noteq> 0);
             no_pts = (if f AND 0x80 \<noteq> 0 then True else no_pts)
         in if opt_debug env \<noteq> 0 then Inl Bad_Format
            else if \<not> auto_atr \<or> \<not> no_pts \<or> \<not> no_setparam then Inr (False, reader)
            else Inr (True, reader)))"

definition ccid_reader_create :: "'w env \<Rightarrow> uusb_dev \<Rightarrow> 'w \<Rightarrow> (ccid_reader option \<times> 'w) res" where
  "ccid_reader_create env dev w =
     rbind (uusb_dev_select_ccid_interface env dev w) (\<lambda>(r, dev, w).
       case r of None \<Rightarrow> Inr (None, w)
       | Some ccid \<Rightarrow>
           if dwProtocols ccid AND (CCID_PROTO_T0_MASK OR CCID_PROTO_T1_MASK) = 0 then Inr (None, w)
           else
             (let reader = \<lparr>rd_dev = dev, rd_ccid = ccid, max_message_size = 0,
                    supported_protocols = 0, auto_voltage = False, supported_voltages = 0,
                    current_slot = - 1, ccid_seq = 0\<rparr>
              in rbind (ccid_reader_set_features env reader ccid) (\<lambda>(ok, reader).
                   if \<not> ok then Inr (None, w)
                   else Inr (Some (reader\<lparr>max_message_size := dwMaxCCIDMessageLength ccid,
                                   supported_protocols := dwProtocols ccid,
                                   supported_voltages := ucast (bVoltageSupport ccid AND 0x7)\<rparr>), w))))"

section \<open>Commands and responses\<close>

record ccid_command =
  cmd_slot :: u8
  cmd_seq :: u8
  cmd_pkt :: buffer

record ccid_response =
  resp_type :: u8
  resp_slot :: u8
  resp_seq :: u8
  resp_ctl :: bytes
  resp_payload :: buffer

definition ccid_command_create :: "u8 \<Rightarrow> u8 \<Rightarrow> buffer \<Rightarrow> ccid_command" where
  "ccid_command_create seqno slot pkt = \<lparr>cmd_slot = slot, cmd_seq = seqno, cmd_pkt = pkt\<rparr>"

text \<open>A read whose failure makes the caller return \<^verbatim>\<open>NULL\<close>.\<close>

definition got :: "('a option \<times> buffer) res \<Rightarrow> ('a \<Rightarrow> buffer \<Rightarrow> 'b option res) \<Rightarrow> 'b option res" where
  "got m k = rbind m (\<lambda>(r, b). case r of None \<Rightarrow> Inr None | Some x \<Rightarrow> k x b)"

definition ccid_response_create :: "buffer \<Rightarrow> ccid_response option res" where
  "ccid_response_create pkt =
     (if buffer_available pkt < 10 then Inr None
      else
        got (buffer_get_u8 pkt) (\<lambda>type pkt.
        got (buffer_get_u32le pkt) (\<lambda>payload_len pkt.
        got (buffer_get_u8 pkt) (\<lambda>slot pkt.
        got (buffer_get_u8 pkt) (\<lambda>seq pkt.
        got (buffer_get pkt 3) (\<lambda>ctl pkt.
          (case buffer_truncate pkt (ucast payload_len) of (ok, pkt) \<Rightarrow>
             if \<not> ok then Inr None
             else Inr (Some \<lparr>resp_type = type, resp_slot = slot, resp_seq = seq, resp_ctl = ctl,
                             resp_payload = pkt\<rparr>))))))))"

text \<open>A null pointer for \<open>ctl_data\<close> stands for three zero bytes.\<close>

definition ccid_build_command ::
    "(nat \<Rightarrow> u8) \<Rightarrow> ccid_reader \<Rightarrow> u8 \<Rightarrow> u8 \<Rightarrow> bytes option \<Rightarrow> bytes option \<Rightarrow> u32 \<Rightarrow> ccid_command option res"
  where
  "ccid_build_command jk reader slot cmd ctl_data payload payload_len =
     (let seq = ucast (ccid_seq reader);
          ctl = (case ctl_data of None \<Rightarrow> [0, 0, 0] | Some c \<Rightarrow> c);
          bp = buffer_alloc_write jk (ucast (16 + payload_len))
      in rbind (and_all [\<lambda>bp. buffer_put_u8 bp cmd, \<lambda>bp. buffer_put_u32le bp payload_len,
                         \<lambda>bp. buffer_put_u8 bp slot, \<lambda>bp. buffer_put_u8 bp seq,
                         \<lambda>bp. buffer_put bp ctl 3] bp) (\<lambda>(ok, bp).
           if \<not> ok then Inr None
           else if payload_len = 0 then Inr (Some (ccid_command_create seq slot bp))
           else (case payload of None \<Rightarrow> Inl Null_Deref
             | Some src \<Rightarrow> rbind (buffer_put bp src payload_len) (\<lambda>(ok, bp).
                 Inr (if ok then Some (ccid_command_create seq slot bp) else None)))))"

definition ccid_build_simple_packet ::
    "(nat \<Rightarrow> u8) \<Rightarrow> ccid_reader \<Rightarrow> u32 \<Rightarrow> u8 \<Rightarrow> ccid_command option res" where
  "ccid_build_simple_packet jk reader slot cmd = ccid_build_command jk reader (ucast slot) cmd None None 0"

text \<open>The dump covers the announced payload even where the packet is shorter.\<close>

definition ccid_dump_response :: "buffer \<Rightarrow> unit res" where
  "ccid_dump_response pkt =
     (if buffer_available pkt < 10 then Inr ()
      else
        (let hdr = buffer_read_pointer pkt in
         rbind (mem_read hdr 1 4) (\<lambda>bs.
           let payload_len = le_word bs :: u32 in
           rbind (hexdump hdr (ucast (10 + payload_len)) 4) (\<lambda>_. Inr ()))))"

section \<open>The exchange\<close>

text \<open>
  The loop of \<^verbatim>\<open>ccid_xfer\<close>, the argument is what is left in \<^verbatim>\<open>retries\<close>. Where no response
  could be made of a packet, the code falls through to \<^verbatim>\<open>ccid_response_free(resp)\<close> with
  \<^verbatim>\<open>resp == NULL\<close>, which dereferences it.
\<close>

fun xfer_loop ::
    "nat \<Rightarrow> 'w env \<Rightarrow> ccid_reader \<Rightarrow> ccid_command \<Rightarrow> u8 \<Rightarrow> 'w \<Rightarrow> (ccid_response option \<times> 'w) res" where
  "xfer_loop 0 env reader cmd expected w = Inr (None, w)"
| "xfer_loop (Suc retries) env reader cmd expected w =
     rbind (uusb_recv env (rd_dev reader) (ucast (max_message_size reader)) 10000 w) (\<lambda>(r, w).
       case r of None \<Rightarrow> Inr (None, w)
       | Some rbuf \<Rightarrow>
           rbind (if opt_debug env > 1 then ccid_dump_response rbuf else Inr ()) (\<lambda>_.
           rbind (ccid_response_create rbuf) (\<lambda>r.
             case r of None \<Rightarrow> Inl Null_Deref
             | Some resp \<Rightarrow>
                 if resp_slot resp = cmd_slot cmd \<and> resp_seq resp = cmd_seq cmd then
                   rbind (mem_get (resp_ctl resp) 0) (\<lambda>ctl.
                     if resp_type resp \<noteq> expected then Inr (None, w)
                     else if ctl AND 0xC0 = 0 then Inr (Some resp, w)
                     else if ctl AND 0xC0 = 0x80 then xfer_loop retries env reader cmd expected w
                     else Inr (None, w))
                 else xfer_loop retries env reader cmd expected w)))"

definition ccid_xfer ::
    "'w env \<Rightarrow> ccid_reader \<Rightarrow> ccid_command \<Rightarrow> u8 \<Rightarrow> 'w \<Rightarrow> (ccid_response option \<times> ccid_reader \<times> 'w) res"
  where
  "ccid_xfer env reader cmd expected w =
     rbind (if opt_debug env > 1
            then rbind (hexdump (buffer_read_pointer (cmd_pkt cmd))
                          (ucast (buffer_available (cmd_pkt cmd))) 4) (\<lambda>_. Inr ())
            else Inr ()) (\<lambda>_.
     rbind (uusb_send env (rd_dev reader) (cmd_pkt cmd) w) (\<lambda>(rv, w).
       if \<not> rv then Inr (None, reader, w)
       else
         (let reader = reader\<lparr>ccid_seq := ucast (cmd_seq cmd) + 1\<rparr> in
          rbind (xfer_loop 6 env reader cmd expected w) (\<lambda>(resp, w). Inr (resp, reader, w)))))"

section \<open>Operations\<close>

definition ccid_get_slot_status ::
    "'w env \<Rightarrow> ccid_reader \<Rightarrow> u32 \<Rightarrow> 'w \<Rightarrow> (int option \<times> ccid_reader \<times> 'w) res" where
  "ccid_get_slot_status env reader slot w =
     rbind (ccid_build_simple_packet (junk env) reader slot CCID_CMD_GETSLOTSTAT) (\<lambda>cmd.
       case cmd of None \<Rightarrow> Inr (None, reader, w)
       | Some cmd \<Rightarrow> rbind (ccid_xfer env reader cmd CCID_RESP_SLOTSTAT w) (\<lambda>(r, reader, w).
           case r of None \<Rightarrow> Inr (None, reader, w)
           | Some resp \<Rightarrow> rbind (mem_get (resp_ctl resp) 0) (\<lambda>ctl.
               Inr (Some (if ctl AND 0x3 = 2 then 0 else 1), reader, w))))"

definition ccid_card_poweron ::
    "'w env \<Rightarrow> ccid_reader \<Rightarrow> u32 \<Rightarrow> u8 \<Rightarrow> ifd_atrbuf \<Rightarrow> 'w \<Rightarrow> (bool \<times> ifd_atrbuf \<times> ccid_reader \<times> 'w) res"
  where
  "ccid_card_poweron env reader slot voltage atr w =
     rbind (ccid_build_command (junk env) reader (ucast slot) CCID_CMD_ICCPOWERON
              (Some [voltage, 0, 0]) None 0) (\<lambda>cmd.
       case cmd of None \<Rightarrow> Inr (False, atr, reader, w)
       | Some cmd \<Rightarrow> rbind (ccid_xfer env reader cmd CCID_RESP_DATA w) (\<lambda>(r, reader, w).
           case r of None \<Rightarrow> Inr (False, atr, reader, w)
           | Some resp \<Rightarrow>
               (let atrbuf = resp_payload resp in
                rbind (ifd_atrbuf_set atr (buffer_read_pointer atrbuf)
                         (ucast (buffer_available atrbuf))) (\<lambda>atr.
                  Inr (True, atr, reader, w)))))"

text \<open>The voltage classes are tried in the order 5V, 3V, 1.8V, where the reader has them.\<close>

fun reset_voltages ::
    "nat list \<Rightarrow> 'w env \<Rightarrow> ccid_reader \<Rightarrow> u32 \<Rightarrow> ifd_atrbuf \<Rightarrow> 'w \<Rightarrow> (bool \<times> ifd_atrbuf \<times> ccid_reader \<times> 'w) res"
  where
  "reset_voltages [] env reader slot atr w = Inr (False, atr, reader, w)"
| "reset_voltages (i # is) env reader slot atr w =
     (if supported_voltages reader AND push_bit i 1 \<noteq> 0 then
        rbind (ccid_card_poweron env reader slot (of_nat (i + 1)) atr w) (\<lambda>(ok, atr, reader, w).
          if ok then Inr (True, atr, reader, w) else reset_voltages is env reader slot atr w)
      else reset_voltages is env reader slot atr w)"

definition ccid_reset_card ::
    "'w env \<Rightarrow> ccid_reader \<Rightarrow> u32 \<Rightarrow> ifd_atrbuf \<Rightarrow> 'w \<Rightarrow> (bool \<times> ifd_atrbuf \<times> ccid_reader \<times> 'w) res" where
  "ccid_reset_card env reader slot atr w =
     (if auto_voltage reader then
        rbind (ccid_card_poweron env reader slot 0 atr w) (\<lambda>(ok, atr, reader, w).
          if ok then Inr (True, atr, reader, w)
          else reset_voltages [0, 1, 2] env reader slot atr w)
      else reset_voltages [0, 1, 2] env reader slot atr w)"

definition ccid_reader_select_slot ::
    "'w env \<Rightarrow> ccid_reader \<Rightarrow> u32 \<Rightarrow> 'w \<Rightarrow> (bool \<times> ccid_reader \<times> 'w) res" where
  "ccid_reader_select_slot env reader slot w =
     (if current_slot reader = slot then Inr (True, reader, w)
      else rbind (ccid_get_slot_status env reader slot w) (\<lambda>(status, reader, w).
        case status of None \<Rightarrow> Inr (False, reader, w)
        | Some s \<Rightarrow> if s = 0 then Inr (False, reader, w)
                    else Inr (True, reader\<lparr>current_slot := slot\<rparr>, w)))"

definition ccid_reader_apdu_xfer ::
    "'w env \<Rightarrow> ccid_reader \<Rightarrow> u32 \<Rightarrow> buffer \<Rightarrow> 'w \<Rightarrow> (buffer option \<times> ccid_reader \<times> 'w) res" where
  "ccid_reader_apdu_xfer env reader slot apdu w =
     rbind (ccid_build_command (junk env) reader (ucast slot) CCID_CMD_XFRBLOCK None
              (Some (buffer_read_pointer apdu)) (buffer_available apdu)) (\<lambda>cmd.
       case cmd of None \<Rightarrow> Inr (None, reader, w)
       | Some cmd \<Rightarrow> rbind (ccid_xfer env reader cmd CCID_RESP_DATA w) (\<lambda>(r, reader, w).
           Inr (map_option resp_payload r, reader, w)))"

section \<open>The packet format\<close>

text \<open>A CCID message: type, payload length, slot, sequence number, three bytes that depend on the
  type, payload. \<open>decode_packet\<close> is the reference decoder; it ignores what follows the payload.\<close>

definition ccid_packet :: "u8 \<Rightarrow> u8 \<Rightarrow> u8 \<Rightarrow> bytes \<Rightarrow> bytes \<Rightarrow> bytes" where
  "ccid_packet type slot seq ctl payload =
     [type] @ le_bytes 4 (of_nat (length payload) :: u32) @ [slot, seq] @ ctl @ payload"

definition decode_packet :: "bytes \<Rightarrow> (u8 \<times> u8 \<times> u8 \<times> bytes \<times> bytes) option" where
  "decode_packet bs =
     (let n = unat (le_word (take 4 (drop 1 bs)) :: u32) in
      if length bs < 10 \<or> length bs - 10 < n then None
      else Some (bs ! 0, bs ! 5, bs ! 6, take 3 (drop 7 bs), take n (drop 10 bs)))"

lemma decode_ccid_packet:
  assumes "length ctl = 3" and "length payload < 2 ^ 32"
  shows "decode_packet (ccid_packet ty slot seq ctl payload @ tail) = Some (ty, slot, seq, ctl, payload)"
proof -
  have "unat (of_nat (length payload) :: u32) = length payload"
    using assms(2) by (simp add: of_nat_u32)
  moreover have "le_word (le_bytes 4 (of_nat (length payload) :: u32)) = (of_nat (length payload) :: u32)"
    by (rule le_word_le_bytes) simp
  ultimately show ?thesis
    using assms(1) by (simp add: decode_packet_def ccid_packet_def nth_append)
qed

text \<open>The header of a command fits the spare room of the command buffer.\<close>

lemma build_command_packet:
  assumes "length ctl = 3" and "unat len \<le> length src" and "unat len + 23 < 2 ^ 32"
    and "ctl_data = Some ctl \<or> ctl_data = None \<and> ctl = [0, 0, 0]"
    and "unat len \<noteq> 0 \<Longrightarrow> payload = Some src"
  shows "\<exists>pkt. ccid_build_command jk reader slot cmd ctl_data payload len
      = Inr (Some \<lparr>cmd_slot = slot, cmd_seq = ucast (ccid_seq reader), cmd_pkt = pkt\<rparr>)
    \<and> buf_ok pkt
    \<and> contents pkt = ccid_packet cmd slot (ucast (ccid_seq reader)) ctl (take (unat len) src)"
proof -
  have "unat (16 + len) = 16 + unat len"
    using assms(3) by (subst unat_add_small) simp_all
  then have sz: "unat (ucast (16 + len) :: u64) = 16 + unat len" by simp
  let ?b0 = "buffer_alloc_write jk (ucast (16 + len))"
  let ?seq = "ucast (ccid_seq reader) :: u8"
  let ?h = "[cmd] @ le_bytes 4 len @ [slot] @ [?seq] @ ctl"
  have b0: "buf_ok ?b0" "contents ?b0 = []" "16 + unat len \<le> room ?b0"
    using assms(3) round8_ge [of "16 + unat len"] by (simp_all only: alloc_ok sz)
  have ctl: "(case ctl_data of None \<Rightarrow> [0, 0, 0] | Some c \<Rightarrow> c) = ctl"
    using assms(4) by auto
  have hdr: "and_all [\<lambda>bp. buffer_put_u8 bp cmd, \<lambda>bp. buffer_put_u32le bp len,
      \<lambda>bp. buffer_put_u8 bp slot, \<lambda>bp. buffer_put_u8 bp ?seq, \<lambda>bp. buffer_put bp ctl 3] ?b0
    = Inr (True, buf_append ?b0 ?h)"
    using b0 assms(1) by (simp add: buf_simps)
  have lenw: "of_nat (length (take (unat len) src)) = len"
    using assms(2) by (simp add: min_def)
  show ?thesis
  proof (cases "len = 0")
    case True
    then show ?thesis
      using b0 assms(1) lenw
      by (simp add: ccid_build_command_def Let_def ctl hdr ccid_command_create_def ccid_packet_def buf_simps)
  next
    case False
    then have "payload = Some src" using assms(5) by (simp add: unat_eq_zero)
    with False show ?thesis
      using b0 assms(1,2) lenw
      by (simp add: ccid_build_command_def Let_def ctl hdr ccid_command_create_def ccid_packet_def buf_simps)
  qed
qed

text \<open>Parsing a packet is decoding its contents.\<close>

lemma truncate_True [buf_simps]:
  assumes "buf_ok b" and "unat n \<le> length (contents b)"
  shows "buffer_truncate b n = (True, b\<lparr>wpos := rpos b + n\<rparr>)"
  using assms by (simp add: buffer_truncate_def word_less_nat_alt unat_available)

lemma truncate_False [buf_simps]:
  assumes "buf_ok b" and "length (contents b) < unat n"
  shows "buffer_truncate b n = (False, b)"
  using assms by (simp add: buffer_truncate_def word_less_nat_alt unat_available)

lemma truncated_ok:
  assumes "buf_ok b" and "unat n \<le> length (contents b)"
  shows "buf_ok (b\<lparr>wpos := rpos b + n\<rparr>)"
    and "contents (b\<lparr>wpos := rpos b + n\<rparr>) = take (unat n) (contents b)"
    and "room (b\<lparr>wpos := rpos b + n\<rparr>) = room b + length (contents b) - unat n"
proof -
  have "unat (rpos b + n) = unat (rpos b) + unat n"
    using buf_drop_pos [OF assms] by simp
  then show "buf_ok (b\<lparr>wpos := rpos b + n\<rparr>)"
    and "contents (b\<lparr>wpos := rpos b + n\<rparr>) = take (unat n) (contents b)"
    and "room (b\<lparr>wpos := rpos b + n\<rparr>) = room b + length (contents b) - unat n"
    using buf_okD [OF assms(1)] assms(2) length_contents [OF assms(1)]
    by (auto intro!: buf_okI simp: contents_def room_def min_def)
qed

lemma take_1_nth: "bs \<noteq> [] \<Longrightarrow> take (Suc 0) bs = [bs ! 0]"
  by (cases bs) simp_all

definition response_of :: "(u8 \<times> u8 \<times> u8 \<times> bytes \<times> bytes) \<Rightarrow> ccid_response \<Rightarrow> bool" where
  "response_of d r = (case d of (ty, slot, seq, ctl, payload) \<Rightarrow>
     resp_type r = ty \<and> resp_slot r = slot \<and> resp_seq r = seq \<and> resp_ctl r = ctl
     \<and> buf_ok (resp_payload r) \<and> contents (resp_payload r) = payload)"

lemma response_create_decodes:
  assumes "buf_ok pkt"
  shows "case decode_packet (contents pkt) of None \<Rightarrow> ccid_response_create pkt = Inr None
    | Some d \<Rightarrow> \<exists>r. ccid_response_create pkt = Inr (Some r) \<and> response_of d r
        \<and> room (resp_payload r) = room pkt + length (contents pkt) - 10 - length (contents (resp_payload r))"
proof (cases "length (contents pkt) < 10")
  case True
  then have "buffer_available pkt < 10"
    using assms by (simp add: word_less_nat_alt unat_available)
  with True show ?thesis by (simp add: decode_packet_def ccid_response_create_def Let_def)
next
  case False
  let ?c = "contents pkt" and ?n = "le_word (take 4 (drop 1 (contents pkt))) :: u32"
  let ?b = "buf_drop (buf_drop (buf_drop (buf_drop (buf_drop pkt 1) 4) 1) 1) 3"
  have avail: "\<not> buffer_available pkt < 10"
    using False assms by (simp add: word_less_nat_alt unat_available)
  have b: "buf_ok ?b" "contents ?b = drop 10 ?c" "room ?b = room pkt"
    using assms False by (simp_all add: buf_simps)
  have ne: "?c \<noteq> []" "drop 5 ?c \<noteq> []" "drop 6 ?c \<noteq> []" using False by auto
  have run: "ccid_response_create pkt =
      (case buffer_truncate ?b (ucast ?n) of (ok, p) \<Rightarrow>
         if \<not> ok then Inr None
         else Inr (Some \<lparr>resp_type = ?c ! 0, resp_slot = ?c ! 5, resp_seq = ?c ! 6,
           resp_ctl = take 3 (drop 7 ?c), resp_payload = p\<rparr>))"
    using assms avail False ne
    by (simp add: ccid_response_create_def got_def buf_simps take_1_nth)
  show ?thesis
  proof (cases "length ?c - 10 < unat ?n")
    case True
    with False b show ?thesis
      by (simp add: decode_packet_def Let_def run truncate_False)
  next
    case short: False
    with False b have "buffer_truncate ?b (ucast ?n) = (True, ?b\<lparr>wpos := rpos ?b + ucast ?n\<rparr>)"
      by (intro truncate_True) simp_all
    moreover have "buf_ok (?b\<lparr>wpos := rpos ?b + ucast ?n\<rparr>)"
        "contents (?b\<lparr>wpos := rpos ?b + ucast ?n\<rparr>) = take (unat ?n) (drop 10 ?c)"
        "room (?b\<lparr>wpos := rpos ?b + ucast ?n\<rparr>) = room pkt + (length ?c - 10) - unat ?n"
      using truncated_ok [of ?b "ucast ?n"] b short by simp_all
    ultimately show ?thesis
      using False short by (simp add: decode_packet_def Let_def run response_of_def)
  qed
qed

section \<open>The exchange\<close>

text \<open>A packet whose announced length is right is dumped without a fault.\<close>

lemma dump_response_ok:
  assumes "buf_ok pkt" and "decode_packet (contents pkt) \<noteq> None"
  shows "ccid_dump_response pkt = Inr ()"
proof -
  let ?c = "contents pkt" and ?p = "buffer_read_pointer pkt"
  let ?n = "le_word (take 4 (drop 1 (contents pkt))) :: u32"
  have c: "10 + unat ?n \<le> length ?c" "\<not> length ?c < 10"
    using assms(2) by (auto simp: decode_packet_def Let_def split: if_splits)
  have p: "length ?c \<le> length ?p" "take (length ?c) ?p = ?c"
    using assms(1) by (simp_all add: read_pointer_length read_pointer_prefix)
  have "?p = ?c @ drop (length ?c) ?p"
    using p(2) by (metis append_take_drop_id)
  moreover have "take 4 (drop 1 (?c @ xs)) = take 4 (drop 1 ?c)" for xs
    using c by simp
  ultimately have "take 4 (drop 1 ?c) = take 4 (drop 1 ?p)"
    by metis
  then have "mem_read ?p 1 4 = Inr (take 4 (drop 1 ?c))"
    using c p(1) by (simp add: mem_read_in)
  moreover have "unat (10 + ?n) = 10 + unat ?n"
    using c contents_bound [OF assms(1)] by (subst unat_add_small) simp_all
  then have "unat (ucast (10 + ?n) :: u64) \<le> length ?p"
    using c p(1) by simp
  moreover have "\<not> buffer_available pkt < 10"
    using c assms(1) by (simp add: word_less_nat_alt unat_available)
  ultimately show ?thesis
    by (simp add: ccid_dump_response_def Let_def hexdump_in)
qed

text \<open>
  The reference for the loop of \<^verbatim>\<open>ccid_xfer\<close>: what one received packet means, given what was
  sent. \<open>Skip\<close> is a packet for another command or a request for more time.
\<close>

datatype verdict = Skip | Accept bytes bytes | Reject | Truncated

definition classify :: "u8 \<Rightarrow> u8 \<Rightarrow> u8 \<Rightarrow> bytes \<Rightarrow> verdict" where
  "classify slot seq expected p =
     (case decode_packet p of None \<Rightarrow> Truncated
      | Some (ty, s, q, ctl, payload) \<Rightarrow>
          if s \<noteq> slot \<or> q \<noteq> seq then Skip
          else if ty \<noteq> expected then Reject
          else if ctl ! 0 AND 0xC0 = 0 then Accept ctl payload
          else if ctl ! 0 AND 0xC0 = 0x80 then Skip
          else Reject)"

text \<open>The packets successive calls of \<open>uusb_recv\<close> return.\<close>

inductive receives :: "'w env \<Rightarrow> uusb_dev \<Rightarrow> u32 \<Rightarrow> 'w \<Rightarrow> bytes list \<Rightarrow> 'w \<Rightarrow> bool" for env dev mms where
  receives_Nil: "receives env dev mms w [] w"
| receives_Cons: "uusb_recv env dev (ucast mms) 10000 w = Inr (Some b, w1) \<Longrightarrow> buf_ok b
    \<Longrightarrow> contents b = p \<Longrightarrow> receives env dev mms w1 ps w' \<Longrightarrow> receives env dev mms w (p # ps) w'"

inductive_cases receives_ConsE: "receives env dev mms w (p # ps) w'"
inductive_simps receives_Nil_iff: "receives env dev mms w [] w'"

lemma receives_append:
  "receives env dev mms w (ps @ qs) w' \<Longrightarrow> \<exists>w1. receives env dev mms w ps w1 \<and> receives env dev mms w1 qs w'"
proof (induction ps arbitrary: w)
  case Nil
  then show ?case by (auto intro: receives_Nil)
next
  case (Cons p ps)
  from Cons.prems obtain b w2 where b: "uusb_recv env dev (ucast mms) 10000 w = Inr (Some b, w2)"
      "buf_ok b" "contents b = p" "receives env dev mms w2 (ps @ qs) w'"
    by (auto elim!: receives_ConsE)
  from Cons.IH [OF b(4)] receives_Cons [OF b(1-3)] show ?case by blast
qed

lemma decoded_ctl: "decode_packet bs = Some (ty, s, q, ctl, pl) \<Longrightarrow> length ctl = 3"
  by (auto simp: decode_packet_def Let_def split: if_splits)

lemma xfer_loop_step:
  assumes "uusb_recv env (rd_dev reader) (ucast (max_message_size reader)) 10000 w = Inr (Some b, w1)"
    and "buf_ok b"
  shows "case classify (cmd_slot cmd) (cmd_seq cmd) expected (contents b) of
      Skip \<Rightarrow> xfer_loop (Suc k) env reader cmd expected w = xfer_loop k env reader cmd expected w1
    | Reject \<Rightarrow> xfer_loop (Suc k) env reader cmd expected w = Inr (None, w1)
    | Truncated \<Rightarrow> opt_debug env \<le> 1 \<longrightarrow> xfer_loop (Suc k) env reader cmd expected w = Inl Null_Deref
    | Accept ctl payload \<Rightarrow> \<exists>r. xfer_loop (Suc k) env reader cmd expected w = Inr (Some r, w1)
        \<and> response_of (expected, cmd_slot cmd, cmd_seq cmd, ctl, payload) r
        \<and> room (resp_payload r) = room b + length (contents b) - 10 - length payload"
proof (cases "decode_packet (contents b)")
  case None
  with response_create_decodes [OF assms(2)] have "ccid_response_create b = Inr None" by simp
  with None assms(1) show ?thesis by (auto simp: classify_def not_less [symmetric])
next
  case (Some d)
  obtain ty s q ctl payload where d: "d = (ty, s, q, ctl, payload)" by (cases d)
  have dump: "(if opt_debug env > 1 then ccid_dump_response b else Inr ()) = Inr ()"
    using dump_response_ok [OF assms(2)] Some by simp
  obtain r where r: "ccid_response_create b = Inr (Some r)" "response_of (ty, s, q, ctl, payload) r"
      "room (resp_payload r) = room b + length (contents b) - 10 - length payload"
    using response_create_decodes [OF assms(2)] by (auto simp: Some d response_of_def)
  have f: "resp_type r = ty" "resp_slot r = s" "resp_seq r = q" "resp_ctl r = ctl"
    using r(2) by (simp_all add: response_of_def)
  have "mem_get ctl 0 = Inr (ctl ! 0)"
    using decoded_ctl [OF Some [unfolded d]] by (simp add: mem_get_in)
  with Some d f r(1) have step: "xfer_loop (Suc k) env reader cmd expected w =
     (if s = cmd_slot cmd \<and> q = cmd_seq cmd then
        if ty \<noteq> expected then Inr (None, w1)
        else if ctl ! 0 AND 0xC0 = 0 then Inr (Some r, w1)
        else if ctl ! 0 AND 0xC0 = 0x80 then xfer_loop k env reader cmd expected w1
        else Inr (None, w1)
      else xfer_loop k env reader cmd expected w1)"
    by (simp add: assms(1) dump)
  show ?thesis
    using r(2,3) by (auto simp: step classify_def Some d simp del: xfer_loop.simps)
qed

lemma xfer_loop_skips:
  assumes "receives env (rd_dev reader) (max_message_size reader) w ps w1"
    and "\<forall>p \<in> set ps. classify (cmd_slot cmd) (cmd_seq cmd) expected p = Skip"
    and "length ps \<le> k"
  shows "xfer_loop k env reader cmd expected w = xfer_loop (k - length ps) env reader cmd expected w1"
  using assms
proof (induction ps arbitrary: w k)
  case Nil
  then show ?case by (simp add: receives_Nil_iff)
next
  case (Cons p ps)
  from Cons.prems(1) obtain b w2 where b: "uusb_recv env (rd_dev reader)
      (ucast (max_message_size reader)) 10000 w = Inr (Some b, w2)" "buf_ok b" "contents b = p"
      "receives env (rd_dev reader) (max_message_size reader) w2 ps w1"
    by (rule receives_ConsE)
  from Cons.prems(3) obtain k' where k: "k = Suc k'" by (cases k) auto
  have "xfer_loop k env reader cmd expected w = xfer_loop k' env reader cmd expected w2"
    using xfer_loop_step [OF b(1,2), where cmd = cmd and expected = expected and k = k'] Cons.prems(2) b(3) by (simp add: k del: xfer_loop.simps)
  with Cons.IH [OF b(4)] Cons.prems(2,3) show ?case by (simp add: k del: xfer_loop.simps)
qed

lemma cmd_dump_ok:
  assumes "buf_ok b"
  shows "(if opt_debug env > 1
     then rbind (hexdump (buffer_read_pointer b) (ucast (buffer_available b)) 4) (\<lambda>_. Inr ())
     else Inr ()) = Inr ()"
  using assms by (simp add: hexdump_in unat_available read_pointer_length)

lemma ccid_xfer_sent:
  assumes "buf_ok (cmd_pkt cmd)"
    and "uusb_send env (rd_dev reader) (cmd_pkt cmd) w0 = Inr (True, w)"
  shows "ccid_xfer env reader cmd expected w0 =
    rbind (xfer_loop 6 env (reader\<lparr>ccid_seq := ucast (cmd_seq cmd) + 1\<rparr>) cmd expected w)
      (\<lambda>(resp, w). Inr (resp, reader\<lparr>ccid_seq := ucast (cmd_seq cmd) + 1\<rparr>, w))"
  using assms cmd_dump_ok [OF assms(1), of env]
  by (simp add: ccid_xfer_def Let_def del: xfer_loop.simps)

text \<open>C6: The loop of ccid_xfer decides on each received packet as the reference classification does:
  packets for other commands and time extensions are skipped, up to six packets; the first
  accepted packet is returned with its control bytes and payload; a mismatch of type or an error
  status gives no response; a truncated packet makes it dereference a null pointer.\<close>

theorem ccid_xfer_classifies:
  assumes "buf_ok (cmd_pkt cmd)"
    and "uusb_send env (rd_dev reader) (cmd_pkt cmd) w0 = Inr (True, w)"
    and "receives env (rd_dev reader) (max_message_size reader) w (ps @ [p]) w'"
    and "\<forall>p \<in> set ps. classify (cmd_slot cmd) (cmd_seq cmd) expected p = Skip"
    and "length ps < 6"
    and "reader' = reader\<lparr>ccid_seq := ucast (cmd_seq cmd) + 1\<rparr>"
  shows "case classify (cmd_slot cmd) (cmd_seq cmd) expected p of
      Accept ctl payload \<Rightarrow> (\<exists>r. ccid_xfer env reader cmd expected w0 = Inr (Some r, reader', w')
        \<and> response_of (expected, cmd_slot cmd, cmd_seq cmd, ctl, payload) r)
    | Reject \<Rightarrow> ccid_xfer env reader cmd expected w0 = Inr (None, reader', w')
    | Skip \<Rightarrow> length ps = 5 \<longrightarrow> ccid_xfer env reader cmd expected w0 = Inr (None, reader', w')
    | Truncated \<Rightarrow> opt_debug env \<le> 1 \<longrightarrow> ccid_xfer env reader cmd expected w0 = Inl Null_Deref"
proof -
  obtain w1 where w1: "receives env (rd_dev reader) (max_message_size reader) w ps w1"
      "receives env (rd_dev reader) (max_message_size reader) w1 [p] w'"
    using receives_append [OF assms(3)] by blast
  obtain b where b: "uusb_recv env (rd_dev reader) (ucast (max_message_size reader)) 10000 w1
      = Inr (Some b, w')" "buf_ok b" "contents b = p"
    using w1(2) by (auto elim!: receives_ConsE simp: receives_Nil_iff)
  obtain k where k: "6 - length ps = Suc k" "k = 5 - length ps"
    using assms(5) by (cases "6 - length ps") auto
  have "xfer_loop 6 env reader' cmd expected w = xfer_loop (Suc k) env reader' cmd expected w1"
    using xfer_loop_skips [where env = env and reader = reader' and w = w and ps = ps and cmd = cmd and expected = expected and k = 6] w1(1) assms(4-6) k(1)
    by (simp del: xfer_loop.simps)
  with ccid_xfer_sent [OF assms(1,2)] have run: "ccid_xfer env reader cmd expected w0
      = rbind (xfer_loop (Suc k) env reader' cmd expected w1) (\<lambda>(resp, w). Inr (resp, reader', w))"
    by (simp add: assms(6) del: xfer_loop.simps)
  show ?thesis
    using xfer_loop_step [where env = env and reader = reader' and w = w1 and cmd = cmd and expected = expected and k = k] b k(2)
    by (auto simp: run assms(6) split: verdict.splits simp del: xfer_loop.simps(2))
qed

lemma xfer_loop_matches:
  "xfer_loop k env reader cmd expected w = Inr (Some r, w') \<Longrightarrow>
     resp_slot r = cmd_slot cmd \<and> resp_seq r = cmd_seq cmd \<and> resp_type r = expected
     \<and> resp_ctl r ! 0 AND 0xC0 = 0"
proof (induction k arbitrary: w)
  case 0
  then show ?case by simp
next
  case (Suc k)
  from Suc.prems obtain rbuf w1 where recv: "uusb_recv env (rd_dev reader)
      (ucast (max_message_size reader)) 10000 w = Inr (Some rbuf, w1)"
    by (auto simp: rbind_eq_Inr split: option.splits)
  let ?dump = "if opt_debug env > 1 then ccid_dump_response rbuf else Inr ()"
  have dump: "?dump = Inr ()"
    using Suc.prems by (cases ?dump) (simp_all add: recv)
  have "\<exists>resp. ccid_response_create rbuf = Inr (Some resp)"
    using Suc.prems by (cases "ccid_response_create rbuf") (auto simp: recv dump split: option.splits)
  then obtain resp where resp: "ccid_response_create rbuf = Inr (Some resp)" "?dump = Inr ()"
    using dump by blast
  show ?case
  proof (cases "resp_slot resp = cmd_slot cmd \<and> resp_seq resp = cmd_seq cmd")
    case False
    with Suc.prems have "xfer_loop k env reader cmd expected w1 = Inr (Some r, w')"
      by (simp add: recv resp)
    then show ?thesis by (rule Suc.IH)
  next
    case True
    with Suc.prems obtain ctl where "mem_get (resp_ctl resp) 0 = Inr ctl"
      by (cases "mem_get (resp_ctl resp) 0") (simp_all add: recv resp)
    with Suc.prems True Suc.IH [of w1] show ?thesis
      by (auto simp: recv resp mem_get_def simp del: xfer_loop.simps(1) split: if_splits)
  qed
qed

text \<open>C22: Whatever the device sends, a response ccid_xfer returns has the slot and the sequence
  number of the command, the expected type and a status without error, and the sequence number
  of the reader is the one after that of the command.\<close>

theorem ccid_xfer_matches:
  assumes "ccid_xfer env reader cmd expected w = Inr (Some r, reader', w')"
  shows "resp_slot r = cmd_slot cmd \<and> resp_seq r = cmd_seq cmd \<and> resp_type r = expected
    \<and> resp_ctl r ! 0 AND 0xC0 = 0 \<and> reader' = reader\<lparr>ccid_seq := ucast (cmd_seq cmd) + 1\<rparr>"
proof -
  let ?reader = "reader\<lparr>ccid_seq := ucast (cmd_seq cmd) + 1\<rparr>"
  obtain w1 where "rbind (xfer_loop 6 env ?reader cmd expected w1)
      (\<lambda>(resp, w). Inr (resp, ?reader, w)) = Inr (Some r, reader', w')"
    using assms unfolding ccid_xfer_def Let_def
    by (elim rbind_InrE) (auto split: prod.splits if_splits simp del: xfer_loop.simps)
  then obtain w2 where "xfer_loop 6 env ?reader cmd expected w1 = Inr (Some r, w2)"
      and r: "reader' = ?reader"
    by (auto split: if_splits elim!: rbind_InrE simp del: xfer_loop.simps)
  from xfer_loop_matches [OF this(1)] r
  show ?thesis by simp
qed

text \<open>
  A USB token behind the device node: \<open>tok\<close> maps its state and a packet on the bulk-out endpoint
  to the packet it then offers on the bulk-in endpoint; \<open>st\<close> is its state in a given state of the
  world. An out transfer followed by an in transfer is one step of the token; the answer is
  followed by whatever was in the rest of the receive buffer.
\<close>

definition token_env ::
    "'w env \<Rightarrow> uusb_dev \<Rightarrow> u32 \<Rightarrow> ('t \<Rightarrow> bytes \<Rightarrow> bytes \<times> 't) \<Rightarrow> ('w \<Rightarrow> 't) \<Rightarrow> bool" where
  "token_env env dev mms tok st \<longleftrightarrow>
     usbfs_bulk env \<and> unat mms + 7 < 2 ^ 31 \<and>
     (\<forall>w pkt resp t'. length pkt < 2 ^ 31 \<longrightarrow> tok (st w) pkt = (resp, t')
        \<longrightarrow> length resp \<le> round8 (unat mms) \<longrightarrow>
        (\<exists>rc b w1 rc' b' w2 rest.
           ioctl_bulk env (dev_fd dev) \<lparr>bulk_ep = ucast (word_of_int (ep_o dev) :: u8),
             bulk_len = of_nat (length pkt), bulk_timeout = 10000, bulk_data = pkt\<rparr> w = (rc, b, w1)
         \<and> 0 \<le> rc
         \<and> ioctl_bulk env (dev_fd dev) \<lparr>bulk_ep = ucast (word_of_int (ep_i dev) :: u8),
             bulk_len = of_nat (round8 (unat mms)), bulk_timeout = 10000,
             bulk_data = replicate (round8 (unat mms)) 0xAA\<rparr> w1 = (rc', b', w2)
         \<and> 0 \<le> rc' \<and> bulk_data b' = resp @ rest \<and> st w2 = t'))"

lemma token_roundtrip:
  assumes "token_env env dev mms tok st" and "buf_ok pkt" and "length (contents pkt) < 2 ^ 31"
    and "tok (st w) (contents pkt) = (resp, t')" and "length resp \<le> round8 (unat mms)"
  shows "\<exists>w1 b w2 rest. uusb_send env dev pkt w = Inr (True, w1)
    \<and> uusb_recv env dev (ucast mms) 10000 w1 = Inr (Some b, w2) \<and> buf_ok b
    \<and> contents b = resp @ rest \<and> length (contents b) = round8 (unat mms) \<and> room b = 0 \<and> st w2 = t'"
proof -
  have usb: "usbfs_bulk env" and mms: "unat mms + 7 < 2 ^ 31"
    using assms(1) by (simp_all add: token_env_def)
  have n: "(of_nat (length (contents pkt)) :: u32) = buffer_available pkt"
    by (metis unat_available [OF assms(2)] of_nat_unat ucast_id)
  obtain rc b w1 rc' b' w2 rest where out: "ioctl_bulk env (dev_fd dev)
        \<lparr>bulk_ep = ucast (word_of_int (ep_o dev) :: u8), bulk_len = buffer_available pkt,
         bulk_timeout = 10000, bulk_data = contents pkt\<rparr> w = (rc, b, w1)" "0 \<le> rc"
      and inn: "ioctl_bulk env (dev_fd dev) \<lparr>bulk_ep = ucast (word_of_int (ep_i dev) :: u8),
             bulk_len = of_nat (round8 (unat mms)), bulk_timeout = 10000,
             bulk_data = replicate (round8 (unat mms)) 0xAA\<rparr> w1 = (rc', b', w2)" "0 \<le> rc'"
      and b': "bulk_data b' = resp @ rest" "st w2 = t'"
    using assms(1) [unfolded token_env_def, THEN conjunct2, THEN conjunct2, rule_format,
        OF assms(3,4,5)] unfolding n by blast
  have "uusb_send env dev pkt w = Inr (True, w1)"
    using uusb_send_ok [OF usb assms(2,3) out(1)] out(2) by simp
  moreover obtain p where "uusb_recv env dev (ucast mms) 10000 w1 = Inr (Some p, w2)" "buf_ok p"
      "contents p = bulk_data b'" "room p = 0"
    using uusb_recv_ok [OF usb, where maxlen = "ucast mms" and dev = dev and timeout = 10000 and w = w1]
      mms inn by auto
  moreover have "length (bulk_data b') = round8 (unat mms)"
    using usbfs_bulkD(2) [OF usb inn(1)] by simp
  ultimately show ?thesis
    using b' by (intro exI [of _ w1] exI [of _ p] exI [of _ w2] exI [of _ rest]) simp
qed

text \<open>An exchange with a token that answers the command at once.\<close>

lemma token_xfer:
  assumes "token_env env (rd_dev reader) (max_message_size reader) tok st"
    and "buf_ok (cmd_pkt cmd)" and "length (contents (cmd_pkt cmd)) < 2 ^ 31"
    and "tok (st w) (contents (cmd_pkt cmd))
      = (ccid_packet expected (cmd_slot cmd) (cmd_seq cmd) ctl payload, t')"
    and "length ctl = 3" and "ctl ! 0 AND 0xC0 = 0"
    and "10 + length payload \<le> round8 (unat (max_message_size reader))"
  shows "\<exists>r w'. ccid_xfer env reader cmd expected w
      = Inr (Some r, reader\<lparr>ccid_seq := ucast (cmd_seq cmd) + 1\<rparr>, w')
    \<and> response_of (expected, cmd_slot cmd, cmd_seq cmd, ctl, payload) r
    \<and> room (resp_payload r) = round8 (unat (max_message_size reader)) - 10 - length payload
    \<and> st w' = t'"
proof -
  let ?resp = "ccid_packet expected (cmd_slot cmd) (cmd_seq cmd) ctl payload"
  have "length ?resp \<le> round8 (unat (max_message_size reader))"
    using assms(5,7) by (simp add: ccid_packet_def)
  from token_roundtrip [OF assms(1-4) this] obtain w1 b w2 rest where
      s: "uusb_send env (rd_dev reader) (cmd_pkt cmd) w = Inr (True, w1)"
      and r: "uusb_recv env (rd_dev reader) (ucast (max_message_size reader)) 10000 w1 = Inr (Some b, w2)"
      and b: "buf_ok b" "contents b = ?resp @ rest" "room b = 0" "st w2 = t'"
        "length (contents b) = round8 (unat (max_message_size reader))"
    by blast
  have "length payload < 2 ^ 32"
    using assms(7) contents_bound [OF b(1)] b(5) by simp
  then have "classify (cmd_slot cmd) (cmd_seq cmd) expected (contents b) = Accept ctl payload"
    using assms(5,6) by (simp add: classify_def b(2) decode_ccid_packet)
  moreover have "uusb_recv env (rd_dev (reader\<lparr>ccid_seq := ucast (cmd_seq cmd) + 1\<rparr>))
      (ucast (max_message_size (reader\<lparr>ccid_seq := ucast (cmd_seq cmd) + 1\<rparr>))) 10000 w1 = Inr (Some b, w2)"
    using r by simp
  ultimately obtain res where "xfer_loop (Suc 5) env (reader\<lparr>ccid_seq := ucast (cmd_seq cmd) + 1\<rparr>) cmd expected w1
      = Inr (Some res, w2)"
      "response_of (expected, cmd_slot cmd, cmd_seq cmd, ctl, payload) res"
      "room (resp_payload res) = room b + length (contents b) - 10 - length payload"
    using xfer_loop_step [of env "reader\<lparr>ccid_seq := ucast (cmd_seq cmd) + 1\<rparr>" w1 b w2 5 cmd expected] b(1)
    by (auto simp del: xfer_loop.simps)
  moreover have "ccid_xfer env reader cmd expected w =
      rbind (xfer_loop (Suc 5) env (reader\<lparr>ccid_seq := ucast (cmd_seq cmd) + 1\<rparr>) cmd expected w1)
        (\<lambda>(resp, w). Inr (resp, reader\<lparr>ccid_seq := ucast (cmd_seq cmd) + 1\<rparr>, w))"
    using ccid_xfer_sent [OF assms(2) s, of expected] by simp
  ultimately show ?thesis
    using b by (auto simp del: xfer_loop.simps)
qed

section \<open>A reader with a card in it\<close>

text \<open>
  What the CCID specification says of a token with a card inserted, for the three commands the
  program sends. \<open>step\<close> is the card: what it answers to an APDU; \<open>rst\<close> its state after a reset,
  \<open>atr\<close> the answer to reset. Nothing is said of other packets.
\<close>

definition ccid_token ::
    "('c \<Rightarrow> bytes \<Rightarrow> bytes \<times> 'c) \<Rightarrow> bytes \<Rightarrow> ('c \<Rightarrow> 'c) \<Rightarrow> ('c \<Rightarrow> bytes \<Rightarrow> bytes \<times> 'c) \<Rightarrow> bool" where
  "ccid_token tok atr rst step \<longleftrightarrow>
     (\<forall>c slot seq. \<exists>ctl. length ctl = 3 \<and> ctl ! 0 AND 0xC3 = 0
        \<and> tok c (ccid_packet CCID_CMD_GETSLOTSTAT slot seq [0, 0, 0] [])
            = (ccid_packet CCID_RESP_SLOTSTAT slot seq ctl [], c))
   \<and> (\<forall>c slot seq v. \<exists>ctl. length ctl = 3 \<and> ctl ! 0 AND 0xC3 = 0
        \<and> tok c (ccid_packet CCID_CMD_ICCPOWERON slot seq [v, 0, 0] [])
            = (ccid_packet CCID_RESP_DATA slot seq ctl atr, rst c))
   \<and> (\<forall>c slot seq apdu. length apdu < 2 ^ 16 \<longrightarrow> (\<exists>ctl. length ctl = 3 \<and> ctl ! 0 AND 0xC3 = 0
        \<and> tok c (ccid_packet CCID_CMD_XFRBLOCK slot seq [0, 0, 0] apdu)
            = (ccid_packet CCID_RESP_DATA slot seq ctl (fst (step c apdu)), snd (step c apdu))))"

lemma ccid_tokenD:
  assumes "ccid_token tok atr rst step"
  shows "\<exists>ctl. length ctl = 3 \<and> ctl ! 0 AND 0xC3 = 0
        \<and> tok c (ccid_packet CCID_CMD_GETSLOTSTAT slot seq [0, 0, 0] [])
            = (ccid_packet CCID_RESP_SLOTSTAT slot seq ctl [], c)"
    and "\<exists>ctl. length ctl = 3 \<and> ctl ! 0 AND 0xC3 = 0
        \<and> tok c (ccid_packet CCID_CMD_ICCPOWERON slot seq [v, 0, 0] [])
            = (ccid_packet CCID_RESP_DATA slot seq ctl atr, rst c)"
    and "length apdu < 2 ^ 16 \<Longrightarrow> \<exists>ctl. length ctl = 3 \<and> ctl ! 0 AND 0xC3 = 0
        \<and> tok c (ccid_packet CCID_CMD_XFRBLOCK slot seq [0, 0, 0] apdu)
            = (ccid_packet CCID_RESP_DATA slot seq ctl (fst (step c apdu)), snd (step c apdu))"
  using assms by (simp_all add: ccid_token_def)

lemma status_bits:
  fixes x :: u8
  assumes "x AND 0xC3 = 0"
  shows "x AND 0xC0 = 0" and "x AND 0x3 = 0"
proof -
  have "x AND 0xC0 = (x AND 0xC3) AND 0xC0" "x AND 0x3 = (x AND 0xC3) AND 0x3"
    by (simp_all add: and.assoc)
  then show "x AND 0xC0 = 0" "x AND 0x3 = 0" using assms by simp_all
qed

text \<open>The reader is linked to a card in state \<open>c\<close>.\<close>

definition reader_link ::
    "('c \<Rightarrow> bytes \<Rightarrow> bytes \<times> 'c) \<Rightarrow> bytes \<Rightarrow> ('c \<Rightarrow> 'c) \<Rightarrow> ('c \<Rightarrow> bytes \<Rightarrow> bytes \<times> 'c) \<Rightarrow> ('w \<Rightarrow> 'c)
       \<Rightarrow> 'w env \<Rightarrow> ccid_reader \<Rightarrow> 'w \<Rightarrow> 'c \<Rightarrow> bool" where
  "reader_link tok atr rst step st env reader w c \<longleftrightarrow>
     token_env env (rd_dev reader) (max_message_size reader) tok st \<and> ccid_token tok atr rst step \<and> st w = c"

text \<open>The largest payload of a response.\<close>

definition capacity :: "ccid_reader \<Rightarrow> nat" where
  "capacity reader = round8 (unat (max_message_size reader)) - 10"

text \<open>The fields of the reader that only \<open>ccid_reader_create\<close> sets.\<close>

definition same_reader :: "ccid_reader \<Rightarrow> ccid_reader \<Rightarrow> bool" where
  "same_reader r r' \<longleftrightarrow> (\<exists>n. r' = r\<lparr>ccid_seq := n\<rparr>)"

lemma same_reader_refl [simp]: "same_reader r r"
  unfolding same_reader_def by (rule exI [of _ "ccid_seq r"]) simp

lemma same_reader_seq [simp]: "same_reader r (r\<lparr>ccid_seq := n\<rparr>)"
  unfolding same_reader_def by blast

lemma same_reader_trans: "same_reader a b \<Longrightarrow> same_reader b c \<Longrightarrow> same_reader a c"
  by (auto simp: same_reader_def)

lemma same_readerD:
  assumes "same_reader r r'"
  shows "rd_dev r' = rd_dev r" and "max_message_size r' = max_message_size r"
    and "current_slot r' = current_slot r" and "capacity r' = capacity r"
  using assms by (auto simp: same_reader_def capacity_def)

lemma link_same:
  assumes "reader_link tok atr rst step st env reader w c" and "same_reader reader reader'" and "st w' = c'"
  shows "reader_link tok atr rst step st env reader' w' c'"
  using assms by (simp add: reader_link_def same_readerD)

lemma link_payload:
  assumes "token_env env (rd_dev reader) (max_message_size reader) tok st" and "n \<le> capacity reader"
    and "10 \<le> round8 (unat (max_message_size reader))"
  shows "10 + n \<le> round8 (unat (max_message_size reader))"
  using assms(2,3) by (simp add: capacity_def)

text \<open>Slot status, power on, and the exchange of an APDU.\<close>

lemma link_slot_status:
  assumes "reader_link tok atr rst step st env reader w c"
    and "10 \<le> round8 (unat (max_message_size reader))"
  shows "\<exists>reader' w'. ccid_get_slot_status env reader slot w = Inr (Some 1, reader', w')
    \<and> same_reader reader reader' \<and> reader_link tok atr rst step st env reader' w' c"
proof -
  obtain pkt where cmd: "ccid_build_simple_packet (junk env) reader slot CCID_CMD_GETSLOTSTAT
      = Inr (Some \<lparr>cmd_slot = ucast slot, cmd_seq = ucast (ccid_seq reader), cmd_pkt = pkt\<rparr>)"
      and pkt: "buf_ok pkt" "contents pkt = ccid_packet CCID_CMD_GETSLOTSTAT (ucast slot)
        (ucast (ccid_seq reader)) [0, 0, 0] []"
    using build_command_packet [of "[0, 0, 0]" 0 "[]" None None "junk env" reader "ucast slot"
        CCID_CMD_GETSLOTSTAT]
    by (auto simp: ccid_build_simple_packet_def)
  have link: "token_env env (rd_dev reader) (max_message_size reader) tok st"
      "ccid_token tok atr rst step" "st w = c"
    using assms(1) by (simp_all add: reader_link_def)
  obtain ctl where ctl: "length ctl = 3" "ctl ! 0 AND 0xC3 = 0"
      "tok c (contents pkt) = (ccid_packet CCID_RESP_SLOTSTAT (ucast slot) (ucast (ccid_seq reader)) ctl [], c)"
    unfolding pkt(2) using ccid_tokenD(1) [OF link(2)] by blast
  let ?cmd = "\<lparr>cmd_slot = ucast slot, cmd_seq = ucast (ccid_seq reader), cmd_pkt = pkt\<rparr>"
  obtain r w' where x: "ccid_xfer env reader ?cmd CCID_RESP_SLOTSTAT w
      = Inr (Some r, reader\<lparr>ccid_seq := ucast (cmd_seq ?cmd) + 1\<rparr>, w')"
      and r: "response_of (CCID_RESP_SLOTSTAT, cmd_slot ?cmd, cmd_seq ?cmd, ctl, []) r" "st w' = c"
    using token_xfer [OF link(1), of ?cmd w CCID_RESP_SLOTSTAT ctl "[]" c] pkt ctl link(3) assms(2)
      status_bits(1) [OF ctl(2)]
    by (auto simp: ccid_packet_def)
  have "resp_ctl r = ctl" using r(1) by (simp add: response_of_def)
  then have "ccid_get_slot_status env reader slot w
      = Inr (Some 1, reader\<lparr>ccid_seq := ucast (cmd_seq ?cmd) + 1\<rparr>, w')"
    using x ctl(1) status_bits(2) [OF ctl(2)]
    by (simp add: ccid_get_slot_status_def cmd mem_get_in)
  then show ?thesis
    using link_same [OF assms(1) same_reader_seq r(2)] same_reader_seq by blast
qed

lemma link_poweron:
  assumes "reader_link tok atr rst step st env reader w c"
    and "10 + length atr \<le> round8 (unat (max_message_size reader))"
    and "length atr \<le> IFD_MAX_ATR_LEN" and "length (atr_data a) = IFD_MAX_ATR_LEN"
  shows "\<exists>reader' w'. ccid_card_poweron env reader slot voltage a w
      = Inr (True, \<lparr>atr_len = of_nat (length atr), atr_data = atr @ drop (length atr) (atr_data a)\<rparr>, reader', w')
    \<and> same_reader reader reader' \<and> reader_link tok atr rst step st env reader' w' (rst c)"
proof -
  obtain pkt where cmd: "ccid_build_command (junk env) reader (ucast slot) CCID_CMD_ICCPOWERON
        (Some [voltage, 0, 0]) None 0
      = Inr (Some \<lparr>cmd_slot = ucast slot, cmd_seq = ucast (ccid_seq reader), cmd_pkt = pkt\<rparr>)"
      and pkt: "buf_ok pkt" "contents pkt = ccid_packet CCID_CMD_ICCPOWERON (ucast slot)
        (ucast (ccid_seq reader)) [voltage, 0, 0] []"
    using build_command_packet [of "[voltage, 0, 0]" 0 "[]" "Some [voltage, 0, 0]" None
        "junk env" reader "ucast slot" CCID_CMD_ICCPOWERON]
    by auto
  have link: "token_env env (rd_dev reader) (max_message_size reader) tok st"
      "ccid_token tok atr rst step" "st w = c"
    using assms(1) by (simp_all add: reader_link_def)
  obtain ctl where ctl: "length ctl = 3" "ctl ! 0 AND 0xC3 = 0"
      "tok c (contents pkt) = (ccid_packet CCID_RESP_DATA (ucast slot) (ucast (ccid_seq reader)) ctl atr, rst c)"
    unfolding pkt(2) using ccid_tokenD(2) [OF link(2)] by blast
  let ?cmd = "\<lparr>cmd_slot = ucast slot, cmd_seq = ucast (ccid_seq reader), cmd_pkt = pkt\<rparr>"
  obtain r w' where x: "ccid_xfer env reader ?cmd CCID_RESP_DATA w
      = Inr (Some r, reader\<lparr>ccid_seq := ucast (cmd_seq ?cmd) + 1\<rparr>, w')"
      and r: "response_of (CCID_RESP_DATA, cmd_slot ?cmd, cmd_seq ?cmd, ctl, atr) r" "st w' = rst c"
    using token_xfer [OF link(1), of ?cmd w CCID_RESP_DATA ctl atr "rst c"] pkt ctl link(3) assms(2)
      status_bits(1) [OF ctl(2)]
    by (auto simp: ccid_packet_def)
  have p: "buf_ok (resp_payload r)" "contents (resp_payload r) = atr"
    using r(1) by (simp_all add: response_of_def)
  have n: "unat (buffer_available (resp_payload r)) = length atr"
    using p by (simp add: unat_available)
  then have n32: "buffer_available (resp_payload r) = of_nat (length atr)"
    by (metis of_nat_unat ucast_id)
  have read: "mem_read (buffer_read_pointer (resp_payload r)) 0 (length atr) = Inr atr"
    using read_pointer_prefix [OF p(1)] read_pointer_length [OF p(1)] p(2) by (simp add: mem_read_in)
  have n8: "unat (of_nat (length atr) :: u32) = length atr" "(ucast (ucast (of_nat (length atr) :: u32) :: u64) :: u32) = of_nat (length atr)"
    using assms(3) by (simp_all add: of_nat_u32 IFD_MAX_ATR_LEN_def word_unat_eq_iff unat_ucast_64_32)
  have "ifd_atrbuf_set a (buffer_read_pointer (resp_payload r)) (ucast (buffer_available (resp_payload r)))
      = Inr \<lparr>atr_len = of_nat (length atr), atr_data = atr @ drop (length atr) (atr_data a)\<rparr>"
    using assms(3,4) read n8
    by (simp add: ifd_atrbuf_set_def Let_def n32 mem_write_in)
  then have "ccid_card_poweron env reader slot voltage a w
      = Inr (True, \<lparr>atr_len = of_nat (length atr), atr_data = atr @ drop (length atr) (atr_data a)\<rparr>,
          reader\<lparr>ccid_seq := ucast (cmd_seq ?cmd) + 1\<rparr>, w')"
    using x by (simp add: ccid_card_poweron_def cmd Let_def)
  then show ?thesis
    using link_same [OF assms(1) same_reader_seq r(2)] same_reader_seq by blast
qed

lemma voltage_bits:
  fixes v :: u32
  assumes "v AND 7 \<noteq> 0"
  shows "v AND 1 \<noteq> 0 \<or> v AND 2 \<noteq> 0 \<or> v AND 4 \<noteq> 0"
proof (rule ccontr)
  have "v AND 7 = v AND 1 OR v AND 2 OR v AND 4"
    by (simp flip: bit.conj_disj_distrib)
  moreover assume "\<not> (v AND 1 \<noteq> 0 \<or> v AND 2 \<noteq> 0 \<or> v AND 4 \<noteq> 0)"
  ultimately show False using assms by simp
qed

lemma link_reset_card:
  assumes "reader_link tok atr rst step st env reader w c"
    and "10 + length atr \<le> round8 (unat (max_message_size reader))"
    and "length atr \<le> IFD_MAX_ATR_LEN" and "length (atr_data a) = IFD_MAX_ATR_LEN"
    and "auto_voltage reader \<or> supported_voltages reader AND 7 \<noteq> 0"
  shows "\<exists>reader' w'. ccid_reset_card env reader slot a w
      = Inr (True, \<lparr>atr_len = of_nat (length atr), atr_data = atr @ drop (length atr) (atr_data a)\<rparr>, reader', w')
    \<and> same_reader reader reader' \<and> reader_link tok atr rst step st env reader' w' (rst c)"
proof -
  note on = link_poweron [OF assms(1-4), of slot]
  let ?v = "supported_voltages reader"
  consider "auto_voltage reader" | "\<not> auto_voltage reader" "?v AND 1 \<noteq> 0"
    | "\<not> auto_voltage reader" "?v AND 1 = 0" "?v AND 2 \<noteq> 0"
    | "\<not> auto_voltage reader" "?v AND 1 = 0" "?v AND 2 = 0" "?v AND 4 \<noteq> 0"
    using assms(5) voltage_bits [of ?v] by blast
  then show ?thesis
  proof cases
    case 1
    with on [of 0] show ?thesis by (auto simp: ccid_reset_card_def)
  next
    case 2
    with on [of 1] show ?thesis by (auto simp: ccid_reset_card_def)
  next
    case 3
    with on [of 2] show ?thesis by (auto simp: ccid_reset_card_def)
  next
    case 4
    with on [of 3] show ?thesis by (auto simp: ccid_reset_card_def)
  qed
qed

lemma link_apdu_xfer:
  assumes "reader_link tok atr rst step st env reader w c"
    and "buf_ok apdu" and "length (contents apdu) < 2 ^ 16"
    and "10 + length (fst (step c (contents apdu))) \<le> round8 (unat (max_message_size reader))"
  shows "\<exists>rapdu reader' w'. ccid_reader_apdu_xfer env reader slot apdu w = Inr (Some rapdu, reader', w')
    \<and> buf_ok rapdu \<and> contents rapdu = fst (step c (contents apdu))
    \<and> room rapdu = capacity reader - length (contents rapdu)
    \<and> same_reader reader reader'
    \<and> reader_link tok atr rst step st env reader' w' (snd (step c (contents apdu)))"
proof -
  let ?n = "buffer_available apdu" and ?p = "buffer_read_pointer apdu"
  have n: "unat ?n = length (contents apdu)" using assms(2) by (simp add: unat_available)
  obtain pkt where cmd: "ccid_build_command (junk env) reader (ucast slot) CCID_CMD_XFRBLOCK None
        (Some ?p) ?n
      = Inr (Some \<lparr>cmd_slot = ucast slot, cmd_seq = ucast (ccid_seq reader), cmd_pkt = pkt\<rparr>)"
      and pkt: "buf_ok pkt" "contents pkt = ccid_packet CCID_CMD_XFRBLOCK (ucast slot)
        (ucast (ccid_seq reader)) [0, 0, 0] (contents apdu)"
    using build_command_packet [of "[0, 0, 0]" ?n ?p None "Some ?p" "junk env" reader "ucast slot"
        CCID_CMD_XFRBLOCK] n assms(2,3)
    by (auto simp: read_pointer_length read_pointer_prefix)
  have link: "token_env env (rd_dev reader) (max_message_size reader) tok st"
      "ccid_token tok atr rst step" "st w = c"
    using assms(1) by (simp_all add: reader_link_def)
  let ?r = "fst (step c (contents apdu))" and ?c' = "snd (step c (contents apdu))"
  obtain ctl where ctl: "length ctl = 3" "ctl ! 0 AND 0xC3 = 0"
      "tok c (contents pkt) = (ccid_packet CCID_RESP_DATA (ucast slot) (ucast (ccid_seq reader)) ctl ?r, ?c')"
    unfolding pkt(2) using ccid_tokenD(3) [OF link(2) assms(3)] by blast
  let ?cmd = "\<lparr>cmd_slot = ucast slot, cmd_seq = ucast (ccid_seq reader), cmd_pkt = pkt\<rparr>"
  have "length (contents pkt) < 2 ^ 31"
    using assms(3) by (simp add: pkt(2) ccid_packet_def)
  then obtain r w' where x: "ccid_xfer env reader ?cmd CCID_RESP_DATA w
      = Inr (Some r, reader\<lparr>ccid_seq := ucast (cmd_seq ?cmd) + 1\<rparr>, w')"
      and r: "response_of (CCID_RESP_DATA, cmd_slot ?cmd, cmd_seq ?cmd, ctl, ?r) r"
        "room (resp_payload r) = round8 (unat (max_message_size reader)) - 10 - length ?r" "st w' = ?c'"
    using token_xfer [OF link(1), of ?cmd w CCID_RESP_DATA ctl ?r ?c'] pkt(1) ctl link(3) assms(4)
      status_bits(1) [OF ctl(2)]
    by auto
  have p: "buf_ok (resp_payload r)" "contents (resp_payload r) = ?r"
    using r(1) by (simp_all add: response_of_def)
  have "ccid_reader_apdu_xfer env reader slot apdu w
      = Inr (Some (resp_payload r), reader\<lparr>ccid_seq := ucast (cmd_seq ?cmd) + 1\<rparr>, w')"
    using x by (simp add: ccid_reader_apdu_xfer_def cmd)
  then show ?thesis
    using link_same [OF assms(1) same_reader_seq r(3)] p r(2)
    by (auto simp: capacity_def)
qed

section \<open>What the card layer relies on\<close>

text \<open>
  A channel to a card: a state \<open>s\<close> linked to the card state \<open>c\<close>, in which an APDU is transmitted
  by letting the card take a step. The answer comes in a buffer with room for \<open>cap\<close> bytes.
\<close>

fun transmit_all :: "(buffer \<Rightarrow> 's \<Rightarrow> (buffer option \<times> 's) res) \<Rightarrow> buffer list \<Rightarrow> 's \<Rightarrow> (bytes list option \<times> 's) res"
  where
  "transmit_all transmit [] s = Inr (Some [], s)"
| "transmit_all transmit (a # as) s = rbind (transmit a s) (\<lambda>(r, s).
     (case r of None \<Rightarrow> Inr (None, s)
      | Some b \<Rightarrow> rbind (transmit_all transmit as s) (\<lambda>(rs, s). Inr (map_option ((#) (contents b)) rs, s))))"

fun answers_all :: "('c \<Rightarrow> bytes \<Rightarrow> bytes \<times> 'c) \<Rightarrow> 'c \<Rightarrow> bytes list \<Rightarrow> bytes list \<times> 'c" where
  "answers_all step c [] = ([], c)"
| "answers_all step c (a # as) =
     (case step c a of (r, c1) \<Rightarrow> (case answers_all step c1 as of (rs, c2) \<Rightarrow> (r # rs, c2)))"

locale apdu_channel =
  fixes link :: "'s \<Rightarrow> 'c \<Rightarrow> bool"
    and cap :: nat
    and step :: "'c \<Rightarrow> bytes \<Rightarrow> bytes \<times> 'c"
    and transmit :: "buffer \<Rightarrow> 's \<Rightarrow> (buffer option \<times> 's) res"
  assumes transmit: "link s c \<Longrightarrow> buf_ok a \<Longrightarrow> length (contents a) < 2 ^ 16
      \<Longrightarrow> length (fst (step c (contents a))) \<le> cap
      \<Longrightarrow> \<exists>b s'. transmit a s = Inr (Some b, s') \<and> buf_ok b \<and> contents b = fst (step c (contents a))
            \<and> room b = cap - length (contents b) \<and> link s' (snd (step c (contents a)))"
begin

lemma transmit_all_answers:
  assumes "link s c" and "\<forall>a \<in> set as. buf_ok a \<and> length (contents a) < 2 ^ 16"
    and "answers_all step c (map contents as) = (rs, c')" and "\<forall>r \<in> set rs. length r \<le> cap"
  shows "\<exists>s'. transmit_all transmit as s = Inr (Some rs, s') \<and> link s' c'"
  using assms
proof (induction as arbitrary: s c rs)
  case Nil
  then show ?case by simp
next
  case (Cons a as)
  obtain r c1 where st: "step c (contents a) = (r, c1)" by (cases "step c (contents a)")
  obtain rs1 where rs: "rs = r # rs1" "answers_all step c1 (map contents as) = (rs1, c')"
    using Cons.prems(3) st by (auto split: prod.splits)
  obtain b s1 where b: "transmit a s = Inr (Some b, s1)" "contents b = r" "link s1 c1"
    using transmit [OF Cons.prems(1), of a] Cons.prems(2,4) st rs(1) by auto
  from Cons.IH [OF b(3) _ rs(2)] Cons.prems(2,4) rs(1) b show ?case by auto
qed

end

definition reader_slot_link ::
    "nat \<Rightarrow> ('c \<Rightarrow> bytes \<Rightarrow> bytes \<times> 'c) \<Rightarrow> bytes \<Rightarrow> ('c \<Rightarrow> 'c) \<Rightarrow> ('c \<Rightarrow> bytes \<Rightarrow> bytes \<times> 'c) \<Rightarrow> ('w \<Rightarrow> 'c)
       \<Rightarrow> 'w env \<Rightarrow> ccid_reader \<Rightarrow> ccid_reader \<times> 'w \<Rightarrow> 'c \<Rightarrow> bool" where
  "reader_slot_link cap tok atr rst step st env reader0 s c \<longleftrightarrow>
     reader_link tok atr rst step st env (fst s) (snd s) c \<and> same_reader reader0 (fst s)
     \<and> capacity reader0 = cap \<and> 0 < cap"

interpretation reader_channel: apdu_channel
  "reader_slot_link cap tok atr rst step st env reader0" cap step
  "\<lambda>a s. rbind (ccid_reader_apdu_xfer env (fst s) slot a (snd s)) (\<lambda>(r, reader, w). Inr (r, (reader, w)))"
  for cap tok atr rst step st env reader0 slot
proof unfold_locales
  fix s :: "ccid_reader \<times> 'b" and c :: 'a and a :: buffer
  assume l: "reader_slot_link cap tok atr rst step st env reader0 s c" and a: "buf_ok a"
    "length (contents a) < 2 ^ 16" "length (fst (step c (contents a))) \<le> cap"
  obtain reader w where s: "s = (reader, w)" by (cases s)
  have r: "reader_link tok atr rst step st env reader w c" "same_reader reader0 reader"
      "capacity reader = cap" "0 < cap"
    using l by (auto simp: reader_slot_link_def s dest: same_readerD(4))
  then have "10 + length (fst (step c (contents a))) \<le> round8 (unat (max_message_size reader))"
    using a(3) by (simp add: capacity_def)
  from link_apdu_xfer [OF r(1) a(1,2) this, of slot] same_reader_trans [OF r(2)] r(3) l
  show "\<exists>b s'. rbind (ccid_reader_apdu_xfer env (fst s) slot a (snd s))
        (\<lambda>(r, reader, w). Inr (r, (reader, w))) = Inr (Some b, s') \<and> buf_ok b
      \<and> contents b = fst (step c (contents a)) \<and> room b = cap - length (contents b)
      \<and> reader_slot_link cap tok atr rst step st env reader0 s' (snd (step c (contents a)))"
    by (fastforce simp: s reader_slot_link_def)
qed

section \<open>An ideal token\<close>

text \<open>A token that follows the specification to the letter, and refuses other packets with an
  empty answer.\<close>

definition ideal_token ::
    "bytes \<Rightarrow> ('c \<Rightarrow> 'c) \<Rightarrow> ('c \<Rightarrow> bytes \<Rightarrow> bytes \<times> 'c) \<Rightarrow> 'c \<Rightarrow> bytes \<Rightarrow> bytes \<times> 'c" where
  "ideal_token atr rst step c pkt =
     (case decode_packet pkt of None \<Rightarrow> ([], c)
      | Some (ty, slot, seq, ctl, payload) \<Rightarrow>
          if ty = CCID_CMD_GETSLOTSTAT then (ccid_packet CCID_RESP_SLOTSTAT slot seq [0, 0, 0] [], c)
          else if ty = CCID_CMD_ICCPOWERON then (ccid_packet CCID_RESP_DATA slot seq [0, 0, 0] atr, rst c)
          else if ty = CCID_CMD_XFRBLOCK then
            (case step c payload of (r, c') \<Rightarrow> (ccid_packet CCID_RESP_DATA slot seq [0, 0, 0] r, c'))
          else ([], c))"

lemma ideal_token_ccid: "ccid_token (ideal_token atr rst step) atr rst step"
proof -
  have dec: "decode_packet (ccid_packet ty slot seq ctl pl) = Some (ty, slot, seq, ctl, pl)"
    if "length ctl = 3" "length pl < 2 ^ 16" for ty slot seq ctl pl
    using decode_ccid_packet [of ctl pl ty slot seq "[]"] that by simp
  have "ideal_token atr rst step c (ccid_packet CCID_CMD_GETSLOTSTAT slot seq [0, 0, 0] [])
      = (ccid_packet CCID_RESP_SLOTSTAT slot seq [0, 0, 0] [], c)" for c slot seq
    by (simp add: ideal_token_def dec)
  moreover have "ideal_token atr rst step c (ccid_packet CCID_CMD_ICCPOWERON slot seq [v, 0, 0] [])
      = (ccid_packet CCID_RESP_DATA slot seq [0, 0, 0] atr, rst c)" for c slot seq v
    by (simp add: ideal_token_def dec CCID_CMD_ICCPOWERON_def CCID_CMD_GETSLOTSTAT_def)
  moreover have "ideal_token atr rst step c (ccid_packet CCID_CMD_XFRBLOCK slot seq [0, 0, 0] apdu)
      = (ccid_packet CCID_RESP_DATA slot seq [0, 0, 0] (fst (step c apdu)), snd (step c apdu))"
    if "length apdu < 2 ^ 16" for c slot seq apdu
    using that by (simp add: ideal_token_def dec CCID_CMD_ICCPOWERON_def CCID_CMD_GETSLOTSTAT_def
        CCID_CMD_XFRBLOCK_def split: prod.splits)
  ultimately show ?thesis
    unfolding ccid_token_def by (intro conjI allI impI exI [of _ "[0, 0, 0]"]) simp_all
qed

lemma token_world_env:
  assumes "unat mms + 7 < 2 ^ 31" and "(word_of_int (ep_o dev) :: u8) < 0x80"
    and "(word_of_int (ep_i dev) :: u8) \<ge> 0x80"
  shows "token_env (token_world tok) dev mms tok snd"
  unfolding token_env_def
proof (intro conjI allI impI)
  show "usbfs_bulk (token_world tok)" by (rule token_world_usbfs)
  show "unat mms + 7 < 2 ^ 31" by (rule assms(1))
next
  fix w :: "bytes \<times> 'a" and pkt resp t'
  assume r: "tok (snd w) pkt = (resp, t')" "length resp \<le> round8 (unat mms)"
  let ?o = "\<lparr>bulk_ep = ucast (word_of_int (ep_o dev) :: u8), bulk_len = of_nat (length pkt),
             bulk_timeout = 10000, bulk_data = pkt\<rparr>"
  let ?fill = "replicate (round8 (unat mms)) (0xAA :: u8)"
  let ?i = "\<lparr>bulk_ep = ucast (word_of_int (ep_i dev) :: u8), bulk_len = of_nat (round8 (unat mms)),
             bulk_timeout = 10000, bulk_data = ?fill\<rparr>"
  have "\<not> (ucast (word_of_int (ep_o dev) :: u8) :: u32) \<ge> 0x80"
      "(ucast (word_of_int (ep_i dev) :: u8) :: u32) \<ge> 0x80"
    using assms(2,3) by (simp_all add: word_le_nat_alt word_less_nat_alt)
  then have "token_bulk tok (dev_fd dev) ?o w = (int (length pkt), ?o, resp, t')"
      "token_bulk tok (dev_fd dev) ?i (resp, t')
       = (int (length resp), ?i\<lparr>bulk_data := resp @ drop (length resp) ?fill\<rparr>, [], t')"
    using r by (simp_all add: token_bulk_def)
  then show "\<exists>rc b w1 rc' b' w2 rest.
      ioctl_bulk (token_world tok) (dev_fd dev) ?o w = (rc, b, w1) \<and> 0 \<le> rc
      \<and> ioctl_bulk (token_world tok) (dev_fd dev) ?i w1 = (rc', b', w2)
      \<and> 0 \<le> rc' \<and> bulk_data b' = resp @ rest \<and> snd w2 = t'"
    by simp
qed

lemma ideal_link:
  assumes "unat (max_message_size reader) + 7 < 2 ^ 31" and "(word_of_int (ep_o (rd_dev reader)) :: u8) < 0x80"
    and "(word_of_int (ep_i (rd_dev reader)) :: u8) \<ge> 0x80"
  shows "reader_link (ideal_token atr rst step) atr rst step snd
           (token_world (ideal_token atr rst step)) reader w (snd w)"
  by (simp add: reader_link_def token_world_env [OF assms] ideal_token_ccid)

section \<open>Properties\<close>

text \<open>A device whose state is the list of the packets it still has to deliver.\<close>

definition packet_env :: "bytes list env" where
  "packet_env = piece_env\<lparr>ioctl_bulk := (\<lambda>_ b w.
     if bulk_ep b \<ge> 0x80
     then (case w of [] \<Rightarrow> (- 1, b, [])
           | p # ps \<Rightarrow> (int (length p),
               b\<lparr>bulk_data := take (length (bulk_data b)) (p @ drop (length p) (bulk_data b))\<rparr>, ps))
     else (int (length (bulk_data b)), b, w))\<rparr>"

definition demo_rd :: ccid_reader where
  "demo_rd = \<lparr>rd_dev = dev_zero\<lparr>ep_o := 2, ep_i := 0x82\<rparr>, rd_ccid = ccid_zero, max_message_size = 16,
     supported_protocols = 2, auto_voltage = True, supported_voltages = 7, current_slot = 0, ccid_seq = 7\<rparr>"

definition demo_cmd :: ccid_command where
  "demo_cmd = \<lparr>cmd_slot = 0, cmd_seq = 7,
     cmd_pkt = buffer_init_read (ccid_packet CCID_CMD_GETSLOTSTAT 0 7 [0, 0, 0] []) 10\<rparr>"

text \<open>A request for more time, then the answer; both are filled up to 16 bytes.\<close>

definition demo_wait :: bytes where
  "demo_wait = ccid_packet CCID_RESP_SLOTSTAT 0 7 [0x80, 0, 0] []"

definition demo_answer :: bytes where
  "demo_answer = ccid_packet CCID_RESP_SLOTSTAT 0 7 [0, 0, 0] []"

theorem ccid_xfer_matches_witness:
  "\<exists>r reader' w'. ccid_xfer packet_env demo_rd demo_cmd CCID_RESP_SLOTSTAT [demo_wait, demo_answer]
      = Inr (Some r, reader', w')
     \<and> resp_slot r = 0 \<and> resp_seq r = 7 \<and> resp_type r = CCID_RESP_SLOTSTAT \<and> ccid_seq reader' = 8"
proof -
  have "case ccid_xfer packet_env demo_rd demo_cmd CCID_RESP_SLOTSTAT [demo_wait, demo_answer] of
      Inl _ \<Rightarrow> False | Inr (r, _) \<Rightarrow> r \<noteq> None"
    by code_simp
  then obtain r reader' w' where x: "ccid_xfer packet_env demo_rd demo_cmd CCID_RESP_SLOTSTAT
      [demo_wait, demo_answer] = Inr (Some r, reader', w')"
    by (auto split: sum.splits prod.splits)
  from ccid_xfer_matches [OF this] have m: "resp_slot r = 0" "resp_seq r = 7"
      "resp_type r = CCID_RESP_SLOTSTAT" "ccid_seq reader' = 8"
    by (simp_all add: demo_cmd_def)
  show ?thesis using x m by blast
qed

lemma demo_recv:
  assumes "length p = 10"
  shows "\<exists>b. uusb_recv packet_env (rd_dev demo_rd) (ucast (max_message_size demo_rd)) 10000 (p # ps)
      = Inr (Some b, ps) \<and> buf_ok b \<and> contents b = p @ replicate 6 0xAA"
proof -
  have usb: "usbfs_bulk packet_env"
    by (auto simp: usbfs_bulk_def packet_env_def split: list.splits)
  have n: "round8 16 = 16" "unat (ucast (max_message_size demo_rd) :: u64) = 16"
    by (simp_all add: round8_def demo_rd_def)
  have b: "ioctl_bulk packet_env (dev_fd (rd_dev demo_rd))
      \<lparr>bulk_ep = ucast (word_of_int (ep_i (rd_dev demo_rd)) :: u8), bulk_len = of_nat (round8 16),
       bulk_timeout = ucast (10000 :: u64), bulk_data = replicate (round8 16) 0xAA\<rparr> (p # ps)
    = (10, \<lparr>bulk_ep = 0x82, bulk_len = 16, bulk_timeout = 10000, bulk_data = p @ replicate 6 0xAA\<rparr>, ps)"
    using assms by (simp add: packet_env_def demo_rd_def n)
  show ?thesis
    using uusb_recv_ok [OF usb, where maxlen = "ucast (max_message_size demo_rd)", unfolded n(2), OF _ b] by auto
qed

lemma demo_receives:
  "receives packet_env (rd_dev demo_rd) (max_message_size demo_rd) [demo_wait, demo_answer]
     ([demo_wait @ replicate 6 0xAA] @ [demo_answer @ replicate 6 0xAA]) []"
proof -
  have "length demo_wait = 10" "length demo_answer = 10"
    by (simp_all add: demo_wait_def demo_answer_def ccid_packet_def)
  then show ?thesis
    using demo_recv [of demo_wait "[demo_answer]"] demo_recv [of demo_answer "[]"]
    by (auto intro!: receives_Cons receives_Nil)
qed

theorem ccid_xfer_classifies_witness:
  "\<exists>r. ccid_xfer packet_env demo_rd demo_cmd CCID_RESP_SLOTSTAT [demo_wait, demo_answer]
      = Inr (Some r, demo_rd\<lparr>ccid_seq := 8\<rparr>, []) \<and> contents (resp_payload r) = []"
proof -
  have ok: "buf_ok (cmd_pkt demo_cmd)"
    by (simp add: demo_cmd_def buffer_init_read_ok ccid_packet_def)
  have c: "classify (cmd_slot demo_cmd) (cmd_seq demo_cmd) CCID_RESP_SLOTSTAT (demo_wait @ replicate 6 0xAA) = Skip"
      "classify (cmd_slot demo_cmd) (cmd_seq demo_cmd) CCID_RESP_SLOTSTAT (demo_answer @ replicate 6 0xAA)
        = Accept [0, 0, 0] []"
    by code_simp+
  have s: "uusb_send packet_env (rd_dev demo_rd) (cmd_pkt demo_cmd) [demo_wait, demo_answer]
      = Inr (True, [demo_wait, demo_answer])"
    by code_simp
  have "ucast (cmd_seq demo_cmd) + 1 = (8 :: u32)" by code_simp
  with ccid_xfer_classifies [OF ok s demo_receives, of CCID_RESP_SLOTSTAT] c
  show ?thesis by (auto simp: response_of_def)
qed

text \<open>C23: A packet ccid_build_command builds is decoded by the reference decoder to the message type,
  slot, sequence number of the reader, control bytes (zero without any) and payload it was built
  from.\<close>

theorem build_command_roundtrip:
  assumes "case ctl_data of None \<Rightarrow> ctl = [0, 0, 0] | Some c \<Rightarrow> c = ctl" and "length ctl = 3"
    and "unat len = length payload" and "unat len + 23 < 2 ^ 32"
  shows "\<exists>command. ccid_build_command jk reader slot cmd ctl_data (Some payload) len = Inr (Some command)
    \<and> cmd_slot command = slot \<and> cmd_seq command = ucast (ccid_seq reader) \<and> buf_ok (cmd_pkt command)
    \<and> decode_packet (contents (cmd_pkt command)) = Some (cmd, slot, ucast (ccid_seq reader), ctl, payload)"
proof -
  have "ctl_data = Some ctl \<or> ctl_data = None \<and> ctl = [0, 0, 0]"
    using assms(1) by (auto split: option.splits)
  from build_command_packet [OF assms(2) _ assms(4) this, of payload "Some payload" jk reader slot cmd]
  obtain pkt where p: "ccid_build_command jk reader slot cmd ctl_data (Some payload) len
      = Inr (Some \<lparr>cmd_slot = slot, cmd_seq = ucast (ccid_seq reader), cmd_pkt = pkt\<rparr>)" "buf_ok pkt"
      "contents pkt = ccid_packet cmd slot (ucast (ccid_seq reader)) ctl payload"
    using assms(3) by auto
  moreover have "length payload < 2 ^ 32" using assms(3,4) by simp
  ultimately show ?thesis
    using decode_ccid_packet [OF assms(2), of payload cmd slot "ucast (ccid_seq reader)" "[]"] by simp
qed

theorem build_command_roundtrip_witness:
  "\<exists>command. ccid_build_command (\<lambda>_. 0) demo_rd 0 CCID_CMD_XFRBLOCK None (Some [0, 0xA4, 4, 0]) 4
      = Inr (Some command) \<and> cmd_seq command = 7
    \<and> decode_packet (contents (cmd_pkt command)) = Some (CCID_CMD_XFRBLOCK, 0, 7, [0, 0, 0], [0, 0xA4, 4, 0])"
  using build_command_roundtrip [where ctl_data = None and ctl = "[0, 0, 0]" and len = 4
      and payload = "[0, 0xA4, 4, 0]" and jk = "\<lambda>_. 0" and reader = demo_rd and slot = 0
      and cmd = CCID_CMD_XFRBLOCK]
  by (auto simp: demo_rd_def)

lemma and_bit:
  fixes f :: u32
  shows "f AND 0x2 = (if bit f 1 then 0x2 else 0)" and "f AND 0x4 = (if bit f 2 then 0x4 else 0)"
    and "f AND 0x8 = (if bit f 3 then 0x8 else 0)" and "f AND 0x40 = (if bit f 6 then 0x40 else 0)"
proof -
  have e: "f AND 2 ^ n = (if bit f n then 2 ^ n else 0)" for n
    by (rule bit_word_eqI) (auto simp: bit_and_iff bit_exp_iff)
  show "f AND 0x2 = (if bit f 1 then 0x2 else 0)" "f AND 0x4 = (if bit f 2 then 0x4 else 0)"
      "f AND 0x8 = (if bit f 3 then 0x8 else 0)" "f AND 0x40 = (if bit f 6 then 0x40 else 0)"
    using e [of 1] e [of 2] e [of 3] e [of 6] by simp_all
qed

theorem set_features_decides:
  "ccid_reader_set_features env reader ccid =
    (if dwFeatures ccid AND 0x60000 = 0 then Inr (False, reader)
     else if opt_debug env \<noteq> 0 then Inl Bad_Format
     else Inr (dwFeatures ccid AND 0x42 = 0x42,
               if dwFeatures ccid AND 0xC = 0 then reader else reader\<lparr>auto_voltage := True\<rparr>))"
proof -
  let ?f = "dwFeatures ccid"
  have "?f AND 0x42 = ?f AND 0x2 OR ?f AND 0x40" "?f AND 0xC = ?f AND 0x4 OR ?f AND 0x8"
    by (simp_all flip: bit.conj_disj_distrib)
  then show ?thesis
    by (auto simp: ccid_reader_set_features_def Let_def and_bit)
qed

theorem dump_overrun:
  "\<exists>b. uusb_recv packet_env (rd_dev demo_rd) 16 10000 [0x80 # 100 # replicate 8 0] = Inr (Some b, [])
     \<and> buf_ok b \<and> ccid_dump_response b = Inl Out_Of_Bounds"
proof -
  have "max_message_size demo_rd = 16" by (simp add: demo_rd_def)
  then obtain b where b: "uusb_recv packet_env (rd_dev demo_rd) 16 10000 [0x80 # 100 # replicate 8 0] = Inr (Some b, [])"
      "buf_ok b"
    using demo_recv [of "0x80 # 100 # replicate 8 0" "[]"] by auto
  have "case uusb_recv packet_env (rd_dev demo_rd) 16 10000 [0x80 # 100 # replicate 8 0] of
      Inr (Some b, _) \<Rightarrow> ccid_dump_response b = Inl Out_Of_Bounds | _ \<Rightarrow> False"
    by code_simp
  with b show ?thesis by auto
qed

text \<open>C17: A sequence of ccid_reader_apdu_xfer calls on a reader linked to a card returns, in order,
  the answers the card gives to the sequence of APDUs, and leaves the reader linked to the card
  in its final state.\<close>

theorem reader_session:
  assumes "reader_link tok atr rst step st env reader w c" and "10 < round8 (unat (max_message_size reader))"
    and "\<forall>a \<in> set as. buf_ok a \<and> length (contents a) < 2 ^ 16"
    and "answers_all step c (map contents as) = (rs, c')" and "\<forall>r \<in> set rs. length r \<le> capacity reader"
  shows "\<exists>reader' w'. transmit_all (\<lambda>a s. rbind (ccid_reader_apdu_xfer env (fst s) slot a (snd s))
        (\<lambda>(r, reader, w). Inr (r, (reader, w)))) as (reader, w) = Inr (Some rs, (reader', w'))
    \<and> reader_link tok atr rst step st env reader' w' c'"
proof -
  have "reader_slot_link (capacity reader) tok atr rst step st env reader (reader, w) c"
    using assms(1,2) by (simp add: reader_slot_link_def) (simp add: capacity_def)
  from reader_channel.transmit_all_answers [OF this assms(3,4,5), of slot] show ?thesis
    by (auto simp: reader_slot_link_def)
qed

text \<open>A card that counts its commands.\<close>

definition counting_card :: "nat \<Rightarrow> bytes \<Rightarrow> bytes \<times> nat" where
  "counting_card c apdu = ([of_nat c, 7], Suc c)"

theorem reader_session_witness:
  "\<exists>reader' w'. transmit_all (\<lambda>a s. rbind (ccid_reader_apdu_xfer
        (token_world (ideal_token [] (\<lambda>c. c) counting_card)) (fst s) 0 a (snd s))
        (\<lambda>(r, reader, w). Inr (r, (reader, w))))
        [buffer_init_read [0, 0xA4] 2, buffer_init_read [0, 0xCB] 2] (demo_rd, ([], 0))
      = Inr (Some [[0, 7], [1, 7]], (reader', w')) \<and> snd w' = 2"
proof -
  let ?as = "[buffer_init_read [0, 0xA4] 2, buffer_init_read [0, 0xCB] 2]"
  have link: "reader_link (ideal_token [] (\<lambda>c. c) counting_card) [] (\<lambda>c. c) counting_card snd
      (token_world (ideal_token [] (\<lambda>c. c) counting_card)) demo_rd ([], 0) 0"
    using ideal_link [of demo_rd "[]" "\<lambda>c. c" counting_card "([], 0)"] by (simp add: demo_rd_def)
  have "answers_all counting_card 0 (map contents ?as) = ([[0, 7], [1, 7]], 2)"
    by (simp add: counting_card_def numeral_2_eq_2)
  moreover have "round8 (unat (max_message_size demo_rd)) = 16" "capacity demo_rd = 6"
    by (simp_all add: demo_rd_def capacity_def round8_def)
  moreover have "\<forall>a \<in> set ?as. buf_ok a \<and> length (contents a) < 2 ^ 16"
    by (simp add: buffer_init_read_ok contents_init)
  ultimately show ?thesis
    using reader_session [OF link, of ?as "[[0, 7], [1, 7]]" 2 0] by (auto simp: reader_link_def)
qed

end
