(* ===== verification/Disabled_Code.thy ===== *)
theory Disabled_Code
  imports Reader
begin

text \<open>
  Code the repository has and the program does not run: the protocol parameters of reader.c
  (\<^verbatim>\<open>#ifdef NOT_NEEDED\<close>), the UTF-16 conversions of bufparser.h (\<^verbatim>\<open>#ifdef WITH_UTF16\<close>), and the
  inline functions of util.h, of which the string helpers have no caller and the messages no
  effect on the run. It is modelled as it would behave if it were enabled.
\<close>

section \<open>util.h\<close>

text \<open>
  The text a message function appends to the standard error stream, for a formatted message;
  \<open>fatal_msg\<close> has the exit status besides.
\<close>

definition debug :: "u32 \<Rightarrow> string \<Rightarrow> string" where
  "debug level msg = (if level \<noteq> 0 then ''::: '' @ msg else [])"

definition debug2 :: "u32 \<Rightarrow> string \<Rightarrow> string" where
  "debug2 level msg = (if level > 1 then ''::: '' @ msg else [])"

definition infomsg :: "string \<Rightarrow> string" where
  "infomsg msg = msg"

definition warning :: "string \<Rightarrow> string" where
  "warning msg = ''Warning: '' @ msg"

definition error_msg :: "string \<Rightarrow> string" where
  "error_msg msg = ''Error: '' @ msg"

definition fatal_msg :: "string \<Rightarrow> string \<times> nat" where
  "fatal_msg msg = (''Fatal: '' @ msg, 2)"

text \<open>A string variable is \<open>None\<close> where it is \<^verbatim>\<open>NULL\<close>.\<close>

definition drop_string :: "string option \<Rightarrow> string option" where
  "drop_string var = (case var of Some _ \<Rightarrow> None | None \<Rightarrow> var)"

definition assign_string :: "string option \<Rightarrow> string option \<Rightarrow> string option" where
  "assign_string var str =
     (let var = drop_string var in case str of Some s \<Rightarrow> Some s | None \<Rightarrow> var)"

lemma assign_string_eq: "assign_string var str = str"
  by (simp add: assign_string_def drop_string_def Let_def split: option.splits)

text \<open>A dump through \<^verbatim>\<open>debug2\<close>, as reader.c makes it, is silent below the second debug level.\<close>

lemma dump_silent: "level \<le> 1 \<Longrightarrow> concat (map (debug2 level) ls) = []"
  by (simp add: debug2_def leD)

section \<open>Protocol parameters\<close>

definition CCID_CMD_SETPARAMS :: u8 where "CCID_CMD_SETPARAMS = 0x61"
definition CCID_CMD_GETPARAMS :: u8 where "CCID_CMD_GETPARAMS = 0x6C"
definition CCID_RESP_PARAMS :: u8 where "CCID_RESP_PARAMS = 0x82"

text \<open>The command is used without a look at \<^verbatim>\<open>NULL\<close>. The result is the value of the function and
  the caller's \<^verbatim>\<open>parambuf\<close>.\<close>

definition ccid_reader_getparams ::
    "'w env \<Rightarrow> ccid_reader \<Rightarrow> u32 \<Rightarrow> bytes \<Rightarrow> u32 \<Rightarrow> 'w \<Rightarrow> (int \<times> bytes \<times> ccid_reader \<times> 'w) res" where
  "ccid_reader_getparams env reader slot parambuf size0 w =
     rbind (ccid_build_simple_packet (junk env) reader slot CCID_CMD_GETPARAMS) (\<lambda>cmd.
       case cmd of None \<Rightarrow> Inl Null_Deref
       | Some cmd \<Rightarrow> rbind (ccid_xfer env reader cmd CCID_RESP_PARAMS w) (\<lambda>(r, reader, w).
           case r of None \<Rightarrow> Inr (- 1, parambuf, reader, w)
           | Some resp \<Rightarrow>
               (let len0 = buffer_available (resp_payload resp);
                    len = (if len0 > size0 then size0 else len0)
                in rbind (buffer_get (resp_payload resp) len) (\<lambda>(d, _).
                     case d of None \<Rightarrow> Inr (- 1, parambuf, reader, w)
                     | Some bs \<Rightarrow> rbind (mem_write parambuf 0 bs) (\<lambda>p. Inr (sint len, p, reader, w))))))"

definition ccid_reader_setparams ::
    "'w env \<Rightarrow> ccid_reader \<Rightarrow> u32 \<Rightarrow> u32 \<Rightarrow> bytes \<Rightarrow> u32 \<Rightarrow> 'w \<Rightarrow> (bool \<times> ccid_reader \<times> 'w) res" where
  "ccid_reader_setparams env reader slot t parambuf len w =
     (let ctl = [ucast t, 0, 0] in
      rbind (ccid_build_command (junk env) reader (ucast slot) CCID_CMD_GETPARAMS (Some ctl) (Some parambuf) len) (\<lambda>cmd.
        case cmd of None \<Rightarrow> Inl Null_Deref
        | Some cmd \<Rightarrow> rbind (ccid_xfer env reader cmd CCID_RESP_PARAMS w) (\<lambda>(r, reader, w).
            Inr (r \<noteq> None, reader, w))))"

definition ccid_reader_select_protocol ::
    "'w env \<Rightarrow> ccid_reader \<Rightarrow> u32 \<Rightarrow> u32 \<Rightarrow> 'w \<Rightarrow> (bool \<times> ccid_reader \<times> 'w) res" where
  "ccid_reader_select_protocol env reader slot t w =
     (let parambuf = replicate 7 0 in
      rbind (ccid_reader_getparams env reader slot parambuf 7 w) (\<lambda>(len, parambuf, reader, w).
        if len < 0 then Inr (False, reader, w)
        else ccid_reader_setparams env reader slot t parambuf (if t = 0 then 5 else 7) w))"

text \<open>
  Although its name says otherwise, the second half never sends SET PARAMETERS: the packet is
  another GET PARAMETERS, with the new parameters as payload.
\<close>

lemma setparams_asks:
  assumes "unat len \<le> length parambuf" and "unat len + 23 < 2 ^ 32"
  shows "\<exists>cmd. decode_packet (contents (cmd_pkt cmd))
        = Some (CCID_CMD_GETPARAMS, ucast slot, ucast (ccid_seq reader), [ucast t, 0, 0], take (unat len) parambuf)
    \<and> ccid_reader_setparams env reader slot t parambuf len w
        = rbind (ccid_xfer env reader cmd CCID_RESP_PARAMS w) (\<lambda>(r, reader, w). Inr (r \<noteq> None, reader, w))"
proof -
  let ?p = "take (unat len) parambuf"
  obtain pkt where pkt: "ccid_build_command (junk env) reader (ucast slot) CCID_CMD_GETPARAMS
        (Some [ucast t, 0, 0]) (Some parambuf) len
      = Inr (Some \<lparr>cmd_slot = ucast slot, cmd_seq = ucast (ccid_seq reader), cmd_pkt = pkt\<rparr>)"
      "contents pkt = ccid_packet CCID_CMD_GETPARAMS (ucast slot) (ucast (ccid_seq reader)) [ucast t, 0, 0] ?p"
    using build_command_packet [of "[ucast t, 0, 0]" len parambuf "Some [ucast t, 0, 0]" "Some parambuf"
        "junk env" reader "ucast slot" CCID_CMD_GETPARAMS] assms
    by auto
  have "length ?p < 2 ^ 32" using assms(2) by simp
  from decode_ccid_packet [OF _ this, of "[ucast t, 0, 0]" CCID_CMD_GETPARAMS "ucast slot"
      "ucast (ccid_seq reader)" "[]"] pkt
  show ?thesis
    by (intro exI [of _ "\<lparr>cmd_slot = ucast slot, cmd_seq = ucast (ccid_seq reader), cmd_pkt = pkt\<rparr>"])
      (simp add: ccid_reader_setparams_def)
qed

lemma parameter_commands_differ: "CCID_CMD_GETPARAMS \<noteq> CCID_CMD_SETPARAMS"
  by (simp add: CCID_CMD_GETPARAMS_def CCID_CMD_SETPARAMS_def)

text \<open>The parameters that are read never exceed the caller's buffer.\<close>

lemma getparams_fits:
  assumes "ccid_reader_getparams env reader slot parambuf size0 w = Inr (n, p, reader', w')"
  shows "length p = length parambuf"
  using assms
  by (auto simp: ccid_reader_getparams_def Let_def rbind_eq_Inr split: option.splits) (erule mem_write_length)

section \<open>UTF-16\<close>

text \<open>
  The two conversions are declared in util.h and defined nowhere; they are parameters, functions
  of the input and of the block the output goes to. \<open>conv\<close> reports success and what the block
  then holds.
\<close>

type_synonym converter = "bytes \<Rightarrow> bytes \<Rightarrow> bool \<times> bytes"

text \<open>\<^verbatim>\<open>strdup\<close> reads up to the first zero.\<close>

definition c_string :: "bytes \<Rightarrow> bytes res" where
  "c_string block = (if 0 \<in> set block then Inr (takeWhile (\<lambda>c. c \<noteq> 0) block) else Inl Out_Of_Bounds)"

definition buffer_get_utf16le ::
    "converter \<Rightarrow> (nat \<Rightarrow> u8) \<Rightarrow> buffer \<Rightarrow> u64 \<Rightarrow> (bytes option \<times> buffer) res" where
  "buffer_get_utf16le conv jk bp len =
     (let utf16 = malloc_block jk (unat (2 * (len + 1))) in
      rbind (buffer_get bp (ucast (2 * len))) (\<lambda>(d, bp).
        case d of None \<Rightarrow> Inr (None, bp)
        | Some bs \<Rightarrow> rbind (mem_write utf16 0 bs) (\<lambda>utf16.
            rbind (mem_read utf16 0 (unat (2 * len))) (\<lambda>src.
              (case conv src (malloc_block jk (unat (4 * (len + 1)))) of (ok, utf8) \<Rightarrow>
                 if ok then rbind (c_string utf8) (\<lambda>s. Inr (Some s, bp)) else Inr (None, bp))))))"

text \<open>The length of the output is taken to be twice that of the input, whatever the input is.\<close>

definition buffer_put_utf16le ::
    "converter \<Rightarrow> (nat \<Rightarrow> u8) \<Rightarrow> buffer \<Rightarrow> bytes \<Rightarrow> (bool \<times> u32 option \<times> buffer) res" where
  "buffer_put_utf16le conv jk bp utf8 =
     (let len = of_nat (length utf8) :: u32 in
      (case conv utf8 (malloc_block jk (unat (2 * len))) of (ok, utf16) \<Rightarrow>
         rbind (if ok then buffer_put bp utf16 (2 * len) else Inr (False, bp)) (\<lambda>(ok, bp).
           Inr (ok, if ok then Some (2 * len) else None, bp))))"

lemma put_utf16_appends:
  assumes "conv utf8 (malloc_block jk (2 * length utf8)) = (True, utf16)" and "length utf16 = 2 * length utf8"
    and "buf_ok bp" and "length utf16 \<le> room bp" and "length utf16 < 2 ^ 31"
  shows "\<exists>bp'. buffer_put_utf16le conv jk bp utf8 = Inr (True, Some (2 * of_nat (length utf8)), bp')
    \<and> contents bp' = contents bp @ utf16"
proof -
  have n: "unat (2 * of_nat (length utf8) :: u32) = length utf16"
    using assms(2,5) by (simp add: unat_word_ariths unat_of_nat take_bit_nat_eq_self)
  then obtain bp' where "buffer_put bp utf16 (2 * of_nat (length utf8)) = Inr (True, bp')"
      "contents bp' = contents bp @ utf16"
    using assms(3,4) by (auto simp: buf_simps)
  then show ?thesis
    using assms(1) n by (simp add: buffer_put_utf16le_def Let_def assms(2))
qed

text \<open>What comes out of the buffer is converted, and its two bytes per unit are gone from the buffer.\<close>

lemma get_utf16_takes:
  assumes "buf_ok bp" and "contents bp = bs @ rest" and "length bs = 2 * n" and "n < 2 ^ 30"
    and "conv bs (malloc_block jk (4 * (n + 1))) = (True, s @ 0 # pad)" and "0 \<notin> set s"
  shows "\<exists>bp'. buffer_get_utf16le conv jk bp (of_nat n) = Inr (Some s, bp') \<and> contents bp' = rest"
proof -
  have u: "unat (of_nat n :: u64) = n" using assms(4) by (simp add: unat_of_nat_u64)
  have w: "unat (2 * (of_nat n + 1) :: u64) = 2 * (n + 1)" "unat (4 * (of_nat n + 1) :: u64) = 4 * (n + 1)"
      "unat (2 * of_nat n :: u64) = 2 * n" "unat (ucast (2 * of_nat n :: u64) :: u32) = 2 * n"
    using assms(4) u by (simp_all add: unat_word_ariths unat_ucast_64_32)
  obtain bp' where "buffer_get bp (ucast (2 * of_nat n :: u64)) = Inr (Some bs, bp')" "contents bp' = rest"
    using assms(1-3) w(4) by (auto simp: buf_simps)
  moreover have "c_string (s @ 0 # pad) = Inr s"
    using assms(6) by (simp add: c_string_def) (induction s; auto)
  ultimately show ?thesis
    using assms(3,5) w by (simp add: buffer_get_utf16le_def Let_def mem_write_in mem_read_in)
qed

end
