(* ===== verification/Scard.thy ===== *)
theory Scard
  imports Reader
begin

text \<open>
  scard.c and scard.h: card drivers and their registration, the card object, APDUs and their
  exchange with the chaining of long responses; and \<^verbatim>\<open>ccid_reader_identify_card\<close> of reader.c,
  which ties the reader to the registry.
\<close>

section \<open>ATRs\<close>

fun atr_octets :: "bytes \<Rightarrow> nat \<Rightarrow> nat \<Rightarrow> string res" where
  "atr_octets data i 0 = Inr []"
| "atr_octets data i (Suc n) =
     rbind (mem_get data i) (\<lambda>b. rbind (atr_octets data (Suc i) n) (\<lambda>rest.
       Inr ((if i \<noteq> 0 then '':'' else []) @ hex2 b @ rest)))"

definition ifd_atrbuf_to_string :: "ifd_atrbuf \<Rightarrow> string option res" where
  "ifd_atrbuf_to_string atr =
     (if unat (atr_len atr) > IFD_MAX_ATR_LEN then Inr None
      else rbind (atr_octets (atr_data atr) 0 (unat (atr_len atr))) (\<lambda>s. Inr (Some s)))"

definition ifd_atrbuf_equal :: "ifd_atrbuf \<Rightarrow> ifd_atrbuf \<Rightarrow> bool res" where
  "ifd_atrbuf_equal atr1 atr2 =
     (if atr_len atr1 \<noteq> atr_len atr2 then Inr False
      else rbind (mem_read (atr_data atr1) 0 (unat (atr_len atr1))) (\<lambda>d1.
           rbind (mem_read (atr_data atr2) 0 (unat (atr_len atr1))) (\<lambda>d2. Inr (d1 = d2))))"

section \<open>Drivers and cards\<close>

text \<open>
  A pointer to a driver structure is its address; the structures themselves are a table from
  addresses to records of function pointers, where \<open>None\<close> is a null pointer. The reader a card
  points to is only reached through the card once the card exists, so the card holds it.
\<close>

type_synonym driver_ref = nat

record ifd_card =
  card_name :: string
  card_atr :: ifd_atrbuf
  card_driver :: driver_ref
  card_variant :: u32
  card_reader :: ccid_reader
  card_slot :: u32
  pin_required :: bool
  key_slot :: u8

record 'w ifd_card_driver =
  set_option_fn :: "(ifd_card \<Rightarrow> string \<Rightarrow> string option \<Rightarrow> bool \<times> ifd_card) option"
  connect_fn :: "('w env \<Rightarrow> ifd_card \<Rightarrow> 'w \<Rightarrow> (bool \<times> ifd_card \<times> 'w) res) option"
  verify_fn :: "('w env \<Rightarrow> ifd_card \<Rightarrow> bytes option \<Rightarrow> u64 \<Rightarrow> 'w
      \<Rightarrow> (bool \<times> nat option \<times> ifd_card \<times> 'w) res) option"
  decipher_fn :: "('w env \<Rightarrow> ifd_card \<Rightarrow> buffer \<Rightarrow> 'w \<Rightarrow> (buffer option \<times> ifd_card \<times> 'w) res) option"

type_synonym 'w drivers = "driver_ref \<Rightarrow> 'w ifd_card_driver"

record registration =
  reg_atr :: ifd_atrbuf
  reg_name :: string
  reg_driver :: driver_ref
  reg_variant :: u32

definition ifd_register_card_driver ::
    "registration list \<Rightarrow> ifd_atrbuf \<Rightarrow> string \<Rightarrow> driver_ref \<Rightarrow> u32 \<Rightarrow> registration list" where
  "ifd_register_card_driver regs atr name driver variant =
     regs @ [\<lparr>reg_atr = atr, reg_name = name, reg_driver = driver, reg_variant = variant\<rparr>]"

text \<open>\<open>calloc\<close> sets the remaining fields, the key slot among them, to zero.\<close>

definition ifd_card_alloc ::
    "ifd_atrbuf \<Rightarrow> string \<Rightarrow> driver_ref \<Rightarrow> u32 \<Rightarrow> ccid_reader \<Rightarrow> u32 \<Rightarrow> ifd_card" where
  "ifd_card_alloc atr name driver variant reader slot =
     \<lparr>card_name = name, card_atr = atr, card_driver = driver, card_variant = variant,
      card_reader = reader, card_slot = slot, pin_required = True, key_slot = 0\<rparr>"

fun find_registration :: "ifd_atrbuf \<Rightarrow> registration list \<Rightarrow> registration option res" where
  "find_registration atr [] = Inr None"
| "find_registration atr (reg # regs) =
     rbind (ifd_atrbuf_to_string (reg_atr reg)) (\<lambda>_.
       rbind (ifd_atrbuf_equal atr (reg_atr reg)) (\<lambda>eq.
         if eq then Inr (Some reg) else find_registration atr regs))"

definition ifd_create_card ::
    "registration list \<Rightarrow> ifd_atrbuf \<Rightarrow> ccid_reader \<Rightarrow> u32 \<Rightarrow> ifd_card option res" where
  "ifd_create_card regs atr reader slot =
     rbind (ifd_atrbuf_to_string atr) (\<lambda>_.
       rbind (find_registration atr regs) (\<lambda>r.
         Inr (map_option (\<lambda>reg. ifd_card_alloc atr (reg_name reg) (reg_driver reg)
                (reg_variant reg) reader slot) r)))"

text \<open>reader.c; the ATR buffer is an uninitialised local variable.\<close>

definition ccid_reader_identify_card ::
    "'w env \<Rightarrow> registration list \<Rightarrow> ccid_reader \<Rightarrow> u32 \<Rightarrow> 'w \<Rightarrow> (ifd_card option \<times> 'w) res" where
  "ccid_reader_identify_card env regs reader slot w =
     (if slot \<noteq> current_slot reader then Inr (None, w)
      else
        (let atr = \<lparr>atr_len = 0, atr_data = malloc_block (junk env) IFD_MAX_ATR_LEN\<rparr> in
         rbind (ccid_reset_card env reader slot atr w) (\<lambda>(ok, atr, reader, w).
           if \<not> ok then Inr (None, w)
           else rbind (ifd_create_card regs atr reader slot) (\<lambda>crd. Inr (crd, w)))))"

section \<open>Dispatch to the driver\<close>

definition ifd_card_set_option :: "'w drivers \<Rightarrow> ifd_card \<Rightarrow> string \<Rightarrow> bool \<times> ifd_card" where
  "ifd_card_set_option drivers crd option =
     (case set_option_fn (drivers (card_driver crd)) of None \<Rightarrow> (False, crd)
      | Some f \<Rightarrow> (case split_at CHR ''='' option of (key, value) \<Rightarrow> f crd key value))"

definition ifd_card_connect :: "'w drivers \<Rightarrow> 'w env \<Rightarrow> ifd_card \<Rightarrow> 'w \<Rightarrow> (bool \<times> ifd_card \<times> 'w) res" where
  "ifd_card_connect drivers env crd w =
     (case connect_fn (drivers (card_driver crd)) of None \<Rightarrow> Inr (True, crd, w)
      | Some f \<Rightarrow> f env crd w)"

text \<open>The second component is what is stored through \<^verbatim>\<open>tries_left\<close>, if anything is.\<close>

definition ifd_card_verify ::
    "'w drivers \<Rightarrow> 'w env \<Rightarrow> ifd_card \<Rightarrow> bytes option \<Rightarrow> u64 \<Rightarrow> 'w \<Rightarrow> (bool \<times> nat option \<times> ifd_card \<times> 'w) res"
  where
  "ifd_card_verify drivers env crd pin pin_len w =
     (case verify_fn (drivers (card_driver crd)) of None \<Rightarrow> Inr (False, None, crd, w)
      | Some f \<Rightarrow> f env crd pin pin_len w)"

definition ifd_card_decipher ::
    "'w drivers \<Rightarrow> 'w env \<Rightarrow> ifd_card \<Rightarrow> buffer \<Rightarrow> 'w \<Rightarrow> (buffer option \<times> ifd_card \<times> 'w) res" where
  "ifd_card_decipher drivers env crd ciphertext w =
     (case decipher_fn (drivers (card_driver crd)) of None \<Rightarrow> Inr (None, crd, w)
      | Some f \<Rightarrow> f env crd ciphertext w)"

section \<open>APDUs\<close>

definition ifd_build_apdu ::
    "(nat \<Rightarrow> u8) \<Rightarrow> u8 \<Rightarrow> u8 \<Rightarrow> u8 \<Rightarrow> u8 \<Rightarrow> bytes option \<Rightarrow> u32 \<Rightarrow> buffer option res" where
  "ifd_build_apdu jk cla ins p1 p2 data len =
     (let lc = ucast len :: u8 in
      if len > 0xFF then Inr None
      else rbind (and_all ([\<lambda>bp. buffer_put_u8 bp cla, \<lambda>bp. buffer_put_u8 bp ins,
                            \<lambda>bp. buffer_put_u8 bp p1, \<lambda>bp. buffer_put_u8 bp p2,
                            \<lambda>bp. buffer_put_u8 bp lc]
                           @ (case data of None \<Rightarrow> [] | Some d \<Rightarrow> [\<lambda>bp. buffer_put bp d len]))
                  (buffer_alloc_write jk (ucast (5 + len)))) (\<lambda>(ok, bp).
           Inr (if ok then Some bp else None)))"

text \<open>The status word is cut off the end of the response; \<^verbatim>\<open>swpos\<close> points two bytes before the
  write position.\<close>

definition ifd_card_apdu ::
    "'w env \<Rightarrow> ifd_card \<Rightarrow> buffer \<Rightarrow> 'w \<Rightarrow> ((buffer \<times> u16) option \<times> ifd_card \<times> 'w) res" where
  "ifd_card_apdu env crd apdu w =
     rbind (ccid_reader_apdu_xfer env (card_reader crd) (card_slot crd) apdu w) (\<lambda>(r, reader, w).
       let crd = crd\<lparr>card_reader := reader\<rparr> in
       case r of None \<Rightarrow> Inr (None, crd, w)
       | Some rapdu \<Rightarrow>
           if buffer_available rapdu < 2 then Inr (None, crd, w)
           else rbind (mem_get (bdata rapdu) (unat (wpos rapdu - 2))) (\<lambda>hi.
                rbind (mem_get (bdata rapdu) (unat (wpos rapdu - 1))) (\<lambda>lo.
                  Inr (Some (rapdu\<lparr>wpos := wpos rapdu - 2\<rparr>, push_bit 8 (ucast hi) OR ucast lo),
                       crd, w))))"

text \<open>
  Response chaining. Each round stores at least one more byte into \<^verbatim>\<open>rapdu\<close>, so the loop ends
  when the card stops asking or the buffer is full.
\<close>

lemma buffer_put_shrinks:
  assumes "buffer_put b src c = Inr (True, b')" and "c \<noteq> 0"
  shows "unat (bsize b' - wpos b') < unat (bsize b - wpos b)"
proof -
  let ?x = "bsize b - wpos b" and ?c = "ucast c :: u64"
  have c: "?c \<le> ?x" and b': "bsize b' = bsize b" "wpos b' = wpos b + ?c"
    using assms(1) by (auto simp: buffer_put_def rbind_eq_Inr not_less split: if_splits)
  have "0 < unat ?c"
    using assms(2) by (simp add: unat_gt_0)
  moreover have "bsize b' - wpos b' = ?x - ?c"
    by (simp add: b' diff_diff_eq)
  ultimately show ?thesis
    using c by (simp add: unat_diff word_le_nat_alt)
qed

lemma ucast_8_32_eq_0 [simp]: "(ucast (x :: u8) = (0 :: u32)) = (x = 0)"
  by (metis unat_ucast_8_32 unsigned_0 unsigned_word_eqI word_unat_eq_iff)

function xfer_more ::
    "'w env \<Rightarrow> ifd_card \<Rightarrow> buffer \<Rightarrow> u16 \<Rightarrow> 'w \<Rightarrow> ((buffer \<times> u16) option \<times> ifd_card \<times> 'w) res" where
  "xfer_more env crd rapdu sw w =
     (if sw AND 0xFF00 \<noteq> 0x6100 then Inr (Some (rapdu, sw), crd, w)
      else
        (let lc = ucast (sw AND 0xFF) :: u8; len = (if lc \<noteq> 0 then ucast lc else 0x100) :: u32 in
         rbind (ifd_build_apdu (junk env) 0 0xC0 0 0 None (ucast lc)) (\<lambda>apdu2.
           case apdu2 of None \<Rightarrow> Inl Null_Deref
           | Some apdu2 \<Rightarrow> rbind (ifd_card_apdu env crd apdu2 w) (\<lambda>(r, crd, w).
               case r of None \<Rightarrow> Inr (None, crd, w)
               | Some (rapdu2, sw) \<Rightarrow>
                   if buffer_available rapdu2 \<noteq> len then Inr (None, crd, w)
                   else rbind (buffer_put rapdu (buffer_read_pointer rapdu2) (buffer_available rapdu2)) (\<lambda>(ok, rapdu).
                     if \<not> ok then Inr (None, crd, w) else xfer_more env crd rapdu sw w)))))"
  by pat_completeness auto
termination
  by (relation "measure (\<lambda>(env, crd, rapdu, sw, w). unat (bsize rapdu - wpos rapdu))")
    (auto intro!: buffer_put_shrinks split: if_splits)

declare xfer_more.simps [simp del]

definition ifd_card_xfer ::
    "'w env \<Rightarrow> ifd_card \<Rightarrow> buffer \<Rightarrow> 'w \<Rightarrow> ((buffer \<times> u16) option \<times> ifd_card \<times> 'w) res" where
  "ifd_card_xfer env crd apdu w =
     rbind (ifd_card_apdu env crd apdu w) (\<lambda>(r, crd, w).
       case r of None \<Rightarrow> Inr (None, crd, w)
       | Some (rapdu, sw) \<Rightarrow> xfer_more env crd rapdu sw w)"

section \<open>Command and response APDUs\<close>

lemma build_apdu_ok:
  assumes "unat len \<le> 255" and "\<And>d. data = Some d \<Longrightarrow> unat len \<le> length d"
  shows "\<exists>b. ifd_build_apdu jk cla ins p1 p2 data len = Inr (Some b) \<and> buf_ok b
    \<and> contents b = [cla, ins, p1, p2, ucast len] @ (case data of None \<Rightarrow> [] | Some d \<Rightarrow> take (unat len) d)"
proof -
  have "unat (5 + len) = 5 + unat len"
    using assms(1) by (subst unat_add_small) simp_all
  then have sz: "unat (ucast (5 + len) :: u64) = 5 + unat len" by simp
  let ?b0 = "buffer_alloc_write jk (ucast (5 + len))"
  have b0: "buf_ok ?b0" "contents ?b0 = []" "5 + unat len \<le> room ?b0"
    using assms(1) round8_ge [of "5 + unat len"] alloc_ok [of "ucast (5 + len)" jk, unfolded sz]
    by simp_all
  have len: "\<not> len > 0xFF"
    using assms(1) by (simp add: word_less_nat_alt)
  show ?thesis
  proof (cases data)
    case None
    with b0 len show ?thesis by (simp add: ifd_build_apdu_def Let_def buf_simps)
  next
    case (Some d)
    with assms(2) have "unat len \<le> length d" by simp
    with Some b0 len show ?thesis by (simp add: ifd_build_apdu_def Let_def buf_simps)
  qed
qed

text \<open>The two status bytes at the end of a response.\<close>

definition sw_bytes :: "u16 \<Rightarrow> bytes" where
  "sw_bytes sw = [ucast (drop_bit 8 sw), ucast sw]"

lemma length_sw_bytes [simp]: "length (sw_bytes sw) = 2"
  by (simp add: sw_bytes_def)

lemma sw_join: "push_bit 8 (ucast (ucast (drop_bit 8 (sw :: u16)) :: u8) :: u16) OR ucast (ucast sw :: u8) = sw"
proof (rule bit_word_eqI)
  fix i
  assume i: "i < LENGTH(16)"
  show "bit (push_bit 8 (ucast (ucast (drop_bit 8 sw) :: u8) :: u16) OR ucast (ucast sw :: u8)) i = bit sw i"
  proof (cases "i < 8")
    case True
    then show ?thesis by (simp add: bit_or_iff bit_push_bit_iff bit_unsigned_iff)
  next
    case False
    with i have "i - 8 < 8" by simp
    with False i show ?thesis
      by (simp add: bit_or_iff bit_push_bit_iff bit_unsigned_iff bit_drop_bit_eq)
  qed
qed

text \<open>Cutting bytes off the end of a buffer.\<close>

lemma cut_ok:
  assumes "buf_ok b" and "contents b = d @ t" and "length t = 2"
  shows "buf_ok (b\<lparr>wpos := wpos b - 2\<rparr>)" and "contents (b\<lparr>wpos := wpos b - 2\<rparr>) = d"
    and "room (b\<lparr>wpos := wpos b - 2\<rparr>) = room b + 2"
    and "mem_get (bdata b) (unat (wpos b - 2)) = Inr (t ! 0)"
    and "mem_get (bdata b) (unat (wpos b - 1)) = Inr (t ! 1)"
proof -
  note ok = buf_okD [OF assms(1)]
  have len: "unat (wpos b) - unat (rpos b) = length d + 2"
    using length_contents [OF assms(1)] assms(2,3) by simp
  then have w: "unat (wpos b) = unat (rpos b) + length d + 2" by simp
  then have "(2 :: u64) \<le> wpos b" "(1 :: u64) \<le> wpos b" by (simp_all add: word_le_nat_alt)
  then have u: "unat (wpos b - 2) = unat (rpos b) + length d"
      "unat (wpos b - 1) = unat (rpos b) + length d + 1"
    using unat_diff [of 2 "wpos b"] unat_diff [of 1 "wpos b"] w by simp_all
  have c: "take (length d + 2) (drop (unat (rpos b)) (bdata b)) = d @ t"
    using assms(2) by (simp add: contents_def len)
  show "buf_ok (b\<lparr>wpos := wpos b - 2\<rparr>)"
    using ok by (intro buf_okI) (simp_all add: u w)
  have "take (length d) (take (length d + 2) (drop (unat (rpos b)) (bdata b))) = d"
    unfolding c by simp
  then show "contents (b\<lparr>wpos := wpos b - 2\<rparr>) = d"
    by (simp add: contents_def u min_def)
  show "room (b\<lparr>wpos := wpos b - 2\<rparr>) = room b + 2"
    using ok(2) by (simp add: room_def u w)
  have nth: "bdata b ! (unat (rpos b) + length d + j) = t ! j" if "j < 2" for j
  proof -
    have "(take (length d + 2) (drop (unat (rpos b)) (bdata b))) ! (length d + j)
        = bdata b ! (unat (rpos b) + length d + j)"
      using that ok w by (simp add: add.assoc)
    then show ?thesis unfolding c by (simp add: nth_append)
  qed
  have "unat (rpos b) + length d + 2 \<le> length (bdata b)"
    using ok w by simp
  then show "mem_get (bdata b) (unat (wpos b - 2)) = Inr (t ! 0)"
    and "mem_get (bdata b) (unat (wpos b - 1)) = Inr (t ! 1)"
    using nth [of 0] nth [of 1] by (simp_all add: u mem_get_in)
qed

lemma card_apdu_split:
  assumes "ccid_reader_apdu_xfer env (card_reader crd) (card_slot crd) apdu w = Inr (Some rapdu, reader, w')"
    and "buf_ok rapdu" and "contents rapdu = d @ sw_bytes sw"
  shows "\<exists>b. ifd_card_apdu env crd apdu w = Inr (Some (b, sw), crd\<lparr>card_reader := reader\<rparr>, w')
    \<and> buf_ok b \<and> contents b = d \<and> room b = room rapdu + 2"
proof -
  have "\<not> buffer_available rapdu < 2"
    using assms(2,3) by (simp add: word_less_nat_alt unat_available)
  moreover note cut = cut_ok [OF assms(2,3), of]
  moreover have "sw_bytes sw ! 0 = ucast (drop_bit 8 sw)" "sw_bytes sw ! 1 = ucast sw"
    by (simp_all add: sw_bytes_def)
  ultimately show ?thesis
    using assms(1) by (simp add: ifd_card_apdu_def Let_def sw_join)
qed

text \<open>A response of fewer than two bytes has no status word and is refused.\<close>

lemma card_apdu_short:
  assumes "ccid_reader_apdu_xfer env (card_reader crd) (card_slot crd) apdu w = Inr (Some rapdu, reader, w')"
    and "buf_ok rapdu" and "length (contents rapdu) < 2"
  shows "ifd_card_apdu env crd apdu w = Inr (None, crd\<lparr>card_reader := reader\<rparr>, w')"
proof -
  have "buffer_available rapdu < 2"
    using assms(2,3) by (simp add: word_less_nat_alt unat_available)
  with assms(1) show ?thesis by (simp add: ifd_card_apdu_def Let_def)
qed

section \<open>Response chaining\<close>

text \<open>
  The card's side of response chaining: \<open>gives_more\<close> follows status words \<^verbatim>\<open>61xx\<close> with
  \<^verbatim>\<open>GET RESPONSE\<close> commands until another status word comes. A block has the announced length and
  fits a response of the reader.
\<close>

definition get_response :: "u8 \<Rightarrow> bytes" where
  "get_response lc = [0, 0xC0, 0, 0, lc]"

definition announced :: "u8 \<Rightarrow> nat" where
  "announced lc = (if lc = 0 then 256 else unat lc)"

inductive gives_more ::
    "('c \<Rightarrow> bytes \<Rightarrow> bytes \<times> 'c) \<Rightarrow> nat \<Rightarrow> 'c \<Rightarrow> u16 \<Rightarrow> bytes list \<Rightarrow> u16 \<Rightarrow> 'c \<Rightarrow> bool"
  for step cap where
  no_more: "sw AND 0xFF00 \<noteq> 0x6100 \<Longrightarrow> gives_more step cap c sw [] sw c"
| more: "sw AND 0xFF00 = 0x6100 \<Longrightarrow> step c (get_response (ucast sw)) = (d @ sw_bytes sw1, c1)
    \<Longrightarrow> length d = announced (ucast sw) \<Longrightarrow> length d + 2 \<le> cap \<Longrightarrow> gives_more step cap c1 sw1 ds sw' c'
    \<Longrightarrow> gives_more step cap c sw (d # ds) sw' c'"

definition responds ::
    "('c \<Rightarrow> bytes \<Rightarrow> bytes \<times> 'c) \<Rightarrow> nat \<Rightarrow> 'c \<Rightarrow> bytes \<Rightarrow> bytes list \<Rightarrow> u16 \<Rightarrow> 'c \<Rightarrow> bool" where
  "responds step cap c apdu ds sw c' \<longleftrightarrow> (\<exists>d sw1 c1 ds1. ds = d # ds1
     \<and> step c apdu = (d @ sw_bytes sw1, c1) \<and> length d + 2 \<le> cap \<and> gives_more step cap c1 sw1 ds1 sw c')"

text \<open>A card object whose reader is linked to the card; only its reader changes.\<close>

definition card_link ::
    "nat \<Rightarrow> ('c \<Rightarrow> bytes \<Rightarrow> bytes \<times> 'c) \<Rightarrow> bytes \<Rightarrow> ('c \<Rightarrow> 'c) \<Rightarrow> ('c \<Rightarrow> bytes \<Rightarrow> bytes \<times> 'c) \<Rightarrow> ('w \<Rightarrow> 'c)
       \<Rightarrow> 'w env \<Rightarrow> ifd_card \<Rightarrow> ifd_card \<times> 'w \<Rightarrow> 'c \<Rightarrow> bool" where
  "card_link cap tok atr rst step st env crd0 s c \<longleftrightarrow>
     reader_slot_link cap tok atr rst step st env (card_reader crd0) (card_reader (fst s), snd s) c
     \<and> fst s = crd0\<lparr>card_reader := card_reader (fst s)\<rparr>"

lemma link_card_apdu:
  assumes "card_link cap tok atr rst step st env crd0 (crd, w) c"
    and "buf_ok apdu" and "length (contents apdu) < 2 ^ 16"
    and "step c (contents apdu) = (d @ sw_bytes sw, c')" and "length d + 2 \<le> cap"
  shows "\<exists>b crd' w'. ifd_card_apdu env crd apdu w = Inr (Some (b, sw), crd', w') \<and> buf_ok b
    \<and> contents b = d \<and> room b = cap - length d
    \<and> card_link cap tok atr rst step st env crd0 (crd', w') c'"
proof -
  have l: "reader_slot_link cap tok atr rst step st env (card_reader crd0) (card_reader crd, w) c"
      and crd: "crd = crd0\<lparr>card_reader := card_reader crd\<rparr>"
    using assms(1) by (simp_all add: card_link_def)
  from reader_channel.transmit [OF l assms(2,3), of "card_slot crd"] assms(4,5)
  obtain b s' where b: "rbind (ccid_reader_apdu_xfer env (card_reader crd) (card_slot crd) apdu w)
        (\<lambda>(r, reader, w). Inr (r, (reader, w))) = Inr (Some b, s')" "buf_ok b"
      "contents b = d @ sw_bytes sw" "room b = cap - (length d + 2)"
      and l': "reader_slot_link cap tok atr rst step st env (card_reader crd0) s' c'"
    by auto
  obtain reader w' where s': "s' = (reader, w')" by (cases s')
  have "ccid_reader_apdu_xfer env (card_reader crd) (card_slot crd) apdu w = Inr (Some b, reader, w')"
    using b(1) by (auto simp: s' rbind_eq_Inr)
  from card_apdu_split [OF this b(2,3)] obtain b' where
      "ifd_card_apdu env crd apdu w = Inr (Some (b', sw), crd\<lparr>card_reader := reader\<rparr>, w')"
      "buf_ok b'" "contents b' = d" "room b' = room b + 2"
    by blast
  moreover have "card_link cap tok atr rst step st env crd0 (crd\<lparr>card_reader := reader\<rparr>, w') c'"
    using l' by (simp add: card_link_def s') (subst crd, simp)
  ultimately show ?thesis
    using b(4) assms(5) by auto
qed

lemma announced_word: "unat (if lc \<noteq> 0 then ucast lc else 0x100 :: u32) = announced lc"
  by (simp add: announced_def)

lemma sw_low_byte: "(ucast (sw AND 0xFF) :: u8) = ucast (sw :: u16)"
proof (rule bit_word_eqI)
  fix i
  assume "i < LENGTH(8)"
  moreover have ff: "(0xFF :: u16) = mask 8" by (simp add: mask_eq_exp_minus_1)
  ultimately show "bit (ucast (sw AND 0xFF) :: u8) i = bit (ucast sw :: u8) i"
    unfolding ff by (auto simp: bit_unsigned_iff bit_and_iff bit_mask_iff)
qed

lemma buffer_put_buffer:
  assumes "buf_ok b" and "buf_ok c" and "length (contents c) \<le> room b"
  shows "buffer_put b (buffer_read_pointer c) (buffer_available c) = Inr (True, buf_append b (contents c))"
  using assms buffer_put_True [of b "buffer_available c" "buffer_read_pointer c"]
  by (simp add: unat_available read_pointer_length read_pointer_prefix)

lemma get_response_apdu:
  "\<exists>b. ifd_build_apdu jk 0 0xC0 0 0 None (ucast (lc :: u8)) = Inr (Some b) \<and> buf_ok b
     \<and> contents b = get_response lc"
proof -
  have "unat lc \<le> 255" using unat_u8_lt [of lc] by linarith
  moreover have "ucast (ucast lc :: u32) = lc"
    using \<open>unat lc \<le> 255\<close> by (simp add: word_unat_eq_iff unat_ucast_32_8)
  ultimately show ?thesis
    using build_apdu_ok [where len = "ucast lc" and data = None and jk = jk and cla = 0 and ins = "0xC0"
        and ?p1.0 = 0 and ?p2.0 = 0] by (simp add: get_response_def)
qed

text \<open>The rounds of the loop so far: \<open>gave\<close> is the chain without its end.\<close>

inductive gave ::
    "('c \<Rightarrow> bytes \<Rightarrow> bytes \<times> 'c) \<Rightarrow> nat \<Rightarrow> 'c \<Rightarrow> u16 \<Rightarrow> bytes list \<Rightarrow> u16 \<Rightarrow> 'c \<Rightarrow> bool"
  for step cap where
  gave_none: "gave step cap c sw [] sw c"
| gave_block: "sw AND 0xFF00 = 0x6100 \<Longrightarrow> step c (get_response (ucast sw)) = (d @ sw_bytes sw1, c1)
    \<Longrightarrow> length d = announced (ucast sw) \<Longrightarrow> length d + 2 \<le> cap \<Longrightarrow> gave step cap c1 sw1 ds sw' c'
    \<Longrightarrow> gave step cap c sw (d # ds) sw' c'"

lemma gives_more_gave:
  "gives_more step cap c sw ds sw' c' \<Longrightarrow> gave step cap c sw ds sw' c' \<and> sw' AND 0xFF00 \<noteq> 0x6100"
  by (induction rule: gives_more.induct) (auto intro: gave.intros)

text \<open>One \<^verbatim>\<open>GET RESPONSE\<close>, as the loop sees it.\<close>

lemma link_get_response:
  assumes "card_link cap tok atr rst step st env crd0 (crd, w) c"
    and "step c (get_response lc) = (d @ sw_bytes sw1, c1)" and "length d + 2 \<le> cap"
  obtains apdu b crd1 w1 where "ifd_build_apdu (junk env) 0 0xC0 0 0 None (ucast lc) = Inr (Some apdu)"
    and "ifd_card_apdu env crd apdu w = Inr (Some (b, sw1), crd1, w1)" and "buf_ok b" and "contents b = d"
    and "card_link cap tok atr rst step st env crd0 (crd1, w1) c1"
    and "buffer_available b = (if lc \<noteq> 0 then ucast lc else 0x100) \<longleftrightarrow> length d = announced lc"
proof -
  obtain apdu where apdu: "ifd_build_apdu (junk env) 0 0xC0 0 0 None (ucast lc) = Inr (Some apdu)"
      "buf_ok apdu" "contents apdu = get_response lc"
    using get_response_apdu by blast
  have "length (contents apdu) < 2 ^ 16" by (simp add: apdu(3) get_response_def)
  from link_card_apdu [OF assms(1) apdu(2) this, of d sw1 c1] assms(2,3)
  obtain b crd1 w1 where b: "ifd_card_apdu env crd apdu w = Inr (Some (b, sw1), crd1, w1)" "buf_ok b"
      "contents b = d" and l: "card_link cap tok atr rst step st env crd0 (crd1, w1) c1"
    by (auto simp: apdu(3))
  have "buffer_available b = (if lc \<noteq> 0 then ucast lc else 0x100) \<longleftrightarrow> length d = announced lc"
    using b(2,3) announced_word [of lc] by (simp only: word_unat_eq_iff unat_available)
  with apdu(1) b l show thesis by (rule that)
qed

lemma xfer_more_follows:
  assumes "gave step cap c sw ds sw' c'"
    and "card_link cap tok atr rst step st env crd0 (crd, w) c" and "buf_ok rapdu"
    and "length (concat ds) \<le> room rapdu"
  shows "\<exists>b crd' w'. xfer_more env crd rapdu sw w = xfer_more env crd' b sw' w' \<and> buf_ok b
    \<and> contents b = contents rapdu @ concat ds
    \<and> card_link cap tok atr rst step st env crd0 (crd', w') c'"
  using assms
proof (induction arbitrary: crd w rapdu)
  case (gave_none c sw)
  then show ?case by auto
next
  case (gave_block sw c d sw1 c1 ds sw' c')
  let ?lc = "ucast sw :: u8"
  obtain apdu b crd1 w1 where b: "ifd_build_apdu (junk env) 0 0xC0 0 0 None (ucast ?lc) = Inr (Some apdu)"
      "ifd_card_apdu env crd apdu w = Inr (Some (b, sw1), crd1, w1)" "buf_ok b" "contents b = d"
      "card_link cap tok atr rst step st env crd0 (crd1, w1) c1"
      "buffer_available b = (if ?lc \<noteq> 0 then ucast ?lc else 0x100) \<longleftrightarrow> length d = announced ?lc"
    by (rule link_get_response [OF gave_block.prems(1) gave_block.hyps(2,4)])
  have put: "buffer_put rapdu (buffer_read_pointer b) (buffer_available b)
      = Inr (True, buf_append rapdu d)"
    using buffer_put_buffer [OF gave_block.prems(2) b(3)] gave_block.prems(3) b(4) by simp
  have len: "buffer_available b = (if ?lc \<noteq> 0 then ucast ?lc else 0x100)"
    using b(6) gave_block.hyps(3) by simp
  have "xfer_more env crd rapdu sw w = xfer_more env crd1 (buf_append rapdu d) sw1 w1"
    using gave_block.hyps(1) b(1,2) put
    by (subst xfer_more.simps) (simp add: Let_def sw_low_byte len)
  moreover have "buf_ok (buf_append rapdu d)" "length (concat ds) \<le> room (buf_append rapdu d)"
      "contents (buf_append rapdu d) = contents rapdu @ d"
    using gave_block.prems(2,3) by (simp_all add: buf_simps)
  ultimately show ?case
    using gave_block.IH [OF b(5), of "buf_append rapdu d"] by auto
qed

lemma xfer_more_gathers:
  assumes "gives_more step cap c sw ds sw' c'"
    and "card_link cap tok atr rst step st env crd0 (crd, w) c" and "buf_ok rapdu"
    and "length (concat ds) \<le> room rapdu"
  shows "\<exists>b crd' w'. xfer_more env crd rapdu sw w = Inr (Some (b, sw'), crd', w') \<and> buf_ok b
    \<and> contents b = contents rapdu @ concat ds
    \<and> card_link cap tok atr rst step st env crd0 (crd', w') c'"
proof -
  note g = gives_more_gave [OF assms(1)]
  from xfer_more_follows [OF g [THEN conjunct1] assms(2-4)] g show ?thesis
    by (auto simp: xfer_more.simps [of _ _ _ sw'])
qed

lemma card_xfer_gathers:
  assumes "responds step cap c (contents apdu) ds sw c'"
    and "card_link cap tok atr rst step st env crd0 (crd, w) c"
    and "buf_ok apdu" and "length (contents apdu) < 2 ^ 16" and "length (concat ds) \<le> cap"
  shows "\<exists>b crd' w'. ifd_card_xfer env crd apdu w = Inr (Some (b, sw), crd', w') \<and> buf_ok b
    \<and> contents b = concat ds \<and> card_link cap tok atr rst step st env crd0 (crd', w') c'"
proof -
  obtain d sw1 c1 ds1 where r: "ds = d # ds1" "step c (contents apdu) = (d @ sw_bytes sw1, c1)"
      "length d + 2 \<le> cap" and m: "gives_more step cap c1 sw1 ds1 sw c'"
    using assms(1) by (auto simp: responds_def)
  from link_card_apdu [OF assms(2-4) r(2,3)] obtain b crd1 w1 where
      b: "ifd_card_apdu env crd apdu w = Inr (Some (b, sw1), crd1, w1)" "buf_ok b" "contents b = d"
      "room b = cap - length d"
      and l: "card_link cap tok atr rst step st env crd0 (crd1, w1) c1"
    by blast
  have "length (concat ds1) \<le> room b" using assms(5) r(1) b(4) by simp
  from xfer_more_gathers [OF m l b(2) this] b(1,3) r(1) show ?thesis
    by (auto simp: ifd_card_xfer_def)
qed

section \<open>What the drivers rely on\<close>

text \<open>
  The client side of a driver: a list of commands sent one after the other until one fails or is
  answered with a status other than \<^verbatim>\<open>9000\<close>; the result is the last response.
\<close>

fun drive ::
    "(buffer \<Rightarrow> 's \<Rightarrow> ((buffer \<times> u16) option \<times> 's) res) \<Rightarrow> buffer list \<Rightarrow> buffer option \<Rightarrow> 's
       \<Rightarrow> (buffer option option \<times> 's) res" where
  "drive exchange [] prev s = Inr (Some prev, s)"
| "drive exchange (a # as) prev s = rbind (exchange a s) (\<lambda>(r, s).
     case r of None \<Rightarrow> Inr (None, s)
     | Some (b, sw) \<Rightarrow> if sw = 0x9000 then drive exchange as (Some b) s else Inr (None, s))"

text \<open>A card that answers \<^verbatim>\<open>9000\<close> to each command; \<open>d\<close> is the data of its last answer.\<close>

inductive accepts ::
    "('c \<Rightarrow> bytes \<Rightarrow> bytes \<Rightarrow> u16 \<Rightarrow> 'c \<Rightarrow> bool) \<Rightarrow> 'c \<Rightarrow> bytes list \<Rightarrow> bytes \<Rightarrow> 'c \<Rightarrow> bool"
  for answers where
  accepts_last: "answers c a d 0x9000 c' \<Longrightarrow> accepts answers c [a] d c'"
| accepts_more: "answers c a d0 0x9000 c1 \<Longrightarrow> accepts answers c1 as d c' \<Longrightarrow> accepts answers c (a # as) d c'"

inductive_cases accepts_ConsE: "accepts answers c (a # as) d c'"
inductive_cases accepts_NilE: "accepts answers c [] d c'"

locale card_channel =
  fixes link :: "'s \<Rightarrow> 'c \<Rightarrow> bool"
    and exchange :: "buffer \<Rightarrow> 's \<Rightarrow> ((buffer \<times> u16) option \<times> 's) res"
    and answers :: "'c \<Rightarrow> bytes \<Rightarrow> bytes \<Rightarrow> u16 \<Rightarrow> 'c \<Rightarrow> bool"
  assumes exchange: "link s c \<Longrightarrow> buf_ok a \<Longrightarrow> length (contents a) < 2 ^ 16
      \<Longrightarrow> answers c (contents a) d sw c'
      \<Longrightarrow> \<exists>b s'. exchange a s = Inr (Some (b, sw), s') \<and> buf_ok b \<and> contents b = d \<and> link s' c'"
begin

lemma drive_accepts:
  assumes "accepts answers c (map contents as) d c'" and "link s c"
    and "\<forall>a \<in> set as. buf_ok a \<and> length (contents a) < 2 ^ 16"
  shows "\<exists>b s'. drive exchange as prev s = Inr (Some (Some b), s') \<and> buf_ok b \<and> contents b = d \<and> link s' c'"
  using assms
proof (induction as arbitrary: c s prev)
  case Nil
  then show ?case by (auto elim: accepts_NilE)
next
  case (Cons a as)
  from Cons.prems(1) have "accepts answers c (contents a # map contents as) d c'" by simp
  then consider (final) "as = []" "answers c (contents a) d 0x9000 c'"
    | (on) d0 c1 where "answers c (contents a) d0 0x9000 c1" "accepts answers c1 (map contents as) d c'"
    by (auto elim: accepts_ConsE)
  then show ?case
  proof cases
    case final
    then obtain b s' where "exchange a s = Inr (Some (b, 0x9000), s')" "buf_ok b" "contents b = d"
        "link s' c'"
      using exchange [OF Cons.prems(2), of a d "0x9000" c'] Cons.prems(3) by auto
    with final show ?thesis by simp
  next
    case on
    then obtain b s1 where "exchange a s = Inr (Some (b, 0x9000), s1)" "link s1 c1"
      using exchange [OF Cons.prems(2), of a d0 "0x9000" c1] Cons.prems(3) by auto
    with Cons.IH [OF on(2), of s1 "Some b"] Cons.prems(3) show ?thesis by simp
  qed
qed

lemma drive_refused:
  assumes "link s c" and "buf_ok a" and "length (contents a) < 2 ^ 16"
    and "answers c (contents a) d sw c'" and "sw \<noteq> 0x9000"
  shows "\<exists>s'. drive exchange (a # as) prev s = Inr (None, s') \<and> link s' c'"
  using exchange [OF assms(1-4)] assms(5) by auto

end

definition card_answers ::
    "('c \<Rightarrow> bytes \<Rightarrow> bytes \<times> 'c) \<Rightarrow> nat \<Rightarrow> 'c \<Rightarrow> bytes \<Rightarrow> bytes \<Rightarrow> u16 \<Rightarrow> 'c \<Rightarrow> bool" where
  "card_answers step cap c apdu d sw c' \<longleftrightarrow>
     (\<exists>ds. responds step cap c apdu ds sw c' \<and> d = concat ds \<and> length d \<le> cap)"

text \<open>The exchange as a function of the buffer and the pair of card object and world.\<close>

definition xfer_pair ::
    "'w env \<Rightarrow> buffer \<Rightarrow> ifd_card \<times> 'w \<Rightarrow> ((buffer \<times> u16) option \<times> ifd_card \<times> 'w) res" where
  "xfer_pair env a s = ifd_card_xfer env (fst s) a (snd s)"

interpretation xfer_channel: card_channel
  "card_link cap tok atr rst step st env crd0" "xfer_pair env" "card_answers step cap"
  for cap tok atr rst step st env crd0
proof unfold_locales
  fix s :: "ifd_card \<times> 'b" and c c' :: 'a and a :: buffer and d sw
  assume l: "card_link cap tok atr rst step st env crd0 s c" and a: "buf_ok a"
    "length (contents a) < 2 ^ 16" and "card_answers step cap c (contents a) d sw c'"
  then obtain ds where ds: "responds step cap c (contents a) ds sw c'" "d = concat ds" "length d \<le> cap"
    by (auto simp: card_answers_def)
  obtain crd w where s: "s = (crd, w)" by (cases s)
  show "\<exists>b s'. xfer_pair env a s = Inr (Some (b, sw), s') \<and> buf_ok b \<and> contents b = d
      \<and> card_link cap tok atr rst step st env crd0 s' c'"
    using card_xfer_gathers [OF ds(1) l [unfolded s] a] ds(2,3) by (auto simp: xfer_pair_def s)
qed

text \<open>An answer without chaining.\<close>

lemma card_answers_direct:
  assumes "step c apdu = (d @ sw_bytes sw, c')" and "sw AND 0xFF00 \<noteq> 0x6100" and "length d + 2 \<le> cap"
  shows "card_answers step cap c apdu d sw c'"
  unfolding card_answers_def
proof (intro exI [of _ "[d]"] conjI)
  show "responds step cap c apdu [d] sw c'"
    using assms no_more [of sw step cap c'] by (auto simp: responds_def)
qed (use assms(3) in auto)

section \<open>ATRs and the registry\<close>

text \<open>The ATR a buffer holds.\<close>

definition atr_ok :: "ifd_atrbuf \<Rightarrow> bool" where
  "atr_ok a \<longleftrightarrow> length (atr_data a) = IFD_MAX_ATR_LEN \<and> unat (atr_len a) \<le> IFD_MAX_ATR_LEN"

definition atr_octet_list :: "ifd_atrbuf \<Rightarrow> bytes" where
  "atr_octet_list a = take (unat (atr_len a)) (atr_data a)"

lemma atrbuf_equal_iff:
  assumes "atr_ok a" and "atr_ok b"
  shows "ifd_atrbuf_equal a b = Inr (atr_octet_list a = atr_octet_list b)"
proof (cases "atr_len a = atr_len b")
  case True
  with assms show ?thesis
    by (simp add: ifd_atrbuf_equal_def atr_ok_def atr_octet_list_def mem_read_in)
next
  case False
  then have "length (atr_octet_list a) \<noteq> length (atr_octet_list b)"
    using assms by (simp add: atr_ok_def atr_octet_list_def word_unat_eq_iff)
  with False show ?thesis by (auto simp: ifd_atrbuf_equal_def)
qed

lemma atr_octets_ok:
  "i + n \<le> length data \<Longrightarrow>
     \<exists>s. atr_octets data i n = Inr s \<and> length s = (if n = 0 then 0 else 3 * n - (if i = 0 then 1 else 0))"
proof (induction n arbitrary: i)
  case 0
  then show ?case by simp
next
  case (Suc n)
  then have "Suc i + n \<le> length data" by simp
  from Suc.IH [OF this] obtain s where "atr_octets data (Suc i) n = Inr s"
      "length s = (if n = 0 then 0 else 3 * n)"
    by auto
  with Suc.prems show ?case by (auto simp: mem_get_in)
qed

lemma atr_to_string_ok:
  assumes "atr_ok a"
  shows "\<exists>s. ifd_atrbuf_to_string a = Inr (Some s) \<and> length s < 3 * IFD_MAX_ATR_LEN + 1"
  using assms atr_octets_ok [of 0 "unat (atr_len a)" "atr_data a"]
  by (auto simp: ifd_atrbuf_to_string_def atr_ok_def IFD_MAX_ATR_LEN_def split: if_splits)

lemma find_registration_find:
  assumes "atr_ok atr" and "\<forall>r \<in> set regs. atr_ok (reg_atr r)"
  shows "find_registration atr regs = Inr (find (\<lambda>r. atr_octet_list atr = atr_octet_list (reg_atr r)) regs)"
  using assms(2)
proof (induction regs)
  case Nil
  then show ?case by simp
next
  case (Cons r regs)
  then obtain s where "ifd_atrbuf_to_string (reg_atr r) = Inr (Some s)"
    using atr_to_string_ok by fastforce
  with Cons assms(1) show ?case by (simp add: atrbuf_equal_iff)
qed

lemma create_card_find:
  assumes "atr_ok atr" and "\<forall>r \<in> set regs. atr_ok (reg_atr r)"
  shows "ifd_create_card regs atr reader slot = Inr (map_option
      (\<lambda>reg. ifd_card_alloc atr (reg_name reg) (reg_driver reg) (reg_variant reg) reader slot)
      (find (\<lambda>r. atr_octet_list atr = atr_octet_list (reg_atr r)) regs))"
proof -
  obtain s where "ifd_atrbuf_to_string atr = Inr (Some s)"
    using atr_to_string_ok [OF assms(1)] by blast
  then show ?thesis
    by (simp add: ifd_create_card_def find_registration_find [OF assms])
qed

section \<open>Properties\<close>

text \<open>C29: ifd_build_apdu refuses more than 255 bytes of data and otherwise builds the short APDU CLA
  INS P1 P2 Lc data.\<close>

theorem build_apdu_format:
  assumes "case data of None \<Rightarrow> True | Some d \<Rightarrow> unat len \<le> length d"
  shows "if unat len \<le> 255
    then \<exists>b. ifd_build_apdu jk cla ins p1 p2 data len = Inr (Some b) \<and> buf_ok b
      \<and> contents b = [cla, ins, p1, p2, of_nat (unat len)]
          @ (case data of None \<Rightarrow> [] | Some d \<Rightarrow> take (unat len) d)
    else ifd_build_apdu jk cla ins p1 p2 data len = Inr None"
proof (cases "unat len \<le> 255")
  case True
  have "(of_nat (unat len) :: u8) = ucast len" by simp
  moreover have "\<And>d. data = Some d \<Longrightarrow> unat len \<le> length d" using assms by simp
  ultimately show ?thesis using True build_apdu_ok [OF True, of data jk cla ins p1 p2] by simp
next
  case False
  then have "len > 0xFF" by (simp add: word_less_nat_alt)
  with False show ?thesis by (simp add: ifd_build_apdu_def)
qed

theorem build_apdu_format_witness:
  "\<exists>b. ifd_build_apdu (\<lambda>_. 0) 0 0xA4 4 0 (Some [1, 2, 3]) 2 = Inr (Some b) \<and> buf_ok b
     \<and> contents b = [0, 0xA4, 4, 0, 2, 1, 2]"
  using build_apdu_format [of 2 "Some [1, 2, 3]" "\<lambda>_. 0" 0 "0xA4" 4 0] by simp

text \<open>C24: Lookup after registration: ifd_create_card first finds what was registered earlier, and
  otherwise the new driver if the ATR is equal octet by octet; the card then has the name,
  driver and variant of the registration.\<close>

theorem register_lookup:
  assumes "atr_ok atr" and "atr_ok atr0" and "\<forall>r \<in> set regs. atr_ok (reg_atr r)"
  shows "ifd_create_card (ifd_register_card_driver regs atr name driver variant) atr0 reader slot =
    (case ifd_create_card regs atr0 reader slot of
       Inr (Some crd) \<Rightarrow> Inr (Some crd)
     | _ \<Rightarrow> Inr (if atr_octet_list atr0 = atr_octet_list atr
                then Some (ifd_card_alloc atr0 name driver variant reader slot) else None))"
proof -
  have find_app: "find P (xs @ ys) = (case find P xs of None \<Rightarrow> find P ys | Some x \<Rightarrow> Some x)"
    for P and xs ys :: "registration list"
    by (induction xs) auto
  have "\<forall>r \<in> set (ifd_register_card_driver regs atr name driver variant). atr_ok (reg_atr r)"
    using assms by (simp add: ifd_register_card_driver_def)
  then show ?thesis
    using assms
    by (auto simp: create_card_find ifd_register_card_driver_def find_app split: option.splits)
qed

theorem register_lookup_witness:
  "\<exists>crd. ifd_create_card (ifd_register_card_driver [] \<lparr>atr_len = 2, atr_data = [0x3b, 0x01] @ replicate 62 0\<rparr> ''a'' 1 0)
      \<lparr>atr_len = 2, atr_data = [0x3b, 0x01] @ replicate 62 0xFF\<rparr> demo_rd 0 = Inr (Some crd)
    \<and> card_name crd = ''a'' \<and> pin_required crd"
proof -
  let ?a = "\<lambda>x :: u8. \<lparr>atr_len = 2, atr_data = [0x3b, 0x01] @ replicate 62 x\<rparr>"
  have ok: "atr_ok (?a x)" for x by (simp add: atr_ok_def IFD_MAX_ATR_LEN_def)
  have "ifd_create_card [] (?a 0xFF) demo_rd 0 = Inr None"
    using create_card_find [OF ok, of "[]" "0xFF"] by simp
  with register_lookup [OF ok ok, of "[]" 0 "''a''" 1 0 "0xFF" demo_rd 0] show ?thesis
    by (simp add: atr_octet_list_def ifd_card_alloc_def)
qed

text \<open>C5: ifd_card_xfer on a linked card implements the abstract exchange: the command, then GET
  RESPONSE for as long as the card answers 61xx; it returns the concatenation of all data blocks
  in order with the final status word, which is not 61xx, and the card is in the state the
  exchange leaves it in.\<close>

theorem card_xfer_complete:
  assumes "card_link cap tok atr rst step st env crd (crd, w) c"
    and "buf_ok apdu" and "length (contents apdu) < 2 ^ 16"
    and "responds step cap c (contents apdu) ds sw c'" and "length (concat ds) \<le> cap"
  shows "\<exists>b crd' w'. ifd_card_xfer env crd apdu w = Inr (Some (b, sw), crd', w')
    \<and> buf_ok b \<and> contents b = concat ds \<and> sw AND 0xFF00 \<noteq> 0x6100
    \<and> card_link cap tok atr rst step st env crd (crd', w') c'"
proof -
  have final: "gives_more step cap c1 sw1 ds1 sw2 c2 \<Longrightarrow> sw2 AND 0xFF00 \<noteq> 0x6100" for c1 sw1 ds1 sw2 c2
    by (induction rule: gives_more.induct) auto
  have "sw AND 0xFF00 \<noteq> 0x6100"
    using assms(4) final by (auto simp: responds_def)
  with card_xfer_gathers [OF assms(4,1,2,3,5)] show ?thesis by blast
qed

lemma xfer_more_mismatch:
  assumes "card_link cap tok atr rst step st env crd0 (crd, w) c" and "sw AND 0xFF00 = 0x6100"
    and "step c (get_response (ucast sw)) = (d @ sw_bytes sw1, c1)" and "length d + 2 \<le> cap"
    and "length d \<noteq> announced (ucast sw)"
  shows "\<exists>crd' w'. xfer_more env crd rapdu sw w = Inr (None, crd', w')
    \<and> card_link cap tok atr rst step st env crd0 (crd', w') c1"
proof -
  obtain apdu b crd1 w1 where b: "ifd_build_apdu (junk env) 0 0xC0 0 0 None (ucast (ucast sw :: u8)) = Inr (Some apdu)"
      "ifd_card_apdu env crd apdu w = Inr (Some (b, sw1), crd1, w1)" "buf_ok b" "contents b = d"
      "card_link cap tok atr rst step st env crd0 (crd1, w1) c1"
      "buffer_available b = (if (ucast sw :: u8) \<noteq> 0 then ucast (ucast sw :: u8) else 0x100)
        \<longleftrightarrow> length d = announced (ucast sw)"
    by (rule link_get_response [OF assms(1,3,4)])
  with assms(2,5) show ?thesis
    by (auto simp: xfer_more.simps [of _ _ _ sw] Let_def sw_low_byte)
qed

text \<open>C28: The card answers the command and then any number of GET RESPONSE commands with blocks of
  the announced length (256 for a zero) that together fit a response of the reader. If the next
  GET RESPONSE yields another number of bytes than announced, ifd_card_xfer fails and asks for
  nothing more.\<close>

theorem get_response_mismatch:
  assumes "card_link cap tok atr rst step st env crd (crd, w) c"
    and "buf_ok apdu" and "length (contents apdu) < 2 ^ 16"
    and "step c (contents apdu) = (d @ sw_bytes sw, c1)" and "length d + 2 \<le> cap"
    and "gave step cap c1 sw ds sw1 c2" and "length (d @ concat ds) \<le> cap"
    and "sw1 AND 0xFF00 = 0x6100"
    and "step c2 (get_response (ucast sw1)) = (d1 @ sw_bytes sw2, c3)" and "length d1 + 2 \<le> cap"
    and "length d1 \<noteq> announced (ucast sw1)"
  shows "\<exists>crd' w'. ifd_card_xfer env crd apdu w = Inr (None, crd', w') \<and> st w' = c3"
proof -
  from link_card_apdu [OF assms(1-5)] obtain b crd1 w1 where
      b: "ifd_card_apdu env crd apdu w = Inr (Some (b, sw), crd1, w1)" "buf_ok b"
      "room b = cap - length d" "card_link cap tok atr rst step st env crd (crd1, w1) c1"
    by blast
  then have "length (concat ds) \<le> room b" using assms(7) by simp
  from xfer_more_follows [OF assms(6) b(4,2) this] obtain b2 crd2 w2 where
      "xfer_more env crd1 b sw w1 = xfer_more env crd2 b2 sw1 w2"
      and l: "card_link cap tok atr rst step st env crd (crd2, w2) c2"
    by blast
  moreover obtain crd3 w3 where "xfer_more env crd2 b2 sw1 w2 = Inr (None, crd3, w3)"
      and "card_link cap tok atr rst step st env crd (crd3, w3) c3"
    using xfer_more_mismatch [OF l assms(8-11)] by blast
  ultimately show ?thesis
    using b(1) by (auto simp: ifd_card_xfer_def card_link_def reader_slot_link_def reader_link_def)
qed

text \<open>A card that announces two more bytes, and \<open>n\<close> bytes when it is asked for them.\<close>

definition chain_card :: "nat \<Rightarrow> nat \<Rightarrow> bytes \<Rightarrow> bytes \<times> nat" where
  "chain_card n c apdu =
     (if apdu = get_response 2 then (replicate n 7 @ sw_bytes 0x9000, Suc c)
      else ([1, 2] @ sw_bytes 0x6102, Suc c))"

definition demo_crd :: ifd_card where
  "demo_crd = ifd_card_alloc \<lparr>atr_len = 0, atr_data = replicate 64 0\<rparr> ''demo'' 1 0 demo_rd 0"

lemma demo_link:
  "card_link 6 (ideal_token [] (\<lambda>c. c) step) [] (\<lambda>c. c) step snd (token_world (ideal_token [] (\<lambda>c. c) step))
     demo_crd (demo_crd, w) (snd w)"
  using ideal_link [of demo_rd "[]" "\<lambda>c. c" step w]
  by (simp add: card_link_def reader_slot_link_def demo_crd_def ifd_card_alloc_def capacity_def round8_def)
    (simp add: demo_rd_def)

definition demo_apdu :: buffer where
  "demo_apdu = buffer_init_read [0, 0xCB, 0, 0, 0] 5"

lemma demo_apdu_ok: "buf_ok demo_apdu" "contents demo_apdu = [0, 0xCB, 0, 0, 0]"
  by (simp_all add: demo_apdu_def buffer_init_read_ok contents_init)

lemma chain_card_steps:
  "chain_card n 0 (contents demo_apdu) = ([1, 2] @ sw_bytes 0x6102, 1)"
  "chain_card 1 1 (get_response 2) = ([7] @ sw_bytes 0x9000, 2)"
  "chain_card 2 1 (get_response 2) = ([7, 7] @ sw_bytes 0x9000, 2)"
  by (simp_all add: chain_card_def demo_apdu_ok get_response_def) code_simp+

theorem card_xfer_complete_witness:
  "\<exists>b crd' w'. ifd_card_xfer (token_world (ideal_token [] (\<lambda>c. c) (chain_card 2))) demo_crd demo_apdu ([], 0)
      = Inr (Some (b, 0x9000), crd', w') \<and> contents b = [1, 2, 7, 7]"
proof -
  have "(ucast (0x6102 :: u16) :: u8) = 2" by simp
  then have g: "chain_card 2 1 (get_response (ucast (0x6102 :: u16))) = ([7, 7] @ sw_bytes 0x9000, 2)"
      "length [7, 7 :: u8] = announced (ucast (0x6102 :: u16))"
    using chain_card_steps(3) by (simp_all only:) (simp add: announced_def)
  have m: "gives_more (chain_card 2) 6 1 0x6102 [[7, 7]] 0x9000 2"
  proof (rule gives_more.more)
    show "chain_card 2 1 (get_response (ucast (0x6102 :: u16))) = ([7, 7] @ sw_bytes 0x9000, 2)"
      by (rule g)
    show "gives_more (chain_card 2) 6 2 0x9000 [] 0x9000 2" by (rule no_more) simp
    show "length [7, 7 :: u8] = announced (ucast (0x6102 :: u16))" by (rule g)
  qed simp_all
  have "responds (chain_card 2) 6 (snd ([], 0)) (contents demo_apdu) [[1, 2], [7, 7]] 0x9000 2"
    unfolding responds_def
    by (intro exI [of _ "[1, 2]"] exI [of _ "0x6102"] exI [of _ 1] exI [of _ "[[7, 7]]"] conjI m)
      (simp_all only: snd_conv chain_card_steps, simp)
  from card_xfer_complete [OF demo_link demo_apdu_ok(1) _ this] show ?thesis
    by (auto simp: demo_apdu_ok)
qed

text \<open>A card that gives one byte too few in the second round.\<close>

definition slow_card :: "nat \<Rightarrow> bytes \<Rightarrow> bytes \<times> nat" where
  "slow_card c apdu =
     (if c = 0 then ([9] @ sw_bytes 0x6101, 1)
      else if c = 1 then ([8] @ sw_bytes 0x6102, 2)
      else ([7] @ sw_bytes 0x9000, Suc c))"

lemma sw_counts: "(ucast (0x6101 :: u16) :: u8) = 1" "(ucast (0x6102 :: u16) :: u8) = 2"
    "announced 1 = 1" "announced 2 = 2"
  by (simp_all add: announced_def)

theorem get_response_mismatch_witness:
  "\<exists>crd' w'. ifd_card_xfer (token_world (ideal_token [] (\<lambda>c. c) slow_card)) demo_crd demo_apdu ([], 0)
      = Inr (None, crd', w') \<and> snd w' = 3"
proof -
  have 1: "slow_card (snd ([] :: bytes, 0)) (contents demo_apdu) = ([9] @ sw_bytes 0x6101, 1)"
    by (simp add: slow_card_def)
  have 2: "gave slow_card 6 1 0x6101 [[8]] 0x6102 2"
    by (rule gave_block [OF _ _ _ _ gave_none]) (simp_all only: sw_counts, simp_all add: slow_card_def)
  have 3: "slow_card 2 (get_response (ucast (0x6102 :: u16))) = ([7] @ sw_bytes 0x9000, 3)"
    by (simp add: slow_card_def)
  have 4: "length [7 :: u8] \<noteq> announced (ucast (0x6102 :: u16))" by (simp only: sw_counts) simp
  have "length (contents demo_apdu) < 2 ^ 16" by (simp add: demo_apdu_ok)
  from get_response_mismatch [OF demo_link demo_apdu_ok(1) this 1 _ 2 _ _ 3 _ 4] show ?thesis by simp
qed

end
