(* ===== verification/Yubikey.thy ===== *)
theory Yubikey
  imports Scard
begin

text \<open>
  yubikey.c: the card driver for the PIV application of a YubiKey. Selecting the application,
  PIN verification, and decryption with a PIV key: the ciphertext is wrapped in nested TLVs,
  sent in chained \<^verbatim>\<open>GENERAL AUTHENTICATE\<close> commands, and the answer is unwrapped and stripped of
  its PKCS\#1 type 2 padding.
\<close>

section \<open>Constants\<close>

definition YKPIV_INS_VERIFY :: u8 where "YKPIV_INS_VERIFY = 0x20"
definition YKPIV_INS_AUTHENTICATE :: u8 where "YKPIV_INS_AUTHENTICATE = 0x87"
definition YKPIV_INS_SELECT_APPLICATION :: u8 where "YKPIV_INS_SELECT_APPLICATION = 0xa4"

definition YKPIV_SUCCESS :: u16 where "YKPIV_SUCCESS = 0x9000"
definition YKPIV_ERR_SECURITY_STATUS :: u16 where "YKPIV_ERR_SECURITY_STATUS = 0x6982"

definition YKPIV_ALGO_RSA1024 :: u8 where "YKPIV_ALGO_RSA1024 = 0x06"
definition YKPIV_ALGO_RSA2048 :: u8 where "YKPIV_ALGO_RSA2048 = 0x07"

text \<open>The rest of the 64-byte array of a static initialiser is zero.\<close>

definition MAKE_ATR :: "bytes \<Rightarrow> ifd_atrbuf" where
  "MAKE_ATR s = \<lparr>atr_len = of_nat (length s), atr_data = s @ replicate (IFD_MAX_ATR_LEN - length s) 0\<rparr>"

definition atr_neo_r3 :: ifd_atrbuf where
  "atr_neo_r3 = MAKE_ATR [0x3b, 0xfc, 0x13, 0x00, 0x00, 0x81, 0x31, 0xfe, 0x15, 0x59, 0x75, 0x62,
     0x69, 0x6b, 0x65, 0x79, 0x4e, 0x45, 0x4f, 0x72, 0x33, 0xe1]"

definition atr_yubikey4 :: ifd_atrbuf where
  "atr_yubikey4 = MAKE_ATR [0x3b, 0xf8, 0x13, 0x00, 0x00, 0x81, 0x31, 0xfe, 0x15, 0x59, 0x75, 0x62,
     0x69, 0x6b, 0x65, 0x79, 0x34, 0xd4]"

definition atr_yubikey5 :: ifd_atrbuf where
  "atr_yubikey5 = MAKE_ATR [0x3b, 0xfd, 0x13, 0x00, 0x00, 0x81, 0x31, 0xfe, 0x15, 0x80, 0x73, 0xc0,
     0x21, 0xc0, 0x57, 0x59, 0x75, 0x62, 0x69, 0x4b, 0x65, 0x79, 0x40]"

definition atr_yubikey5_p1 :: ifd_atrbuf where
  "atr_yubikey5_p1 = MAKE_ATR [0x3b, 0xf8, 0x13, 0x00, 0x00, 0x81, 0x31, 0xfe, 0x15, 0x01, 0x59,
     0x75, 0x62, 0x69, 0x4b, 0x65, 0x79, 0xc1]"

datatype yk_variant = YK_VARIANT_NEO_R3 | YK_VARIANT_YUBIKEY_4 | YK_VARIANT_YUBIKEY_5 | YK_VARIANT_YUBIKEY_5_P1

fun variant_code :: "yk_variant \<Rightarrow> u32" where
  "variant_code YK_VARIANT_NEO_R3 = 0"
| "variant_code YK_VARIANT_YUBIKEY_4 = 1"
| "variant_code YK_VARIANT_YUBIKEY_5 = 2"
| "variant_code YK_VARIANT_YUBIKEY_5_P1 = 3"

text \<open>The address of the static \<^verbatim>\<open>yubikey_driver\<close>; any number serves.\<close>

definition yubikey_driver_ref :: driver_ref where "yubikey_driver_ref = 1"

definition yubikey_init :: "registration list \<Rightarrow> registration list" where
  "yubikey_init regs =
     (let regs = ifd_register_card_driver regs atr_neo_r3 ''YubiKey Neo R3'' yubikey_driver_ref
                   (variant_code YK_VARIANT_NEO_R3);
          regs = ifd_register_card_driver regs atr_yubikey4 ''YubiKey 4'' yubikey_driver_ref
                   (variant_code YK_VARIANT_YUBIKEY_4);
          regs = ifd_register_card_driver regs atr_yubikey5 ''YubiKey 5'' yubikey_driver_ref
                   (variant_code YK_VARIANT_YUBIKEY_5)
      in ifd_register_card_driver regs atr_yubikey5_p1 ''YubiKey 5'' yubikey_driver_ref
                   (variant_code YK_VARIANT_YUBIKEY_5_P1))"

section \<open>Application, options, PIN\<close>

definition yubikey_select_application ::
    "'w env \<Rightarrow> ifd_card \<Rightarrow> bytes \<Rightarrow> u64 \<Rightarrow> 'w \<Rightarrow> (bool \<times> ifd_card \<times> 'w) res" where
  "yubikey_select_application env crd aid aid_len w =
     rbind (ifd_build_apdu (junk env) 0x00 YKPIV_INS_SELECT_APPLICATION 0x04 0x00 (Some aid)
              (ucast aid_len)) (\<lambda>apdu.
       case apdu of None \<Rightarrow> Inr (False, crd, w)
       | Some apdu \<Rightarrow> rbind (ifd_card_xfer env crd apdu w) (\<lambda>(r, crd, w).
           case r of None \<Rightarrow> Inr (False, crd, w)
           | Some (rapdu, sw) \<Rightarrow> Inr (sw = YKPIV_SUCCESS, crd, w)))"

text \<open>The value of \<^verbatim>\<open>strtoul\<close> is cut to an \<^verbatim>\<open>unsigned int\<close> before it is tested.\<close>

definition yubikey_set_card_option :: "ifd_card \<Rightarrow> string \<Rightarrow> string option \<Rightarrow> bool \<times> ifd_card" where
  "yubikey_set_card_option crd key value =
     (case value of None \<Rightarrow> (False, crd)
      | Some value \<Rightarrow>
          if key \<noteq> ''key-slot'' then (False, crd)
          else
            (let (v, end_text) = strtoul value 16; slot = ucast v :: u32 in
             if end_text \<noteq> [] then (False, crd)
             else if slot = 0 \<or> slot \<ge> 0xFF then (False, crd)
             else (True, crd\<lparr>key_slot := ucast slot\<rparr>)))"

text \<open>The APDU \<^verbatim>\<open>yubikey_verify\<close> sends, \<open>None\<close> where it returns before the exchange.\<close>

definition verify_apdu :: "(nat \<Rightarrow> u8) \<Rightarrow> bytes option \<Rightarrow> u64 \<Rightarrow> buffer option res" where
  "verify_apdu jk pin pin_len =
     (case pin of None \<Rightarrow> ifd_build_apdu jk 0x00 YKPIV_INS_VERIFY 0x00 0x80 None 0
      | Some pin \<Rightarrow>
          if pin_len > 8 then Inr None
          else rbind (mem_read pin 0 (unat pin_len)) (\<lambda>bs.
               rbind (mem_write (replicate 8 0xFF) 0 bs) (\<lambda>padded_pin.
                 ifd_build_apdu jk 0x00 YKPIV_INS_VERIFY 0x00 0x80 (Some padded_pin) 8)))"

definition yubikey_verify ::
    "'w env \<Rightarrow> ifd_card \<Rightarrow> bytes option \<Rightarrow> u64 \<Rightarrow> 'w \<Rightarrow> (bool \<times> nat option \<times> ifd_card \<times> 'w) res" where
  "yubikey_verify env crd pin pin_len w =
     rbind (verify_apdu (junk env) pin pin_len) (\<lambda>apdu.
       case apdu of None \<Rightarrow> Inr (False, None, crd, w)
       | Some apdu \<Rightarrow> rbind (ifd_card_xfer env crd apdu w) (\<lambda>(r, crd, w).
           case r of None \<Rightarrow> Inr (False, None, crd, w)
           | Some (rapdu, sw) \<Rightarrow>
               if sw AND 0xFF00 = 0x6300 then Inr (False, Some (unat (sw AND 0x000F)), crd, w)
               else Inr (sw = YKPIV_SUCCESS, None, crd, w)))"

definition piv_aid :: bytes where "piv_aid = [0xa0, 0x00, 0x00, 0x03, 0x08]"

definition yubikey_connect :: "'w env \<Rightarrow> ifd_card \<Rightarrow> 'w \<Rightarrow> (bool \<times> ifd_card \<times> 'w) res" where
  "yubikey_connect env crd w =
     rbind (yubikey_select_application env crd piv_aid 5 w) (\<lambda>(ok, crd, w).
       if \<not> ok then Inr (False, crd, w)
       else
         (let crd = (if key_slot crd = 0 then crd\<lparr>key_slot := 0x9e\<rparr> else crd) in
          rbind (yubikey_verify env crd None 0 w) (\<lambda>(ok, _, crd, w).
            Inr (True, if ok then crd\<lparr>pin_required := False\<rparr> else crd, w))))"

section \<open>The argument encoder\<close>

text \<open>The encoder fills a 1024-byte array from its end; \<open>pos\<close> is the first byte in use.\<close>

definition enc_push_byte :: "bytes \<times> u32 \<Rightarrow> u8 \<Rightarrow> (bytes \<times> u32) res" where
  "enc_push_byte s byte =
     (case s of (encoded, pos) \<Rightarrow>
        rbind (arr_set encoded (unat (pos - 1)) byte) (\<lambda>encoded. Inr (encoded, pos - 1)))"

definition enc_push_length :: "bytes \<times> u32 \<Rightarrow> u32 \<Rightarrow> (bytes \<times> u32) res" where
  "enc_push_length s len =
     rbind (enc_push_byte s (ucast len)) (\<lambda>s.
       if len < 0x80 then Inr s
       else if len < 0x100 then enc_push_byte s 0x81
       else rbind (enc_push_byte s (ucast (drop_bit 8 len))) (\<lambda>s. enc_push_byte s 0x82))"

definition enc_push :: "bytes \<times> u32 \<Rightarrow> bytes \<Rightarrow> u32 \<Rightarrow> (bytes \<times> u32) res" where
  "enc_push s data count =
     (case s of (encoded, pos) \<Rightarrow>
        if count > pos then Inr (encoded, 0)
        else rbind (mem_read data 0 (unat count)) (\<lambda>bs.
             rbind (mem_write encoded (unat (pos - count)) bs) (\<lambda>encoded. Inr (encoded, pos - count))))"

text \<open>\<^verbatim>\<open>yubikey_encode_decipher_args\<close> does not use its first parameter.\<close>

definition yubikey_encode_decipher_args ::
    "(nat \<Rightarrow> u8) \<Rightarrow> u8 \<Rightarrow> bytes \<Rightarrow> u32 \<Rightarrow> buffer option res" where
  "yubikey_encode_decipher_args jk algorithm ciphertext in_len =
     (let s = (replicate 1024 0, 1024 :: u32) in
      if in_len + 32 > snd s then Inr None
      else rbind (enc_push s ciphertext in_len) (\<lambda>s.
           rbind (enc_push_length s in_len) (\<lambda>s.
           rbind (enc_push_byte s 0x81) (\<lambda>s.
           rbind (enc_push_byte s 0x00) (\<lambda>s.
           rbind (enc_push_byte s 0x82) (\<lambda>s.
           rbind (enc_push_length s (1024 - snd s)) (\<lambda>s.
           rbind (enc_push_byte s 0x7c) (\<lambda>(encoded, pos).
             rbind (buffer_put (buffer_alloc_write jk 1024) (drop (unat pos) encoded) (1024 - pos)) (\<lambda>(_, result).
               Inr (Some result))))))))))"

section \<open>The response decoder\<close>

text \<open>The reads of the decoder are not checked against the length of the response.\<close>

definition decode_length :: "bytes \<Rightarrow> u32 \<Rightarrow> (u32 \<times> u32) res" where
  "decode_length encoded pos =
     rbind (mem_get encoded (unat pos)) (\<lambda>b.
       if b = 0x81 then rbind (mem_get encoded (unat (pos + 1))) (\<lambda>b1. Inr (ucast b1, pos + 2))
       else if b = 0x82 then
         rbind (mem_get encoded (unat (pos + 1))) (\<lambda>b1.
           rbind (mem_get encoded (unat (pos + 2))) (\<lambda>b2.
             Inr (push_bit 8 (ucast b1) OR ucast b2, pos + 3)))
       else Inr (ucast b, pos + 1))"

definition yubikey_decode_decipher_resp :: "buffer \<Rightarrow> (bool \<times> buffer) res" where
  "yubikey_decode_decipher_resp resp =
     (let data = buffer_read_pointer resp in
      rbind (mem_get data 0) (\<lambda>b.
        if b \<noteq> 0x7c then Inr (False, resp)
        else rbind (decode_length data 1) (\<lambda>(_, i).
          rbind (mem_get data (unat i)) (\<lambda>b.
            if b \<noteq> 0x82 then Inr (False, resp)
            else rbind (decode_length data (i + 1)) (\<lambda>(_, i). Inr (buffer_skip resp i))))))"

function pkcs1_scan :: "bytes \<Rightarrow> u32 \<Rightarrow> u32 \<Rightarrow> u32 option res" where
  "pkcs1_scan data len i =
     (if i < len then
        rbind (mem_get data (unat i)) (\<lambda>b. if b = 0 then Inr (Some i) else pkcs1_scan data len (i + 1))
      else Inr None)"
  by pat_completeness auto
termination
proof (relation "measure (\<lambda>(data, len, i). unat len - unat i)")
  fix data :: bytes and len i :: u32 and b
  assume "i < len"
  then have "unat i < unat len" by (simp add: word_less_nat_alt)
  then have "unat (i + 1) = Suc (unat i)"
    using unat_u32_lt [of len] by (subst unat_add_small) (simp_all del: unat_u32_lt)
  with \<open>unat i < unat len\<close> show "((data, len, i + 1), data, len, i)
      \<in> measure (\<lambda>(data, len, i). unat len - unat i)" by simp
qed simp

declare pkcs1_scan.simps [simp del]

text \<open>The first \<^verbatim>\<open>debug\<close> call reads both leading bytes.\<close>

definition pkcs1_type2_padding_remove :: "buffer \<Rightarrow> (bool \<times> buffer) res" where
  "pkcs1_type2_padding_remove bp =
     (let data = buffer_read_pointer bp; len = buffer_available bp in
      rbind (mem_get data 0) (\<lambda>b0. rbind (mem_get data 1) (\<lambda>b1.
        if b0 \<noteq> 0x00 \<or> b1 \<noteq> 0x02 then Inr (False, bp)
        else rbind (pkcs1_scan data len 2) (\<lambda>r.
          case r of None \<Rightarrow> Inr (False, bp)
          | Some i \<Rightarrow> (case buffer_skip bp (i + 1) of (_, bp) \<Rightarrow> Inr (True, bp))))))"

section \<open>Decryption\<close>

text \<open>One chunk: at most 255 bytes, with the chaining bit set in the class byte while more follow.\<close>

definition chunk_len :: "u32 \<Rightarrow> u32" where
  "chunk_len len = (if len > 0xFF then 0xFF else len)"

definition chunk_cla :: "u32 \<Rightarrow> u8" where
  "chunk_cla len = (if len > 0xFF then 0x00 OR 0x10 else 0x00)"

lemma ucast_avail_le: "(ucast (ucast (x :: u64) :: u32) :: u64) \<le> x"
  by (simp add: word_le_nat_alt unat_ucast_64_32)

lemma chunk_len_le: "chunk_len n \<le> n"
  by (auto simp: chunk_len_def word_le_nat_alt word_less_nat_alt)

lemma chunk_len_0: "chunk_len n = 0 \<longleftrightarrow> n = 0"
  by (auto simp: chunk_len_def)

lemma skip_chunk:
  fixes bp :: buffer
  defines "n \<equiv> buffer_available bp"
  shows "buffer_skip bp (chunk_len n) = (True, bp\<lparr>rpos := rpos bp + ucast (chunk_len n)\<rparr>)"
proof -
  have "(ucast (chunk_len n) :: u64) \<le> ucast n"
    using chunk_len_le [of n] by (simp add: word_le_nat_alt)
  also have "\<dots> \<le> wpos bp - rpos bp"
    unfolding n_def buffer_available_def by (rule ucast_avail_le)
  finally show ?thesis by (simp add: buffer_skip_def)
qed

lemma skip_chunk_shrinks:
  assumes "buffer_available bp \<noteq> 0"
  shows "unat (wpos bp - (rpos bp + ucast (chunk_len (buffer_available bp)))) < unat (wpos bp - rpos bp)"
proof -
  let ?x = "wpos bp - rpos bp" and ?c = "ucast (chunk_len (buffer_available bp)) :: u64"
  have c: "?c \<le> ?x"
    using skip_chunk [of bp] by (auto simp: buffer_skip_def not_less split: if_splits)
  have "chunk_len (buffer_available bp) \<noteq> 0"
    using assms by (simp add: chunk_len_0)
  then have "0 < unat ?c"
    by (simp add: unat_gt_0)
  moreover have eq: "wpos bp - (rpos bp + ?c) = ?x - ?c"
    by (simp add: diff_diff_eq)
  ultimately show ?thesis
    unfolding eq unat_diff [OF c] using c by (simp add: word_le_nat_alt del: unat_ucast_32_64)
qed

text \<open>The loop of \<^verbatim>\<open>yubikey_decipher\<close>; \<open>None\<close> where it jumps to \<^verbatim>\<open>done\<close>, otherwise the last
  response (a null pointer if there was none).\<close>

function decipher_loop ::
    "'w env \<Rightarrow> ifd_card \<Rightarrow> u8 \<Rightarrow> u32 \<Rightarrow> buffer \<Rightarrow> buffer option \<Rightarrow> 'w
       \<Rightarrow> (buffer option option \<times> ifd_card \<times> 'w) res" where
  "decipher_loop env crd algorithm key data rapdu w =
     (if buffer_available data = 0 then Inr (Some rapdu, crd, w)
      else
        (let len = chunk_len (buffer_available data); cla = chunk_cla (buffer_available data) in
         rbind (ifd_build_apdu (junk env) cla YKPIV_INS_AUTHENTICATE algorithm (ucast key)
                  (Some (buffer_read_pointer data)) len) (\<lambda>apdu.
           case apdu of None \<Rightarrow> Inl Null_Deref
           | Some apdu \<Rightarrow> rbind (ifd_card_xfer env crd apdu w) (\<lambda>(r, crd, w).
               case r of None \<Rightarrow> Inr (None, crd, w)
               | Some (rapdu, sw) \<Rightarrow>
                   if sw = YKPIV_SUCCESS then
                     (case buffer_skip data len of (_, data) \<Rightarrow>
                        decipher_loop env crd algorithm key data (Some rapdu) w)
                   else Inr (None, crd, w)))))"
  by pat_completeness auto
termination
  by (relation "measure (\<lambda>(env, crd, algorithm, key, data, rapdu, w). unat (wpos data - rpos data))")
    (auto simp: skip_chunk skip_chunk_shrinks)

declare decipher_loop.simps [simp del]

definition decipher_algorithm :: "u32 \<Rightarrow> u8 option" where
  "decipher_algorithm in_len =
     (if in_len = 128 then Some YKPIV_ALGO_RSA1024
      else if in_len = 256 then Some YKPIV_ALGO_RSA2048 else None)"

text \<open>What follows the loop: the response is decoded, the padding removed, the cleartext dumped.\<close>

definition decipher_finish ::
    "buffer option option \<Rightarrow> ifd_card \<Rightarrow> 'w \<Rightarrow> (buffer option \<times> ifd_card \<times> 'w) res" where
  "decipher_finish r crd w =
     (case r of None \<Rightarrow> Inr (None, crd, w)
      | Some None \<Rightarrow> Inl Null_Deref
      | Some (Some rapdu) \<Rightarrow>
          rbind (yubikey_decode_decipher_resp rapdu) (\<lambda>(ok, rapdu).
            if \<not> ok then Inr (None, crd, w)
            else rbind (pkcs1_type2_padding_remove rapdu) (\<lambda>(ok, rapdu).
              if \<not> ok then Inr (None, crd, w)
              else rbind (hexdump (buffer_read_pointer rapdu) (ucast (buffer_available rapdu)) 4) (\<lambda>_.
                Inr (Some rapdu, crd, w)))))"

definition yubikey_decipher ::
    "'w env \<Rightarrow> ifd_card \<Rightarrow> buffer \<Rightarrow> 'w \<Rightarrow> (buffer option \<times> ifd_card \<times> 'w) res" where
  "yubikey_decipher env crd ciphertext w =
     (let key = ucast (key_slot crd); in_len = buffer_available ciphertext in
      rbind (if opt_debug env > 1
             then rbind (hexdump (buffer_read_pointer ciphertext) (ucast in_len) 4) (\<lambda>_. Inr ())
             else Inr ()) (\<lambda>_.
      case decipher_algorithm in_len of None \<Rightarrow> Inr (None, crd, w)
      | Some algorithm \<Rightarrow>
          rbind (yubikey_encode_decipher_args (junk env) algorithm (buffer_read_pointer ciphertext) in_len) (\<lambda>data.
            case data of None \<Rightarrow> Inl Null_Deref
            | Some data \<Rightarrow>
                rbind (decipher_loop env crd algorithm key data None w) (\<lambda>(r, crd, w).
                  decipher_finish r crd w))))"

text \<open>The table of driver structures: the program has this one.\<close>

definition yubikey_driver :: "'w ifd_card_driver" where
  "yubikey_driver = \<lparr>set_option_fn = Some yubikey_set_card_option,
     connect_fn = Some yubikey_connect, verify_fn = Some yubikey_verify,
     decipher_fn = Some yubikey_decipher\<rparr>"

definition card_drivers :: "'w drivers" where
  "card_drivers r = yubikey_driver"

section \<open>The TLV encoding\<close>

text \<open>The reference: definite lengths of BER, in the shortest form, and tag-length-value objects.\<close>

definition ber_length :: "nat \<Rightarrow> bytes" where
  "ber_length n =
     (if n < 0x80 then [of_nat n]
      else if n < 0x100 then [0x81, of_nat n]
      else [0x82, of_nat (n div 256), of_nat n])"

definition tlv :: "u8 \<Rightarrow> bytes \<Rightarrow> bytes" where
  "tlv tag body = tag # ber_length (length body) @ body"

text \<open>The dynamic authentication template: an empty response object and the challenge.\<close>

definition decipher_args :: "bytes \<Rightarrow> bytes" where
  "decipher_args ciphertext = tlv 0x7c (tlv 0x82 [] @ tlv 0x81 ciphertext)"

text \<open>The bytes the encoder has produced so far.\<close>

definition enc_ok :: "bytes \<times> u32 \<Rightarrow> nat \<Rightarrow> bool" where
  "enc_ok s n \<longleftrightarrow> length (fst s) = 1024 \<and> unat (snd s) + n = 1024"

definition enc_out :: "bytes \<times> u32 \<Rightarrow> bytes" where
  "enc_out s = drop (unat (snd s)) (fst s)"

lemma push_byte_ok:
  assumes "enc_ok s n" and "n < 1024"
  shows "\<exists>s'. enc_push_byte s b = Inr s' \<and> enc_ok s' (Suc n) \<and> enc_out s' = b # enc_out s"
proof -
  obtain e p where s: "s = (e, p)" by (cases s)
  have e: "length e = 1024" "unat p + n = 1024"
    using assms(1) by (simp_all add: enc_ok_def s)
  with assms(2) have "1 \<le> p" by (simp add: word_le_nat_alt)
  then have p: "unat (p - 1) = unat p - 1" by (simp add: unat_diff)
  have "unat p = Suc (unat p - 1)" "unat p - 1 < length e"
    using e assms(2) by simp_all
  then have "drop (unat p - 1) (e[unat p - 1 := b]) = b # drop (unat p) e"
    by (metis Cons_nth_drop_Suc drop_update_cancel length_list_update lessI nth_list_update_eq)
  then show ?thesis
    using e assms(2) by (simp add: enc_push_byte_def s p arr_in enc_ok_def enc_out_def)
qed

lemma push_ok:
  assumes "enc_ok s n" and "n + unat count \<le> 1024" and "unat count \<le> length data"
  shows "\<exists>s'. enc_push s data count = Inr s' \<and> enc_ok s' (n + unat count)
    \<and> enc_out s' = take (unat count) data @ enc_out s"
proof -
  obtain e p where s: "s = (e, p)" by (cases s)
  have e: "length e = 1024" "unat p + n = 1024"
    using assms(1) by (simp_all add: enc_ok_def s)
  with assms(2) have c: "count \<le> p" by (simp add: word_le_nat_alt)
  then have p: "unat (p - count) = unat p - unat count" and nc: "\<not> count > p"
    by (simp_all add: unat_diff)
  have "unat count \<le> unat p" using c by (simp add: word_le_nat_alt)
  then show ?thesis
    using e assms(2,3) nc
    by (simp add: enc_push_def s p mem_read_in mem_write_in enc_ok_def enc_out_def)
qed

lemma ucast_of_nat_8: "n < 4294967296 \<Longrightarrow> ucast (of_nat n :: u32) = (of_nat n :: u8)"
  by (simp add: word_unat_eq_iff unat_ucast_32_8 unat_of_nat take_bit_eq_mod)

lemma push_length_ok:
  assumes "enc_ok s n" and "n + 3 \<le> 1024" and "unat len < 65536"
  shows "\<exists>s'. enc_push_length s len = Inr s' \<and> enc_ok s' (n + length (ber_length (unat len)))
    \<and> enc_out s' = ber_length (unat len) @ enc_out s"
proof -
  have high: "ucast (drop_bit 8 len) = (of_nat (unat len div 256) :: u8)"
    by (simp add: word_unat_eq_iff unat_ucast_32_8 unat_of_nat take_bit_eq_mod unat_drop_bit_eq drop_bit_eq_div
        unat_div_distrib)
  obtain s1 where s1: "enc_push_byte s (of_nat (unat len)) = Inr s1" "enc_ok s1 (Suc n)"
      "enc_out s1 = of_nat (unat len) # enc_out s"
    using push_byte_ok [OF assms(1)] assms(2) by fastforce
  show ?thesis
  proof (cases "unat len < 0x80")
    case True
    with s1 show ?thesis
      by (simp add: enc_push_length_def ber_length_def word_less_nat_alt)
  next
    case ge: False
    show ?thesis
    proof (cases "unat len < 0x100")
      case True
      obtain s2 where "enc_push_byte s1 0x81 = Inr s2" "enc_ok s2 (Suc (Suc n))"
          "enc_out s2 = 0x81 # enc_out s1"
        using push_byte_ok [OF s1(2)] assms(2) by fastforce
      with True ge s1 show ?thesis
        by (simp add: enc_push_length_def ber_length_def word_less_nat_alt)
    next
      case False
      obtain s2 where s2: "enc_push_byte s1 (of_nat (unat len div 256)) = Inr s2"
          "enc_ok s2 (Suc (Suc n))" "enc_out s2 = of_nat (unat len div 256) # enc_out s1"
        using push_byte_ok [OF s1(2)] assms(2) by fastforce
      obtain s3 where "enc_push_byte s2 0x82 = Inr s3" "enc_ok s3 (Suc (Suc (Suc n)))"
          "enc_out s3 = 0x82 # enc_out s2"
        using push_byte_ok [OF s2(2)] assms(2) by fastforce
      with False ge s1 s2 show ?thesis
        by (simp add: enc_push_length_def high ber_length_def word_less_nat_alt)
    qed
  qed
qed

lemma ber_length_length: "length (ber_length n) \<le> 3"
  by (simp add: ber_length_def)

lemma enc_left:
  assumes "enc_ok s n"
  shows "1024 - snd s = of_nat n" and "length (enc_out s) = n"
proof -
  have "snd s \<le> 1024" using assms by (simp add: enc_ok_def word_le_nat_alt)
  then have "unat (1024 - snd s) = n" using assms by (auto simp: unat_diff enc_ok_def)
  then show "1024 - snd s = of_nat n" by (metis of_nat_unat ucast_id)
  show "length (enc_out s) = n" using assms by (auto simp: enc_out_def enc_ok_def)
qed

lemma encode_args_ok:
  assumes "unat in_len \<le> 992" and "unat in_len \<le> length ciphertext"
  shows "\<exists>b. yubikey_encode_decipher_args jk alg ciphertext in_len = Inr (Some b) \<and> buf_ok b
    \<and> contents b = decipher_args (take (unat in_len) ciphertext)"
proof -
  let ?ct = "take (unat in_len) ciphertext" and ?s0 = "(replicate 1024 0, 1024 :: u32)"
  let ?L = "length (ber_length (unat in_len))"
  have "unat (in_len + 32) = unat in_len + 32"
    using assms(1) by (subst unat_add_small) simp_all
  then have fits: "\<not> in_len + 32 > snd ?s0"
    using assms(1) by (simp add: word_less_nat_alt)
  have "enc_ok ?s0 0" "enc_out ?s0 = []" by (simp_all add: enc_ok_def enc_out_def)
  then obtain s1 where s1: "enc_push ?s0 ciphertext in_len = Inr s1" "enc_ok s1 (unat in_len)" "enc_out s1 = ?ct"
    using push_ok [of ?s0 0 in_len ciphertext] assms by auto
  obtain s2 where s2: "enc_push_length s1 in_len = Inr s2" "enc_ok s2 (unat in_len + ?L)"
      "enc_out s2 = ber_length (unat in_len) @ ?ct"
    using push_length_ok [OF s1(2), of in_len] assms(1) s1(3) by auto
  have L: "?L \<le> 3" by (rule ber_length_length)
  obtain s3 where s3: "enc_push_byte s2 0x81 = Inr s3" "enc_ok s3 (Suc (unat in_len + ?L))"
      "enc_out s3 = 0x81 # enc_out s2"
    using push_byte_ok [OF s2(2)] assms(1) L by fastforce
  obtain s4 where s4: "enc_push_byte s3 0x00 = Inr s4" "enc_ok s4 (Suc (Suc (unat in_len + ?L)))"
      "enc_out s4 = 0x00 # enc_out s3"
    using push_byte_ok [OF s3(2)] assms(1) L by fastforce
  obtain s5 where s5: "enc_push_byte s4 0x82 = Inr s5" "enc_ok s5 (Suc (Suc (Suc (unat in_len + ?L))))"
      "enc_out s5 = 0x82 # enc_out s4"
    using push_byte_ok [OF s4(2)] assms(1) L by fastforce
  let ?n = "length (enc_out s5)"
  have n: "?n = unat in_len + ?L + 3" "1024 - snd s5 = of_nat ?n" and s5n: "enc_ok s5 ?n"
    using enc_left [OF s5(2)] s5(2) by simp_all
  then have nn2: "?n \<le> 998" using assms(1) L by simp
  then have "?n < 4294967296" by simp
  then have nn: "unat (of_nat ?n :: u32) = ?n" "?n \<le> 998"
    by (rule of_nat_u32) (rule nn2)
  obtain s6 where s6: "enc_push_length s5 (of_nat ?n) = Inr s6"
      "enc_ok s6 (?n + length (ber_length ?n))" "enc_out s6 = ber_length ?n @ enc_out s5"
    using push_length_ok [OF s5n, of "of_nat ?n"] nn by auto
  have Ln: "length (ber_length ?n) \<le> 3" by (rule ber_length_length)
  obtain s7 where s7: "enc_push_byte s6 0x7c = Inr s7" "enc_ok s7 (Suc (?n + length (ber_length ?n)))"
      "enc_out s7 = 0x7c # enc_out s6"
    using push_byte_ok [OF s6(2)] nn Ln by fastforce
  have out: "enc_out s7 = decipher_args ?ct"
    using assms(2)
    by (simp add: s7(3) s6(3) s5(3) s4(3) s3(3) s2(3) decipher_args_def tlv_def ber_length_def [of 0] min_def)
  let ?m = "length (enc_out s7)"
  have m: "1024 - snd s7 = of_nat ?m" "?m \<le> 1024"
    using enc_left [OF s7(2)] nn Ln by simp_all
  then have mm: "unat (of_nat ?m :: u32) = ?m" by (simp add: of_nat_u32)
  let ?b = "buffer_alloc_write jk 1024"
  have b: "buf_ok ?b" "contents ?b = []" "room ?b = 1024"
    using alloc_ok [of 1024 jk] by (simp_all add: round8_def)
  have "buffer_put ?b (drop (unat (snd s7)) (fst s7)) (1024 - snd s7)
      = Inr (True, buf_append ?b (enc_out s7))"
    using buffer_put_True [OF b(1), of "of_nat ?m" "enc_out s7"] mm m(2) b(3)
    by (simp add: m(1)) (simp add: enc_out_def)
  then have "yubikey_encode_decipher_args jk alg ciphertext in_len
      = Inr (Some (buf_append ?b (enc_out s7)))"
    using fits n(2)
    by (cases s7) (simp add: yubikey_encode_decipher_args_def Let_def s1(1) s2(1) s3(1) s4(1) s5(1) s6(1) s7(1))
  then show ?thesis
    using b m(2) by (simp add: buf_append_ok contents_append out)
qed

section \<open>Decoding\<close>

lemma mem_get_mid: "mem_get (xs @ y # zs) (length xs) = Inr y"
  by (simp add: mem_get_in)

lemma mem_get_at:
  assumes "n = length xs"
  shows "mem_get (xs @ y # zs) n = Inr y"
  using assms by (simp add: mem_get_mid)

text \<open>The decoder steps over a length; its value is not used by the callers.\<close>

lemma decode_length_ok:
  assumes "unat pos = length xs" and "length xs + 3 < 2 ^ 32" and "n < 65536"
  shows "\<exists>v pos'. decode_length (xs @ ber_length n @ zs) pos = Inr (v, pos')
    \<and> unat pos' = length xs + length (ber_length n) \<and> unat v = n"
proof -
  have p: "unat (pos + 1) = length xs + 1" "unat (pos + 2) = length xs + 2" "unat (pos + 3) = length xs + 3"
    using assms(1,2) by (subst unat_add_small; simp)+
  consider "n < 0x80" | "0x80 \<le> n" "n < 0x100" | "0x100 \<le> n" by linarith
  then show ?thesis
  proof cases
    case 1
    then have b: "ber_length n = [of_nat n]" by (simp add: ber_length_def)
    have "(of_nat n :: u8) \<noteq> 0x81" "(of_nat n :: u8) \<noteq> 0x82" "unat (of_nat n :: u8) = n"
      using 1 by (simp_all add: word_unat_eq_iff unat_of_nat take_bit_eq_mod)
    with p assms(1) b show ?thesis by (simp add: decode_length_def mem_get_in nth_append)
  next
    case 2
    then have b: "ber_length n = [0x81, of_nat n]" by (simp add: ber_length_def)
    have "unat (of_nat n :: u8) = n"
      using 2 by (simp add: unat_of_nat take_bit_eq_mod)
    with p assms(1) b show ?thesis by (simp add: decode_length_def mem_get_in nth_append)
  next
    case 3
    then have b: "ber_length n = [0x82, of_nat (n div 256), of_nat n]" by (simp add: ber_length_def)
    have "unat (push_bit 8 (ucast (of_nat (n div 256) :: u8)) OR ucast (of_nat n :: u8) :: u32) = n"
    proof -
      have u: "unat (ucast (of_nat (n div 256) :: u8) :: u32) = n div 256"
          "unat (ucast (of_nat n :: u8) :: u32) = n mod 256"
        using assms(3) by (simp_all add: unat_of_nat take_bit_eq_mod)
      have "push_bit 8 (ucast (of_nat (n div 256) :: u8)) OR ucast (of_nat n :: u8)
          = (of_nat n :: u32)"
      proof (rule bit_word_eqI)
        fix i
        assume i: "i < LENGTH(32)"
        show "bit (push_bit 8 (ucast (of_nat (n div 256) :: u8)) OR ucast (of_nat n :: u8) :: u32) i
            = bit (of_nat n :: u32) i"
        proof (cases "i < 8")
          case True
          then show ?thesis by (simp add: bit_or_iff bit_push_bit_iff bit_unsigned_iff bit_of_nat_iff)
        next
          case False
          have "n div 256 = drop_bit 8 n" by (simp add: drop_bit_eq_div)
          moreover have "bit n i \<Longrightarrow> i - 8 < 8"
          proof -
            assume "bit n i"
            then have "2 ^ i \<le> n" by (metis bit_iff_odd div_less even_zero not_less)
            then have "(2::nat) ^ i < 2 ^ 16" using assms(3) by simp
            then have "i < 16" by (rule power_less_imp_less_exp [rotated]) simp
            then show "i - 8 < 8" by simp
          qed
          ultimately show ?thesis using False i
            by (auto simp: bit_or_iff bit_push_bit_iff bit_unsigned_iff bit_of_nat_iff bit_drop_bit_eq)
        qed
      qed
      then show ?thesis using assms(3) by (simp add: of_nat_u32)
    qed
    with p assms(1) b show ?thesis by (simp add: decode_length_def mem_get_in nth_append)
  qed
qed

text \<open>A well-formed response is stripped of its two headers.\<close>

definition decipher_response :: "bytes \<Rightarrow> bytes" where
  "decipher_response m = tlv 0x7c (tlv 0x82 m)"

lemma header_split: "decipher_response m =
  (0x7c # ber_length (length (tlv 0x82 m)) @ 0x82 # ber_length (length m)) @ m"
  by (simp add: decipher_response_def tlv_def)

lemma contents_read_pointer:
  assumes "buf_ok b"
  shows "\<exists>rest. buffer_read_pointer b = contents b @ rest"
  using read_pointer_prefix [OF assms] by (metis append_take_drop_id)

lemma decode_resp_ok:
  assumes "buf_ok b" and "contents b = decipher_response m" and "length m < 65000"
  shows "\<exists>b'. yubikey_decode_decipher_resp b = Inr (True, b') \<and> buf_ok b' \<and> contents b' = m"
proof -
  let ?l1 = "ber_length (length (tlv 0x82 m))" and ?l2 = "ber_length (length m)"
  obtain rest where p: "buffer_read_pointer b = decipher_response m @ rest"
    using contents_read_pointer [OF assms(1)] assms(2) by auto
  have L: "length ?l1 \<le> 3" "length ?l2 \<le> 3" by (rule ber_length_length)+
  have tl: "length (tlv 0x82 m) < 65536"
    using assms(3) L(2) by (simp add: tlv_def)
  obtain v i where d1: "decode_length (buffer_read_pointer b) 1 = Inr (v, i)" "unat i = 1 + length ?l1"
    using decode_length_ok [of 1 "[0x7c]" "length (tlv 0x82 m)" "0x82 # ?l2 @ m @ rest"] tl
    by (auto simp: p header_split)
  let ?xs = "0x7c # ?l1 @ [0x82]"
  have "unat (i + 1) = length ?xs"
    using d1(2) L(1) by (subst unat_add_small) simp_all
  then obtain v2 j where d2: "decode_length (buffer_read_pointer b) (i + 1) = Inr (v2, j)"
      "unat j = length ?xs + length ?l2"
    using decode_length_ok [of "i + 1" ?xs "length m" "m @ rest"] assms(3) L(1)
    by (auto simp: p header_split)
  have g0: "mem_get (buffer_read_pointer b) 0 = Inr 0x7c"
    by (simp add: p header_split mem_get_in)
  have g1: "mem_get (buffer_read_pointer b) (unat i) = Inr 0x82"
    using mem_get_at [where n = "unat i" and xs = "0x7c # ?l1" and y = "0x82" and zs = "?l2 @ m @ rest"] d1(2)
    by (simp add: p header_split)
  have hdr: "unat j = length (0x7c # ?l1 @ 0x82 # ?l2)"
    using d2(2) by simp
  have c: "contents b = (0x7c # ?l1 @ 0x82 # ?l2) @ m"
    using assms(2) by (simp add: header_split)
  have "unat j \<le> length (contents b)"
    unfolding c hdr by simp
  then have "buffer_skip b j = (True, buf_drop b (unat j))" "buf_ok (buf_drop b (unat j))"
      "contents (buf_drop b (unat j)) = drop (unat j) (contents b)"
    using assms(1) by (simp_all add: buf_simps)
  moreover have "drop (unat j) (contents b) = m"
    unfolding c hdr by simp
  ultimately show ?thesis
    by (simp add: yubikey_decode_decipher_resp_def Let_def g0 g1 d1(1) d2(1))
qed

section \<open>Padding\<close>

text \<open>PKCS\#1 block type 2: the bytes 0 and 2, padding without a zero, a zero, the message.
  \<open>strip_padding\<close> is the reference decoder, applied to what the response holds.\<close>

definition pkcs1_block :: "bytes \<Rightarrow> bytes \<Rightarrow> bytes" where
  "pkcs1_block padding m = [0x00, 0x02] @ padding @ [0x00] @ m"

definition strip_padding :: "bytes \<Rightarrow> bytes option" where
  "strip_padding bs =
     (if take 2 bs \<noteq> [0x00, 0x02] then None
      else (case dropWhile (\<lambda>b. b \<noteq> 0) (drop 2 bs) of [] \<Rightarrow> None | _ # m \<Rightarrow> Some m))"

lemma strip_pkcs1_block: "0 \<notin> set padding \<Longrightarrow> strip_padding (pkcs1_block padding m) = Some m"
  by (auto simp: strip_padding_def pkcs1_block_def dropWhile_append)

lemma pkcs1_scan_takeWhile:
  "unat len \<le> length data \<Longrightarrow> unat i \<le> unat len \<Longrightarrow>
    (let xs = drop (unat i) (take (unat len) data) in
     if 0 \<in> set xs
     then \<exists>j. pkcs1_scan data len i = Inr (Some j) \<and> j < len
            \<and> unat j = unat i + length (takeWhile (\<lambda>b. b \<noteq> 0) xs)
     else pkcs1_scan data len i = Inr None)"
proof (induction data len i rule: pkcs1_scan.induct)
  case (1 data len i)
  let ?xs = "drop (unat i) (take (unat len) data)"
  show ?case
  proof (cases "i < len")
    case False
    then have "unat len \<le> unat i" by (simp add: word_less_nat_alt)
    with False show ?thesis by (subst pkcs1_scan.simps) simp
  next
    case True
    then have lt: "unat i < unat len" by (simp add: word_less_nat_alt)
    then have suc: "unat (i + 1) = Suc (unat i)"
      using unat_u32_lt [of len] by (subst unat_add_small) (simp_all del: unat_u32_lt)
    have get: "mem_get data (unat i) = Inr (data ! unat i)"
      using lt "1.prems"(1) by (simp add: mem_get_in)
    have xs: "?xs = data ! unat i # drop (unat (i + 1)) (take (unat len) data)"
      unfolding suc using lt "1.prems"(1)
      by (metis Cons_nth_drop_Suc length_take min.absorb2 nth_take)
    show ?thesis
    proof (cases "data ! unat i = 0")
      case z: True
      with True get have "pkcs1_scan data len i = Inr (Some i)"
        by (subst pkcs1_scan.simps) simp
      with z True show ?thesis by (simp add: xs Let_def)
    next
      case nz: False
      with True get have run: "pkcs1_scan data len i = pkcs1_scan data len (i + 1)"
        by (subst pkcs1_scan.simps) simp
      have "unat (i + 1) \<le> unat len" using lt suc by simp
      from "1.IH" [OF True get nz "1.prems"(1) this] nz
      show ?thesis
        unfolding run xs Let_def by (simp add: suc split: if_splits)
    qed
  qed
qed

lemma padding_remove_strip:
  assumes "buf_ok b" and "2 \<le> length (contents b)"
  shows "case strip_padding (contents b) of None \<Rightarrow> pkcs1_type2_padding_remove b = Inr (False, b)
    | Some m \<Rightarrow> \<exists>b'. pkcs1_type2_padding_remove b = Inr (True, b') \<and> buf_ok b' \<and> contents b' = m"
proof -
  let ?c = "contents b" and ?d = "buffer_read_pointer b" and ?len = "buffer_available b"
  have len: "unat ?len = length ?c" using assms(1) by (rule unat_available)
  have d: "length ?c \<le> length ?d" "take (unat ?len) ?d = ?c"
    using assms(1) by (simp_all add: len read_pointer_length read_pointer_prefix)
  obtain b0 b1 bs where c: "?c = b0 # b1 # bs"
    using assms(2) by (cases ?c rule: remdups_adj.cases) auto
  have g: "mem_get ?d 0 = Inr b0" "mem_get ?d 1 = Inr b1"
    using contents_read_pointer [OF assms(1)] by (auto simp: mem_get_in c)
  show ?thesis
  proof (cases "b0 = 0 \<and> b1 = 2")
    case False
    then have "strip_padding ?c = None" by (auto simp: strip_padding_def c)
    with False g show ?thesis by (auto simp: pkcs1_type2_padding_remove_def Let_def)
  next
    case True
    have scan: "if 0 \<in> set bs
      then \<exists>j. pkcs1_scan ?d ?len 2 = Inr (Some j) \<and> j < ?len
             \<and> unat j = 2 + length (takeWhile (\<lambda>b. b \<noteq> 0) bs)
      else pkcs1_scan ?d ?len 2 = Inr None"
    proof -
      have u2: "unat (2 :: u32) = 2" by simp
      have xs: "drop 2 (take (unat ?len) ?d) = bs" unfolding d(2) c by simp
      have "unat ?len \<le> length ?d" "unat (2 :: u32) \<le> unat ?len"
        using d(1) assms(2) by (simp_all add: len)
      from pkcs1_scan_takeWhile [OF this] show ?thesis by (simp only: u2 xs Let_def)
    qed
    show ?thesis
    proof (cases "0 \<in> set bs")
      case False
      then have dw: "dropWhile (\<lambda>b. b \<noteq> 0) bs = []" by auto
      have "strip_padding ?c = None" by (simp add: strip_padding_def c dw)
      with False True scan g show ?thesis
        by (simp add: pkcs1_type2_padding_remove_def Let_def)
    next
      case z: True
      then obtain j where j: "pkcs1_scan ?d ?len 2 = Inr (Some j)" "j < ?len"
          "unat j = 2 + length (takeWhile (\<lambda>b. b \<noteq> 0) bs)"
        using scan by auto
      obtain x m where m: "dropWhile (\<lambda>b. b \<noteq> 0) bs = x # m"
        using z by (cases "dropWhile (\<lambda>b. b \<noteq> 0) bs") auto
      have jl: "unat j < length ?c" using j(2) by (simp add: word_less_nat_alt len)
      then have j1: "unat (j + 1) = Suc (unat j)"
        using contents_bound [OF assms(1)] by (subst unat_add_small) simp_all
      have "bs = takeWhile (\<lambda>b. b \<noteq> 0) bs @ x # m"
        using m by (metis takeWhile_dropWhile_id)
      then have "drop (Suc (unat j)) ?c = m"
      proof -
        have "drop (Suc (unat j)) ?c = drop (Suc (length (takeWhile (\<lambda>b. b \<noteq> 0) bs))) bs"
          unfolding c j(3) by simp
        also have "\<dots> = drop (Suc (length (takeWhile (\<lambda>b. b \<noteq> 0) bs)))
            (takeWhile (\<lambda>b. b \<noteq> 0) bs @ x # m)"
          using \<open>bs = takeWhile (\<lambda>b. b \<noteq> 0) bs @ x # m\<close> by (rule arg_cong)
        finally show ?thesis by simp
      qed
      moreover have "buffer_skip b (j + 1) = (True, buf_drop b (Suc (unat j)))"
          "buf_ok (buf_drop b (Suc (unat j)))"
          "contents (buf_drop b (Suc (unat j))) = drop (Suc (unat j)) ?c"
        using assms(1) jl buffer_skip_True [of b "j + 1"] by (simp_all add: j1 buf_simps)
      ultimately show ?thesis
        using True g j(1) m by (simp add: pkcs1_type2_padding_remove_def Let_def strip_padding_def c)
    qed
  qed
qed

section \<open>Command chaining\<close>

text \<open>The commands that carry the argument: 255 bytes each, the chaining bit in all but the last.\<close>

function decipher_apdus :: "u8 \<Rightarrow> u8 \<Rightarrow> bytes \<Rightarrow> bytes list" where
  "decipher_apdus alg key xs =
     (if xs = [] then []
      else if length xs > 255
      then ([0x10, YKPIV_INS_AUTHENTICATE, alg, key, 255] @ take 255 xs) # decipher_apdus alg key (drop 255 xs)
      else [[0x00, YKPIV_INS_AUTHENTICATE, alg, key, of_nat (length xs)] @ xs])"
  by pat_completeness auto
termination
  by (relation "measure (\<lambda>(alg, key, xs). length xs)") auto

declare decipher_apdus.simps [simp del]

lemma chunk_apdu:
  assumes "buf_ok data" and "contents data \<noteq> []"
  defines "n \<equiv> min 255 (length (contents data))"
  shows "\<exists>a. ifd_build_apdu jk (chunk_cla (buffer_available data)) YKPIV_INS_AUTHENTICATE alg key
        (Some (buffer_read_pointer data)) (chunk_len (buffer_available data)) = Inr (Some a)
    \<and> buf_ok a \<and> length (contents a) < 2 ^ 16
    \<and> contents a # decipher_apdus alg key (drop n (contents data)) = decipher_apdus alg key (contents data)
    \<and> buffer_skip data (chunk_len (buffer_available data)) = (True, buf_drop data n)"
proof -
  let ?a = "buffer_available data" and ?c = "contents data"
  have av: "unat ?a = length ?c" using assms(1) by (rule unat_available)
  have cl: "unat (chunk_len ?a) = n"
    using av by (simp add: chunk_len_def n_def word_less_nat_alt min_def)
  have le: "n \<le> 255" "n \<le> length ?c" "length ?c \<le> length (buffer_read_pointer data)"
    using assms(1) by (simp_all add: n_def read_pointer_length)
  have tk: "take n (buffer_read_pointer data) = take n ?c"
    using read_pointer_prefix [OF assms(1)] le by (metis min.absorb1 take_take)
  obtain a where a: "ifd_build_apdu jk (chunk_cla ?a) YKPIV_INS_AUTHENTICATE alg key
        (Some (buffer_read_pointer data)) (chunk_len ?a) = Inr (Some a)" "buf_ok a"
      "contents a = [chunk_cla ?a, YKPIV_INS_AUTHENTICATE, alg, key, ucast (chunk_len ?a)] @ take n ?c"
    using build_apdu_ok [of "chunk_len ?a" "Some (buffer_read_pointer data)" jk "chunk_cla ?a"
        YKPIV_INS_AUTHENTICATE alg key] le
    by (auto simp: cl tk)
  have lc: "(ucast (chunk_len ?a) :: u8) = of_nat n"
    using le(1) by (simp add: word_unat_eq_iff unat_ucast_32_8 cl unat_of_nat take_bit_eq_mod)
  have "contents a # decipher_apdus alg key (drop n ?c) = decipher_apdus alg key ?c"
  proof (cases "length ?c > 255")
    case True
    then have "n = 255" "chunk_cla ?a = 0x10"
      using av by (simp_all add: n_def chunk_cla_def word_less_nat_alt)
    with True assms(2) a(3) lc show ?thesis
      by (subst (2) decipher_apdus.simps) simp
  next
    case False
    then have "n = length ?c" "chunk_cla ?a = 0"
      using av by (simp_all add: n_def chunk_cla_def word_less_nat_alt)
    with False assms(2) a(3) lc show ?thesis
      by (subst (2) decipher_apdus.simps) (simp add: decipher_apdus.simps [of alg key "[]"])
  qed
  moreover have "buffer_skip data (chunk_len ?a) = (True, buf_drop data n)"
    using buffer_skip_True [OF assms(1), of "chunk_len ?a"] le(2) by (simp add: cl)
  moreover have "length (contents a) < 2 ^ 16" using le by (simp add: a(3))
  ultimately show ?thesis using a(1,2) by blast
qed

text \<open>The loop sends these commands and nothing else.\<close>

lemma decipher_loop_drive:
  assumes "buf_ok data"
  shows "\<exists>as. map contents as = decipher_apdus alg (ucast key) (contents data)
    \<and> (\<forall>a \<in> set as. buf_ok a \<and> length (contents a) < 2 ^ 16)
    \<and> (\<forall>crd rapdu w. decipher_loop env crd alg key data rapdu w
         = rbind (drive (xfer_pair env) as rapdu (crd, w)) (\<lambda>(r, s). Inr (r, fst s, snd s)))"
  using assms
proof (induction "length (contents data)" arbitrary: data rule: less_induct)
  case less
  let ?c = "contents data"
  show ?case
  proof (cases "?c = []")
    case True
    then have "buffer_available data = 0" using less.prems by (simp add: buf_simps)
    then have "\<forall>crd rapdu w. decipher_loop env crd alg key data rapdu w = Inr (Some rapdu, crd, w)"
      by (subst decipher_loop.simps) simp
    with True show ?thesis
      by (intro exI [of _ "[]"]) (simp add: decipher_apdus.simps)
  next
    case False
    let ?n = "min 255 (length ?c)"
    have av: "buffer_available data \<noteq> 0" using False less.prems by (simp add: buf_simps)
    obtain a where a: "ifd_build_apdu (junk env) (chunk_cla (buffer_available data)) YKPIV_INS_AUTHENTICATE
          alg (ucast key) (Some (buffer_read_pointer data)) (chunk_len (buffer_available data)) = Inr (Some a)"
        "buf_ok a" "length (contents a) < 2 ^ 16"
        "contents a # decipher_apdus alg (ucast key) (drop ?n ?c) = decipher_apdus alg (ucast key) ?c"
        "buffer_skip data (chunk_len (buffer_available data)) = (True, buf_drop data ?n)"
      using chunk_apdu [OF less.prems False] by blast
    have d: "buf_ok (buf_drop data ?n)" "contents (buf_drop data ?n) = drop ?n ?c"
      using less.prems by (simp_all add: buf_simps)
    have "length (contents (buf_drop data ?n)) < length ?c"
      using False by (simp add: d(2))
    from less.hyps [OF this d(1)] obtain as where as:
        "map contents as = decipher_apdus alg (ucast key) (drop ?n ?c)"
        "\<forall>a \<in> set as. buf_ok a \<and> length (contents a) < 2 ^ 16"
        "\<forall>crd rapdu w. decipher_loop env crd alg key (buf_drop data ?n) rapdu w
           = rbind (drive (xfer_pair env) as rapdu (crd, w)) (\<lambda>(r, s). Inr (r, fst s, snd s))"
      unfolding d(2) by blast
    have "decipher_loop env crd alg key data rapdu w
        = rbind (drive (xfer_pair env) (a # as) rapdu (crd, w)) (\<lambda>(r, s). Inr (r, fst s, snd s))"
      for crd rapdu w
    proof (cases "ifd_card_xfer env crd a w")
      case (Inl e)
      with av a(1) show ?thesis
        by (subst decipher_loop.simps) (simp add: Let_def xfer_pair_def)
    next
      case (Inr x)
      obtain r crd1 w1 where x: "x = (r, crd1, w1)" by (cases x)
      with Inr av a(1,5) as(3) show ?thesis
        by (subst decipher_loop.simps)
          (auto simp: Let_def xfer_pair_def YKPIV_SUCCESS_def split: option.splits)
    qed
    with a as(1,2) show ?thesis
      by (intro exI [of _ "a # as"]) simp
  qed
qed

section \<open>The driver and a linked card\<close>

text \<open>A card object linked to the card, seen from itself; the driver may change its own fields.\<close>

lemma link_self:
  assumes "card_link cap tok atr rst step st env crd0 (crd, w) c"
  shows "card_link cap tok atr rst step st env crd (crd, w) c"
  using assms by (auto simp: card_link_def reader_slot_link_def dest: same_readerD(4))

lemma link_update:
  assumes "card_link cap tok atr rst step st env crd (crd, w) c" and "card_reader crd' = card_reader crd"
  shows "card_link cap tok atr rst step st env crd' (crd', w) c"
  using assms by (simp add: card_link_def)

lemma link_fields:
  assumes "card_link cap tok atr rst step st env crd0 (crd, w) c"
  shows "key_slot crd = key_slot crd0" and "pin_required crd = pin_required crd0"
    and "card_driver crd = card_driver crd0" and "card_slot crd = card_slot crd0"
    and "card_name crd = card_name crd0" and "card_variant crd = card_variant crd0"
proof -
  have e: "crd = crd0\<lparr>card_reader := card_reader crd\<rparr>"
    using assms by (simp add: card_link_def)
  show "key_slot crd = key_slot crd0" by (subst e) simp
  show "pin_required crd = pin_required crd0" by (subst e) simp
  show "card_driver crd = card_driver crd0" by (subst e) simp
  show "card_slot crd = card_slot crd0" by (subst e) simp
  show "card_name crd = card_name crd0" by (subst e) simp
  show "card_variant crd = card_variant crd0" by (subst e) simp
qed

text \<open>The commands.\<close>

definition select_apdu :: "bytes \<Rightarrow> bytes" where
  "select_apdu aid = [0x00, 0xA4, 0x04, 0x00, of_nat (length aid)] @ aid"

definition pin_apdu :: "bytes option \<Rightarrow> bytes" where
  "pin_apdu pin = (case pin of None \<Rightarrow> [0x00, 0x20, 0x00, 0x80, 0]
     | Some p \<Rightarrow> [0x00, 0x20, 0x00, 0x80, 8] @ p @ replicate (8 - length p) 0xFF)"

lemma verify_apdu_ok:
  assumes "case pin of None \<Rightarrow> True | Some p \<Rightarrow> length p \<le> 8 \<and> unat n = length p"
  shows "\<exists>a. verify_apdu jk pin n = Inr (Some a) \<and> buf_ok a \<and> contents a = pin_apdu pin"
proof (cases pin)
  case None
  then show ?thesis
    using build_apdu_ok [of 0 None jk 0 YKPIV_INS_VERIFY 0 "0x80"]
    by (simp add: verify_apdu_def pin_apdu_def YKPIV_INS_VERIFY_def)
next
  case (Some p)
  let ?padded = "p @ replicate (8 - length p) (0xFF :: u8)"
  have n: "\<not> n > 8" "unat n = length p" "length p \<le> 8"
    using assms Some by (simp_all add: word_less_nat_alt)
  have "mem_write (replicate 8 0xFF) 0 p = Inr ?padded"
    using n(3) by (simp add: mem_write_in)
  with Some n show ?thesis
    using build_apdu_ok [of 8 "Some ?padded" jk 0 YKPIV_INS_VERIFY 0 "0x80"]
    by (simp add: verify_apdu_def pin_apdu_def YKPIV_INS_VERIFY_def mem_read_in)
qed

lemma select_ok:
  assumes "card_link cap tok atr rst step st env crd (crd, w) c"
    and "length aid \<le> 255" and "card_answers step cap c (select_apdu aid) d sw c'"
  shows "\<exists>crd' w'. yubikey_select_application env crd aid (of_nat (length aid)) w
      = Inr (sw = 0x9000, crd', w') \<and> card_link cap tok atr rst step st env crd (crd', w') c'"
proof -
  have n64: "unat (of_nat (length aid) :: u64) = length aid"
    using assms(2) by (intro unat_of_nat_u64) simp
  have n: "unat (ucast (of_nat (length aid) :: u64) :: u32) = length aid"
    using assms(2) by (simp add: unat_ucast_64_32 n64)
  have n8: "ucast (ucast (of_nat (length aid) :: u64) :: u32) = (of_nat (length aid) :: u8)"
    using assms(2) by (simp add: word_unat_eq_iff unat_ucast_32_8 n unat_of_nat take_bit_eq_mod)
  obtain a where a: "ifd_build_apdu (junk env) 0 YKPIV_INS_SELECT_APPLICATION 4 0 (Some aid)
      (ucast (of_nat (length aid) :: u64)) = Inr (Some a)" "buf_ok a" "contents a = select_apdu aid"
    using build_apdu_ok [of "ucast (of_nat (length aid) :: u64)" "Some aid" "junk env" 0
        YKPIV_INS_SELECT_APPLICATION 4 0] assms(2) n
    by (auto simp: select_apdu_def YKPIV_INS_SELECT_APPLICATION_def n8)
  have "length (contents a) < 2 ^ 16" using assms(2) by (simp add: a(3) select_apdu_def)
  from xfer_channel.exchange [OF assms(1) a(2) this, of d sw c'] assms(3)
  obtain b s' where "xfer_pair env a (crd, w) = Inr (Some (b, sw), s')"
      "card_link cap tok atr rst step st env crd s' c'"
    by (auto simp: a(3))
  then show ?thesis
    using a(1) by (cases s') (simp add: yubikey_select_application_def xfer_pair_def YKPIV_SUCCESS_def)
qed

lemma verify_ok:
  assumes "card_link cap tok atr rst step st env crd (crd, w) c"
    and "case pin of None \<Rightarrow> True | Some p \<Rightarrow> length p \<le> 8 \<and> unat n = length p"
    and "card_answers step cap c (pin_apdu pin) d sw c'"
  shows "\<exists>crd' w'. yubikey_verify env crd pin n w
      = Inr (sw = 0x9000, if sw AND 0xFF00 = 0x6300 then Some (unat (sw AND 0xF)) else None, crd', w')
    \<and> card_link cap tok atr rst step st env crd (crd', w') c'"
proof -
  obtain a where a: "verify_apdu (junk env) pin n = Inr (Some a)" "buf_ok a" "contents a = pin_apdu pin"
    using verify_apdu_ok [OF assms(2)] by blast
  have "length (contents a) < 2 ^ 16"
    using assms(2) by (auto simp: a(3) pin_apdu_def split: option.splits)
  from xfer_channel.exchange [OF assms(1) a(2) this, of d sw c'] assms(3)
  obtain b s' where "xfer_pair env a (crd, w) = Inr (Some (b, sw), s')"
      "card_link cap tok atr rst step st env crd s' c'"
    by (auto simp: a(3))
  then show ?thesis
    using a(1) by (cases s') (auto simp: yubikey_verify_def xfer_pair_def YKPIV_SUCCESS_def)
qed

text \<open>A PIN of more than eight characters is refused before anything is sent.\<close>

lemma verify_too_long:
  assumes "8 < unat n"
  shows "yubikey_verify env crd (Some p) n w = Inr (False, None, crd, w)"
proof -
  have "n > 8" using assms by (simp add: word_less_nat_alt)
  then show ?thesis by (simp add: yubikey_verify_def verify_apdu_def)
qed

lemma connect_ok:
  assumes "card_link cap tok atr rst step st env crd (crd, w) c"
    and "card_answers step cap c (select_apdu piv_aid) d1 0x9000 c1"
    and "card_answers step cap c1 (pin_apdu None) d2 sw c2"
  shows "\<exists>crd' w'. yubikey_connect env crd w = Inr (True, crd', w')
    \<and> key_slot crd' = (if key_slot crd = 0 then 0x9e else key_slot crd)
    \<and> pin_required crd' = (sw \<noteq> 0x9000 \<and> pin_required crd)
    \<and> card_driver crd' = card_driver crd
    \<and> card_link cap tok atr rst step st env crd' (crd', w') c2"
proof -
  have "of_nat (length piv_aid) = (5 :: u64)" by (simp add: piv_aid_def)
  then obtain crd1 w1 where s: "yubikey_select_application env crd piv_aid 5 w = Inr (True, crd1, w1)"
      "card_link cap tok atr rst step st env crd (crd1, w1) c1"
    using select_ok [OF assms(1) _ assms(2)] by (auto simp: piv_aid_def)
  let ?crd2 = "if key_slot crd1 = 0 then crd1\<lparr>key_slot := 0x9e\<rparr> else crd1"
  have l2: "card_link cap tok atr rst step st env ?crd2 (?crd2, w1) c1"
    using link_update [OF link_self [OF s(2)], of ?crd2] by simp
  obtain crd3 w3 where v: "yubikey_verify env ?crd2 None 0 w1
      = Inr (sw = 0x9000, if sw AND 0xFF00 = 0x6300 then Some (unat (sw AND 0xF)) else None, crd3, w3)"
      "card_link cap tok atr rst step st env ?crd2 (crd3, w3) c2"
    using verify_ok [OF l2 _ assms(3), of 0] by fastforce
  let ?crd4 = "if sw = 0x9000 then crd3\<lparr>pin_required := False\<rparr> else crd3"
  have "yubikey_connect env crd w = Inr (True, ?crd4, w3)"
    using v(1) by (simp add: yubikey_connect_def s(1) Let_def)
  moreover have "card_link cap tok atr rst step st env ?crd4 (?crd4, w3) c2"
    using link_update [OF link_self [OF v(2)], of ?crd4] by simp
  moreover have "key_slot ?crd4 = (if key_slot crd = 0 then 0x9e else key_slot crd)"
      "pin_required ?crd4 = (sw \<noteq> 0x9000 \<and> pin_required crd)" "card_driver ?crd4 = card_driver crd"
    using link_fields [OF s(2)] link_fields [OF v(2)] by auto
  ultimately show ?thesis by blast
qed

text \<open>Up to the first exchange decryption is driven by the ciphertext alone.\<close>

lemma decipher_prepare:
  assumes "buf_ok ct" and "decipher_algorithm (buffer_available ct) = Some alg"
  shows "\<exists>as. map contents as = decipher_apdus alg (key_slot crd) (decipher_args (contents ct))
    \<and> (\<forall>a \<in> set as. buf_ok a \<and> length (contents a) < 2 ^ 16)
    \<and> (\<forall>w. yubikey_decipher env crd ct w
         = rbind (drive (xfer_pair env) as None (crd, w)) (\<lambda>(r, crd, w). decipher_finish r crd w))"
proof -
  let ?p = "buffer_read_pointer ct" and ?n = "buffer_available ct"
  have n: "unat ?n = length (contents ct)" using assms(1) by (rule unat_available)
  have "?n = 128 \<or> ?n = 256" using assms(2) by (auto simp: decipher_algorithm_def split: if_splits)
  then have "unat ?n \<le> 992" by auto
  then obtain data where data: "yubikey_encode_decipher_args (junk env) alg ?p ?n = Inr (Some data)"
      "buf_ok data" "contents data = decipher_args (contents ct)"
    using encode_args_ok [of ?n ?p "junk env" alg] assms(1)
    by (auto simp: n read_pointer_length read_pointer_prefix)
  have k: "ucast (ucast (key_slot crd) :: u32) = key_slot crd"
    by (simp add: word_unat_eq_iff unat_ucast_32_8)
  obtain as where as: "map contents as = decipher_apdus alg (key_slot crd) (contents data)"
      "\<forall>a \<in> set as. buf_ok a \<and> length (contents a) < 2 ^ 16"
      and run: "\<forall>w. decipher_loop env crd alg (ucast (key_slot crd)) data None w
         = rbind (drive (xfer_pair env) as None (crd, w)) (\<lambda>(r, s). Inr (r, fst s, snd s))"
    using decipher_loop_drive [OF data(2), of alg "ucast (key_slot crd)" env] unfolding k by blast
  have dump: "(if opt_debug env > 1 then rbind (hexdump ?p (ucast ?n) 4) (\<lambda>_. Inr ()) else Inr ()) = Inr ()"
    using assms(1) by (simp add: hexdump_in n read_pointer_length)
  have "yubikey_decipher env crd ct w
      = rbind (drive (xfer_pair env) as None (crd, w)) (\<lambda>(r, crd, w). decipher_finish r crd w)" for w
    using run by (simp add: yubikey_decipher_def Let_def dump assms(2) data(1) rbind_assoc case_prod_unfold)
  with as show ?thesis unfolding data(3) by blast
qed

lemma decipher_ok:
  assumes "card_link cap tok atr rst step st env crd (crd, w) c" and "buf_ok ct"
    and "decipher_algorithm (buffer_available ct) = Some alg"
    and "accepts (card_answers step cap) c (decipher_apdus alg (key_slot crd) (decipher_args (contents ct)))
           (decipher_response block) c'"
    and "2 \<le> length block" and "length block < 65000"
  shows "\<exists>crd' w'. card_link cap tok atr rst step st env crd (crd', w') c'
    \<and> (case strip_padding block of None \<Rightarrow> yubikey_decipher env crd ct w = Inr (None, crd', w')
       | Some m \<Rightarrow> \<exists>b. yubikey_decipher env crd ct w = Inr (Some b, crd', w') \<and> buf_ok b \<and> contents b = m)"
proof -
  obtain as where as: "map contents as = decipher_apdus alg (key_slot crd) (decipher_args (contents ct))"
      "\<forall>a \<in> set as. buf_ok a \<and> length (contents a) < 2 ^ 16"
      and run: "yubikey_decipher env crd ct w
         = rbind (drive (xfer_pair env) as None (crd, w)) (\<lambda>(r, crd, w). decipher_finish r crd w)"
    using decipher_prepare [OF assms(2,3), of crd env] by blast
  obtain b crd' w' where d: "drive (xfer_pair env) as None (crd, w) = Inr (Some (Some b), crd', w')"
      "buf_ok b" "contents b = decipher_response block"
      and l: "card_link cap tok atr rst step st env crd (crd', w') c'"
    using xfer_channel.drive_accepts [OF assms(4) [folded as(1)] assms(1) as(2)]
    by (metis surj_pair)
  obtain b1 where b1: "yubikey_decode_decipher_resp b = Inr (True, b1)" "buf_ok b1" "contents b1 = block"
    using decode_resp_ok [OF d(2,3) assms(6)] by blast
  show ?thesis
  proof (cases "strip_padding block")
    case None
    then have "pkcs1_type2_padding_remove b1 = Inr (False, b1)"
      using padding_remove_strip [OF b1(2)] assms(5) b1(3) by simp
    then have "yubikey_decipher env crd ct w = Inr (None, crd', w')"
      by (simp add: run d(1) decipher_finish_def b1(1))
    with None l show ?thesis by auto
  next
    case (Some m)
    then obtain b2 where b2: "pkcs1_type2_padding_remove b1 = Inr (True, b2)" "buf_ok b2" "contents b2 = m"
      using padding_remove_strip [OF b1(2)] assms(5) b1(3) by auto
    moreover have "unat (ucast (buffer_available b2) :: u64) \<le> length (buffer_read_pointer b2)"
      using b2(2) by (simp add: unat_available read_pointer_length)
    ultimately have "yubikey_decipher env crd ct w = Inr (Some b2, crd', w')"
      by (simp add: run d(1) decipher_finish_def b1(1) hexdump_in)
    with Some l b2 show ?thesis by auto
  qed
qed

lemma MAKE_ATR_ok:
  assumes "length s \<le> IFD_MAX_ATR_LEN"
  shows "atr_ok (MAKE_ATR s)" and "atr_octet_list (MAKE_ATR s) = s"
  using assms
  by (simp_all add: atr_ok_def MAKE_ATR_def atr_octet_list_def IFD_MAX_ATR_LEN_def of_nat_u32)

lemma yubikey_atrs_ok: "\<forall>r \<in> set (yubikey_init []). atr_ok (reg_atr r) \<and> reg_driver r = yubikey_driver_ref"
  by (simp add: yubikey_init_def ifd_register_card_driver_def atr_neo_r3_def atr_yubikey4_def
      atr_yubikey5_def atr_yubikey5_p1_def MAKE_ATR_ok IFD_MAX_ATR_LEN_def)

section \<open>Properties\<close>

text \<open>C19: The back-to-front encoder yields the BER encoding of the dynamic authentication template
  (tag 7C with an empty 82 object and the ciphertext as 81 object, shortest definite lengths)
  for ciphertexts of up to 992 bytes, and refuses longer ones, as long as the length is below 2
  ^ 32 - 32 (from there on the sum with 32 in the check wraps around).\<close>

theorem encode_args_tlv:
  assumes "unat in_len \<le> length ciphertext" and "unat in_len + 32 < 2 ^ 32"
  shows "if unat in_len \<le> 992
    then \<exists>b. yubikey_encode_decipher_args jk alg ciphertext in_len = Inr (Some b) \<and> buf_ok b
      \<and> contents b = decipher_args (take (unat in_len) ciphertext)
    else yubikey_encode_decipher_args jk alg ciphertext in_len = Inr None"
proof (cases "unat in_len \<le> 992")
  case True
  with encode_args_ok [OF True assms(1), of jk alg] show ?thesis by simp
next
  case False
  have "unat (in_len + 32) = unat in_len + 32"
    using assms(2) by (subst unat_add_small) simp_all
  with False have "in_len + 32 > 1024" by (simp add: word_less_nat_alt)
  with False show ?thesis by (simp add: yubikey_encode_decipher_args_def)
qed

theorem encode_args_tlv_witness:
  "\<exists>b. yubikey_encode_decipher_args (\<lambda>_. 0) 6 [1, 2, 3] 3 = Inr (Some b) \<and> buf_ok b
     \<and> contents b = [0x7c, 7, 0x82, 0, 0x81, 3, 1, 2, 3]"
  using encode_args_tlv [of 3 "[1, 2, 3]" "\<lambda>_. 0" 6]
  by (simp add: decipher_args_def tlv_def ber_length_def)

text \<open>C21: Decoding the nested TLV 7C, 82 of a message leaves a buffer that holds exactly the message.\<close>

theorem decode_response_roundtrip:
  assumes "buf_ok b" and "contents b = decipher_response m" and "length m < 65000"
  shows "\<exists>b'. yubikey_decode_decipher_resp b = Inr (True, b') \<and> buf_ok b' \<and> contents b' = m"
  using assms by (rule decode_resp_ok)

theorem decode_response_roundtrip_witness:
  "\<exists>b'. yubikey_decode_decipher_resp (buffer_init_read [0x7c, 4, 0x82, 2, 8, 9] 6) = Inr (True, b')
     \<and> contents b' = [8, 9]"
proof -
  have "decipher_response [8, 9] = [0x7c, 4, 0x82, 2, 8, 9]"
    by (simp add: decipher_response_def tlv_def ber_length_def)
  then show ?thesis
    using decode_response_roundtrip [of "buffer_init_read [0x7c, 4, 0x82, 2, 8, 9] 6" "[8, 9]"]
    by (auto simp: buffer_init_read_ok contents_init)
qed

lemma decode_length_safe:
  assumes "unat pos + 2 < length d" and "unat pos + 3 < 2 ^ 32"
  shows "\<exists>v pos'. decode_length d pos = Inr (v, pos') \<and> unat pos' \<le> unat pos + 3"
proof -
  have "unat (pos + 1) = unat pos + 1" "unat (pos + 2) = unat pos + 2" "unat (pos + 3) = unat pos + 3"
    using assms(2) by (subst unat_add_small; simp)+
  with assms(1) show ?thesis by (auto simp: decode_length_def mem_get_in)
qed

lemma decode_resp_safe:
  assumes "buf_ok b" and "8 \<le> length (buffer_read_pointer b)"
  shows "\<exists>ok b'. yubikey_decode_decipher_resp b = Inr (ok, b') \<and> buf_ok b'
    \<and> length (buffer_read_pointer b) \<le> length (buffer_read_pointer b') + 8"
proof -
  let ?d = "buffer_read_pointer b"
  obtain v i where i: "decode_length ?d 1 = Inr (v, i)" "unat i \<le> 4"
    using decode_length_safe [of 1 ?d] assms(2) by auto
  then have i1: "unat (i + 1) = unat i + 1" by (subst unat_add_small) simp_all
  then obtain v2 j where j: "decode_length ?d (i + 1) = Inr (v2, j)" "unat j \<le> 8"
    using decode_length_safe [of "i + 1" ?d] i(2) assms(2) by auto
  have "0 < length ?d" "unat i < length ?d" using i(2) assms(2) by linarith+
  note g = this [THEN mem_get_in]
  have skip: "\<exists>ok b'. buffer_skip b j = (ok, b') \<and> buf_ok b'
      \<and> length ?d \<le> length (buffer_read_pointer b') + 8"
  proof (cases "unat j \<le> length (contents b)")
    case True
    then have "unat (rpos (buf_drop b (unat j))) = unat (rpos b) + unat j"
      using buf_drop_pos [OF assms(1) True] by (simp add: buf_drop_def)
    moreover have "bdata (buf_drop b (unat j)) = bdata b" by (simp add: buf_drop_def)
    ultimately show ?thesis
      using assms(1) True j(2)
      by (intro exI [of _ True] exI [of _ "buf_drop b (unat j)"]) (simp add: buf_simps buffer_read_pointer_def)
  next
    case False
    with assms(1) show ?thesis
      by (intro exI [of _ False] exI [of _ b]) (simp add: buf_simps)
  qed
  then show ?thesis
    using assms(1) by (auto simp: yubikey_decode_decipher_resp_def Let_def g i(1) j(1))
qed

lemma pkcs1_scan_safe: "unat len \<le> length data \<Longrightarrow> \<exists>r. pkcs1_scan data len i = Inr r"
proof (induction data len i rule: pkcs1_scan.induct)
  case (1 data len i)
  show ?case
  proof (cases "i < len")
    case True
    then have "mem_get data (unat i) = Inr (data ! unat i)"
      using "1.prems" by (simp add: mem_get_in word_less_nat_alt)
    with True 1 show ?thesis by (subst pkcs1_scan.simps) auto
  next
    case False
    then show ?thesis by (subst pkcs1_scan.simps) simp
  qed
qed

lemma padding_remove_safe:
  assumes "buf_ok b" and "2 \<le> length (buffer_read_pointer b)"
  shows "\<exists>ok b'. pkcs1_type2_padding_remove b = Inr (ok, b')"
proof -
  have "unat (buffer_available b) \<le> length (buffer_read_pointer b)"
    using assms(1) by (simp add: unat_available read_pointer_length)
  moreover have "0 < length (buffer_read_pointer b)" "1 < length (buffer_read_pointer b)"
    using assms(2) by linarith+
  note g = this [THEN mem_get_in]
  ultimately show ?thesis
    using pkcs1_scan_safe [of "buffer_available b" "buffer_read_pointer b" 2]
    by (auto simp: pkcs1_type2_padding_remove_def Let_def g split: option.splits prod.splits)
qed

text \<open>C20: Although the decoder of the response never compares its position with the length of the
  response, it stays inside the memory block on every input if at least ten bytes of the block
  follow the read position.\<close>

theorem response_decoding_safe:
  assumes "buf_ok b" and "10 \<le> length (buffer_read_pointer b)"
  shows "\<exists>ok b'. rbind (yubikey_decode_decipher_resp b) (\<lambda>(ok, b).
      if ok then pkcs1_type2_padding_remove b else Inr (False, b)) = Inr (ok, b')"
proof -
  obtain ok b' where d: "yubikey_decode_decipher_resp b = Inr (ok, b')" "buf_ok b'"
      "length (buffer_read_pointer b) \<le> length (buffer_read_pointer b') + 8"
    using decode_resp_safe [OF assms(1)] assms(2) by auto
  then have "2 \<le> length (buffer_read_pointer b')" using assms(2) by simp
  from padding_remove_safe [OF d(2) this] d(1) show ?thesis by (cases ok) auto
qed

theorem response_decoding_safe_witness:
  "\<exists>ok b'. rbind (yubikey_decode_decipher_resp (buffer_init_read (replicate 12 0x7c) 3)) (\<lambda>(ok, b).
      if ok then pkcs1_type2_padding_remove b else Inr (False, b)) = Inr (ok, b')"
  using response_decoding_safe [of "buffer_init_read (replicate 12 0x7c) 3"]
  by (simp add: buffer_init_read_ok) (simp add: buffer_init_read_def buffer_read_pointer_def)

theorem decode_ignores_lengths:
  "yubikey_decode_decipher_resp (buffer_init_read [0x7c, 0, 0x82, 99, 8, 9] 6)
     = Inr (True, buf_drop (buffer_init_read [0x7c, 0, 0x82, 99, 8, 9] 6) 4)
   \<and> yubikey_decode_decipher_resp (buffer_init_read [0x7c, 0x82, 0, 2, 0x82, 0x81] 6) = Inl Out_Of_Bounds"
  by (simp add: yubikey_decode_decipher_resp_def decode_length_def buffer_init_read_def buffer_read_pointer_def
      mem_get_def buffer_skip_def buf_drop_def)

text \<open>C18: On a well-formed buffer that holds at least two bytes (the code reads two without a check),
  pkcs1_type2_padding_remove computes the reference strip_padding of the buffer contents, and it
  yields m exactly on the blocks 0, 2, padding without a zero, 0, m (padding of any length, also
  shorter than the eight bytes PKCS\#1 demands).\<close>

theorem padding_remove_equiv:
  assumes "buf_ok b" and "2 \<le> length (contents b)"
  shows "(case strip_padding (contents b) of None \<Rightarrow> pkcs1_type2_padding_remove b = Inr (False, b)
      | Some m \<Rightarrow> \<exists>b'. pkcs1_type2_padding_remove b = Inr (True, b') \<and> buf_ok b' \<and> contents b' = m)
    \<and> (strip_padding (contents b) = Some m
        \<longleftrightarrow> (\<exists>padding. 0 \<notin> set padding \<and> contents b = pkcs1_block padding m))"
proof -
  have "\<exists>padding. 0 \<notin> set padding \<and> bs = pkcs1_block padding m" if s: "strip_padding bs = Some m" for bs
  proof -
    have h: "take 2 bs = [0, 2]" using s by (simp add: strip_padding_def split: if_splits)
    have bs: "[0, 2] @ drop 2 bs = bs"
      using append_take_drop_id [of 2 bs] unfolding h .
    obtain x where d: "dropWhile (\<lambda>b. b \<noteq> 0) (drop 2 bs) = x # m"
      using s h by (auto simp: strip_padding_def split: list.splits)
    then have x: "x = 0" by (auto simp: dropWhile_eq_Cons_conv)
    have "drop 2 bs = takeWhile (\<lambda>b. b \<noteq> 0) (drop 2 bs) @ [0] @ m"
      using takeWhile_dropWhile_id [of "\<lambda>b. b \<noteq> 0" "drop 2 bs"] unfolding d x by simp
    then have "[0, 2] @ drop 2 bs = pkcs1_block (takeWhile (\<lambda>b. b \<noteq> 0) (drop 2 bs)) m"
      unfolding pkcs1_block_def by (rule arg_cong)
    then have "bs = pkcs1_block (takeWhile (\<lambda>b. b \<noteq> 0) (drop 2 bs)) m"
      unfolding bs .
    moreover have "0 \<notin> set (takeWhile (\<lambda>b. b \<noteq> 0) (drop 2 bs))"
      by (auto dest: set_takeWhileD)
    ultimately show ?thesis by blast
  qed
  with padding_remove_strip [OF assms] strip_pkcs1_block show ?thesis by metis
qed

theorem padding_remove_equiv_witness:
  "\<exists>b'. pkcs1_type2_padding_remove (buffer_init_read [0, 2, 7, 7, 0, 5, 6] 7) = Inr (True, b') \<and> contents b' = [5, 6]"
  using padding_remove_equiv [of "buffer_init_read [0, 2, 7, 7, 0, 5, 6] 7" "[5, 6]"]
  by (auto simp: buffer_init_read_ok contents_init strip_padding_def)

lemma apdus_concat: "concat (map (drop 5) (decipher_apdus alg key xs)) = xs"
  by (induction alg key xs rule: decipher_apdus.induct) (subst decipher_apdus.simps, auto)

lemma apdus_nonempty: "xs \<noteq> [] \<Longrightarrow> decipher_apdus alg key xs \<noteq> []"
  by (subst decipher_apdus.simps) auto

lemma apdus_shape:
  "i < length (decipher_apdus alg key xs) \<Longrightarrow>
     (let a = decipher_apdus alg key xs ! i in length a \<le> 260
      \<and> take 5 a = [if Suc i < length (decipher_apdus alg key xs) then 0x10 else 0x00,
                    YKPIV_INS_AUTHENTICATE, alg, key, of_nat (length a - 5)])"
proof (induction alg key xs arbitrary: i rule: decipher_apdus.induct)
  case (1 alg key xs)
  consider "xs = []" | "xs \<noteq> []" "length xs \<le> 255" | "length xs > 255" by linarith
  then show ?case
  proof cases
    case 1
    with "1.prems" show ?thesis by (simp add: decipher_apdus.simps)
  next
    case 2
    with "1.prems" show ?thesis by (simp add: decipher_apdus.simps)
  next
    case 3
    then have e: "decipher_apdus alg key xs = ([0x10, YKPIV_INS_AUTHENTICATE, alg, key, 255] @ take 255 xs)
        # decipher_apdus alg key (drop 255 xs)" and ne: "xs \<noteq> []"
      by (auto simp: decipher_apdus.simps [of alg key xs])
    have more: "decipher_apdus alg key (drop 255 xs) \<noteq> []"
      using 3 by (subst decipher_apdus.simps) auto
    show ?thesis
    proof (cases i)
      case 0
      with 3 more show ?thesis by (simp add: e)
    next
      case (Suc j)
      with "1.IH" [OF ne 3, of j] "1.prems" show ?thesis by (simp add: e)
    qed
  qed
qed

text \<open>C15: The loop of yubikey_decipher sends the encoded arguments as a chain of GENERAL AUTHENTICATE
  commands: every command carries at most 255 bytes, the chaining bit is set in all but the
  last, the Lc byte is the length of the data, and the pieces concatenate to the whole. The loop
  is the generic driver of command sequences on that chain.\<close>

theorem decipher_loop_chains:
  assumes "buf_ok data"
  shows "\<exists>as. concat (map (drop 5 \<circ> contents) as) = contents data
    \<and> (\<forall>i < length as. length (contents (as ! i)) \<le> 260
        \<and> take 5 (contents (as ! i)) = [if Suc i < length as then 0x10 else 0x00, 0x87, alg, ucast key,
            of_nat (length (contents (as ! i)) - 5)])
    \<and> decipher_loop env crd alg key data rapdu w
        = rbind (drive (xfer_pair env) as rapdu (crd, w)) (\<lambda>(r, s). Inr (r, fst s, snd s))"
proof -
  obtain as where as: "map contents as = decipher_apdus alg (ucast key) (contents data)"
      and run: "decipher_loop env crd alg key data rapdu w
        = rbind (drive (xfer_pair env) as rapdu (crd, w)) (\<lambda>(r, s). Inr (r, fst s, snd s))"
    using decipher_loop_drive [OF assms, of alg key env] by blast
  have "concat (map (drop 5 \<circ> contents) as) = contents data"
    unfolding map_map [symmetric] as by (rule apdus_concat)
  moreover have len: "length as = length (decipher_apdus alg (ucast key) (contents data))"
    using as by (metis length_map)
  moreover have "contents (as ! i) = decipher_apdus alg (ucast key) (contents data) ! i" if "i < length as" for i
    using as that by (metis nth_map)
  ultimately show ?thesis
    using apdus_shape [of _ alg "ucast key" "contents data"] run
    by (intro exI [of _ as]) (simp add: Let_def YKPIV_INS_AUTHENTICATE_def)
qed

theorem decipher_loop_chains_witness:
  "\<exists>as. concat (map (drop 5 \<circ> contents) as) = replicate 300 7
    \<and> decipher_loop packet_env demo_crd 7 0x9a (buffer_init_read (replicate 300 7) 300) None []
        = rbind (drive (xfer_pair packet_env) as None (demo_crd, [])) (\<lambda>(r, s). Inr (r, fst s, snd s))"
  using decipher_loop_chains [of "buffer_init_read (replicate 300 7) 300" 7 "0x9a" packet_env demo_crd None "[]"]
  by (auto simp: buffer_init_read_ok contents_init)

text \<open>The cards the driver knows: ATR, name and variant.\<close>

definition yubikey_models :: "(bytes \<times> string \<times> u32) list" where
  "yubikey_models =
     [([0x3b, 0xfc, 0x13, 0x00, 0x00, 0x81, 0x31, 0xfe, 0x15, 0x59, 0x75, 0x62, 0x69, 0x6b, 0x65,
        0x79, 0x4e, 0x45, 0x4f, 0x72, 0x33, 0xe1], ''YubiKey Neo R3'', 0),
      ([0x3b, 0xf8, 0x13, 0x00, 0x00, 0x81, 0x31, 0xfe, 0x15, 0x59, 0x75, 0x62, 0x69, 0x6b, 0x65,
        0x79, 0x34, 0xd4], ''YubiKey 4'', 1),
      ([0x3b, 0xfd, 0x13, 0x00, 0x00, 0x81, 0x31, 0xfe, 0x15, 0x80, 0x73, 0xc0, 0x21, 0xc0, 0x57,
        0x59, 0x75, 0x62, 0x69, 0x4b, 0x65, 0x79, 0x40], ''YubiKey 5'', 2),
      ([0x3b, 0xf8, 0x13, 0x00, 0x00, 0x81, 0x31, 0xfe, 0x15, 0x01, 0x59, 0x75, 0x62, 0x69, 0x4b,
        0x65, 0x79, 0xc1], ''YubiKey 5'', 3)]"

text \<open>C25: After yubikey_init a card is created exactly for the ATRs of the table of four models, with
  the name and the variant of the table, for every contents of the rest of the ATR buffer.\<close>

theorem yubikey_recognised:
  assumes "atr_ok a"
  shows "ifd_create_card (yubikey_init []) a reader slot = Inr (map_option
     (\<lambda>(name, variant). ifd_card_alloc a name yubikey_driver_ref variant reader slot)
     (map_of yubikey_models (atr_octet_list a)))"
proof -
  have regs: "\<forall>r \<in> set (yubikey_init []). atr_ok (reg_atr r)" using yubikey_atrs_ok by simp
  have "yubikey_init [] = map (\<lambda>(atr, name, variant). \<lparr>reg_atr = MAKE_ATR atr, reg_name = name,
      reg_driver = yubikey_driver_ref, reg_variant = variant\<rparr>) yubikey_models"
    by (simp add: yubikey_init_def ifd_register_card_driver_def yubikey_models_def atr_neo_r3_def
        atr_yubikey4_def atr_yubikey5_def atr_yubikey5_p1_def)
  moreover have "\<forall>m \<in> set yubikey_models. atr_octet_list (MAKE_ATR (fst m)) = fst m"
    by (simp add: yubikey_models_def MAKE_ATR_ok IFD_MAX_ATR_LEN_def)
  then have "map_option (\<lambda>reg. ifd_card_alloc a (reg_name reg) (reg_driver reg) (reg_variant reg) reader slot)
      (find (\<lambda>r. atr_octet_list a = atr_octet_list (reg_atr r)) (map (\<lambda>(atr, name, variant).
         \<lparr>reg_atr = MAKE_ATR atr, reg_name = name, reg_driver = yubikey_driver_ref, reg_variant = variant\<rparr>) ms))
    = map_option (\<lambda>(name, variant). ifd_card_alloc a name yubikey_driver_ref variant reader slot)
      (map_of ms (atr_octet_list a))" if "set ms \<subseteq> set yubikey_models" for ms
    using that by (induction ms) auto
  ultimately show ?thesis
    using create_card_find [OF assms regs, of reader slot] by simp
qed

theorem yubikey_recognised_witness:
  "\<exists>crd. ifd_create_card (yubikey_init []) atr_yubikey4 demo_rd 0 = Inr (Some crd)
     \<and> card_name crd = ''YubiKey 4'' \<and> card_variant crd = 1"
proof -
  have "atr_ok atr_yubikey4" by (simp add: atr_yubikey4_def MAKE_ATR_ok IFD_MAX_ATR_LEN_def)
  from yubikey_recognised [OF this, of demo_rd 0] show ?thesis
    by (simp add: atr_yubikey4_def MAKE_ATR_ok IFD_MAX_ATR_LEN_def yubikey_models_def ifd_card_alloc_def)
qed

lemma strtoul_hex2: "strtoul (hex2 k) 16 = (of_nat (unat k), [])"
proof -
  have k: "unat k div 16 < 16" using unat_u8_lt [of k] by linarith
  then show ?thesis
    using strtoul_hex [of "[unat k div 16, unat k mod 16]"] unat_u8_lt [of k]
    by (simp add: hex2_def digits_number_def del: unat_u8_lt)
qed

theorem key_slot_option:
  "ifd_card_set_option (card_drivers :: 'w drivers) crd (''key-slot='' @ hex2 k)
     = (if k = 0 \<or> k = 0xFF then (False, crd) else (True, crd\<lparr>key_slot := k\<rparr>))
   \<and> ifd_card_set_option (card_drivers :: 'w drivers) crd ''key-slot=10000009e'' = (True, crd\<lparr>key_slot := 0x9e\<rparr>)"
proof -
  have s: "split_at CHR ''='' (''key-slot='' @ v) = (''key-slot'', Some v)" for v by simp
  have u: "ucast (of_nat (unat k) :: u64) = (ucast k :: u32)" "ucast (ucast k :: u32) = k"
    using unat_u8_lt [of k] by (simp_all add: word_unat_eq_iff unat_ucast_64_32 unat_ucast_32_8 unat_of_nat_u64 del: unat_u8_lt)
  have z: "(ucast k = (0 :: u32)) = (k = 0)" "((ucast k :: u32) \<ge> 0xFF) = (k = 0xFF)"
    using unat_u8_lt [of k] by (auto simp: word_unat_eq_iff word_le_nat_alt simp del: unat_u8_lt)
  have t: "strtoul ''10000009e'' 16 = (0x10000009e, [])"
    by (simp add: strtoul_def strtoul_base_def isspace_def is_digit_def digit_value_def char_code_def)
  show ?thesis
    using s [of "''10000009e''"]
    by (simp add: ifd_card_set_option_def card_drivers_def yubikey_driver_def s yubikey_set_card_option_def
        Let_def strtoul_hex2 u z t del: of_nat_unat)
qed

text \<open>C26: yubikey_verify refuses a PIN of more than eight characters without talking to the card;
  otherwise it sends the PIN padded with FF to eight bytes, succeeds exactly on status 9000, and
  reports the low nibble of a status 63xx as the tries left.\<close>

theorem verify_pin_outcome:
  assumes "card_link cap tok atr rst step st env crd (crd, w) c" and "length p < 2 ^ 32"
    and "length p \<le> 8 \<Longrightarrow> card_answers step cap c (pin_apdu (Some p)) d sw c'"
  shows "if 8 < length p
    then yubikey_verify env crd (Some p) (of_nat (length p)) w = Inr (False, None, crd, w)
    else \<exists>crd' w'. yubikey_verify env crd (Some p) (of_nat (length p)) w
        = Inr (sw = 0x9000, if sw AND 0xFF00 = 0x6300 then Some (unat (sw AND 0xF)) else None, crd', w')
      \<and> card_link cap tok atr rst step st env crd (crd', w') c'"
proof -
  have n: "unat (of_nat (length p) :: u64) = length p"
    using assms(2) by (intro unat_of_nat_u64) simp
  show ?thesis
    using verify_too_long [of "of_nat (length p)" env crd p w]
      verify_ok [OF assms(1), where pin = "Some p" and n = "of_nat (length p)" and d = d and sw = sw and c' = c'] assms(3) n
    by auto
qed

text \<open>C27: If the card answers the first command of the chain with a status other than 9000,
  yubikey_decipher fails and sends none of the remaining commands.\<close>

theorem decipher_refused:
  assumes "card_link cap tok atr rst step st env crd (crd, w) c" and "buf_ok ct"
    and "decipher_algorithm (buffer_available ct) = Some alg"
    and "decipher_apdus alg (key_slot crd) (decipher_args (contents ct)) = a # rest"
    and "card_answers step cap c a d sw c'" and "sw \<noteq> 0x9000"
  shows "\<exists>crd' w'. yubikey_decipher env crd ct w = Inr (None, crd', w') \<and> st w' = c'"
proof -
  obtain as where as: "map contents as = decipher_apdus alg (key_slot crd) (decipher_args (contents ct))"
      "\<forall>a \<in> set as. buf_ok a \<and> length (contents a) < 2 ^ 16"
      and run: "yubikey_decipher env crd ct w
         = rbind (drive (xfer_pair env) as None (crd, w)) (\<lambda>(r, crd, w). decipher_finish r crd w)"
    using decipher_prepare [OF assms(2,3), of crd env] by blast
  obtain b bs where b: "as = b # bs" "contents b = a"
    using as(1) assms(4) by (cases as) auto
  obtain s' where s': "drive (xfer_pair env) as None (crd, w) = Inr (None, s')"
      "card_link cap tok atr rst step st env crd s' c'"
    using xfer_channel.drive_refused [OF assms(1), of b d sw c' bs None] assms(5,6) as(2) b by auto
  show ?thesis
    using s'(2) by (intro exI [of _ "fst s'"] exI [of _ "snd s'"])
      (simp add: run s'(1) decipher_finish_def card_link_def reader_slot_link_def reader_link_def split: prod.splits)
qed

text \<open>A card that gives the same answer to everything.\<close>

definition stubborn_card :: "u16 \<Rightarrow> nat \<Rightarrow> bytes \<Rightarrow> bytes \<times> nat" where
  "stubborn_card sw c apdu = (sw_bytes sw, Suc c)"

lemma stubborn_answers: "sw AND 0xFF00 \<noteq> 0x6100 \<Longrightarrow> card_answers (stubborn_card sw) 6 c a [] sw (Suc c)"
  by (rule card_answers_direct) (simp_all add: stubborn_card_def)

theorem verify_pin_outcome_witness:
  "\<exists>crd' w'. yubikey_verify (token_world (ideal_token [] (\<lambda>c. c) (stubborn_card 0x63C3))) demo_crd
      (Some [0x31, 0x32]) 2 ([], 0) = Inr (False, Some 3, crd', w')"
proof -
  have "card_answers (stubborn_card 0x63C3) 6 (snd ([], 0)) (pin_apdu (Some [0x31, 0x32])) [] 0x63C3 1"
    using stubborn_answers [of "0x63C3" 0] by simp
  from verify_pin_outcome [OF demo_link _ this] show ?thesis by auto
qed

theorem decipher_refused_witness:
  "\<exists>crd' w'. yubikey_decipher (token_world (ideal_token [] (\<lambda>c. c) (stubborn_card 0x6982))) demo_crd
      (buffer_init_read (replicate 128 0x55) 128) ([], 0) = Inr (None, crd', w') \<and> snd w' = 1"
proof -
  let ?ct = "buffer_init_read (replicate 128 0x55) 128"
  have ct: "buf_ok ?ct" "decipher_algorithm (buffer_available ?ct) = Some 6"
    by (simp_all add: buffer_init_read_ok)
      (simp add: decipher_algorithm_def buffer_init_read_def buffer_available_def YKPIV_ALGO_RSA1024_def)
  obtain a rest where "decipher_apdus 6 (key_slot demo_crd) (decipher_args (contents ?ct)) = a # rest"
    using apdus_nonempty [of "decipher_args (contents ?ct)" 6 "key_slot demo_crd"]
    by (cases "decipher_apdus 6 (key_slot demo_crd) (decipher_args (contents ?ct))")
      (auto simp: decipher_args_def tlv_def)
  moreover have "card_answers (stubborn_card 0x6982) 6 (snd ([], 0)) a [] 0x6982 1"
    using stubborn_answers [of "0x6982" 0 a] by simp
  ultimately show ?thesis
    using decipher_refused [OF demo_link ct] by fastforce
qed

end
