(* ===== verification/Main_Program.thy ===== *)
theory Main_Program
  imports Yubikey Buffer_File
begin

text \<open>
  main.c: the command line, and \<^verbatim>\<open>doit\<close>, which takes a USB device to the cleartext.
\<close>

section \<open>doit\<close>

text \<open>
  The outcome of \<^verbatim>\<open>doit\<close>. Every failure is a null pointer in C; the one for a PIN the card did
  not accept is kept apart, because its message prints \<^verbatim>\<open>retries_left\<close>. Where verification fails
  without a count from the card, that variable was never written, and the message reads it: the
  run ends in the fault \<open>Uninitialised\<close>.
\<close>

datatype outcome =
    Cleartext buffer
  | Failure
  | Wrong_PIN nat

fun set_options :: "'w drivers \<Rightarrow> ifd_card \<Rightarrow> string list \<Rightarrow> ifd_card option" where
  "set_options drivers crd [] = Some crd"
| "set_options drivers crd (opt # opts) =
     (case ifd_card_set_option drivers crd opt of (ok, crd) \<Rightarrow>
        if ok then set_options drivers crd opts else None)"

text \<open>A string as the bytes of its characters; \<^verbatim>\<open>strlen\<close> is its length.\<close>

definition c_bytes :: "string \<Rightarrow> bytes" where
  "c_bytes s = map (\<lambda>c. of_nat (char_code c)) s"

definition doit_verify ::
    "'w drivers \<Rightarrow> 'w env \<Rightarrow> ifd_card \<Rightarrow> string option \<Rightarrow> 'w \<Rightarrow> (outcome option \<times> ifd_card \<times> 'w) res" where
  "doit_verify drivers env crd pin w =
     (case pin of None \<Rightarrow> Inr (None, crd, w)
      | Some p \<Rightarrow> rbind (ifd_card_verify drivers env crd (Some (c_bytes p)) (of_nat (length p)) w)
          (\<lambda>(ok, retries_left, crd, w).
             if ok then Inr (None, crd, w)
             else (case retries_left of None \<Rightarrow> Inl Uninitialised
               | Some n \<Rightarrow> Inr (Some (Wrong_PIN n), crd, w))))"

definition doit ::
    "'w env \<Rightarrow> 'w drivers \<Rightarrow> registration list \<Rightarrow> uusb_dev \<Rightarrow> string option \<Rightarrow> buffer \<Rightarrow> string list
       \<Rightarrow> 'w \<Rightarrow> (outcome \<times> 'w) res" where
  "doit env drivers regs dev pin ciphertext cardopts w =
     rbind (ccid_reader_create env dev w) (\<lambda>(reader, w).
       case reader of None \<Rightarrow> Inr (Failure, w)
       | Some reader \<Rightarrow> rbind (ccid_reader_select_slot env reader 0 w) (\<lambda>(ok, reader, w).
           if \<not> ok then Inr (Failure, w)
           else rbind (ccid_reader_identify_card env regs reader 0 w) (\<lambda>(crd, w).
             case crd of None \<Rightarrow> Inr (Failure, w)
             | Some crd \<Rightarrow> (case set_options drivers crd cardopts of None \<Rightarrow> Inr (Failure, w)
               | Some crd \<Rightarrow> rbind (ifd_card_connect drivers env crd w) (\<lambda>(ok, crd, w).
                   if \<not> ok then Inr (Failure, w)
                   else rbind (doit_verify drivers env crd pin w) (\<lambda>(bad, crd, w).
                     case bad of Some r \<Rightarrow> Inr (r, w)
                     | None \<Rightarrow> rbind (ifd_card_decipher drivers env crd ciphertext w) (\<lambda>(r, crd, w).
                         Inr (case r of None \<Rightarrow> Failure | Some cleartext \<Rightarrow> Cleartext cleartext, w))))))))"

section \<open>The command line\<close>

text \<open>
  What \<^verbatim>\<open>getopt_long\<close> hands to the \<^verbatim>\<open>switch\<close>, one event per call, followed by the arguments
  that are left from \<^verbatim>\<open>optind\<close> on.
\<close>

datatype opt_event =
    Opt_Help
  | Opt_Debug
  | Opt_Card_Option string
  | Opt_Device string
  | Opt_Type string
  | Opt_Pin string
  | Opt_Output string
  | Opt_Unknown

record settings =
  opt_device :: "string option"
  opt_type :: "string option"
  opt_pin :: "string option"
  opt_output :: "string option"
  cardopts :: "string list"
  debug_level :: u32

definition settings_init :: settings where
  "settings_init = \<lparr>opt_device = None, opt_type = None, opt_pin = None, opt_output = None,
     cardopts = [], debug_level = 0\<rparr>"

definition MAX_CARDOPTS :: nat where "MAX_CARDOPTS = 16"

text \<open>\<open>Inl\<close> is the exit status where the loop ends the program.\<close>

fun main_options :: "opt_event list \<Rightarrow> settings \<Rightarrow> nat + settings" where
  "main_options [] s = Inr s"
| "main_options (Opt_Help # es) s = Inl 0"
| "main_options (Opt_Debug # es) s = main_options es (s\<lparr>debug_level := debug_level s + 1\<rparr>)"
| "main_options (Opt_Card_Option a # es) s =
     (if length (cardopts s) \<ge> MAX_CARDOPTS then Inl 1
      else main_options es (s\<lparr>cardopts := cardopts s @ [a]\<rparr>))"
| "main_options (Opt_Device a # es) s = main_options es (s\<lparr>opt_device := Some a\<rparr>)"
| "main_options (Opt_Type a # es) s = main_options es (s\<lparr>opt_type := Some a\<rparr>)"
| "main_options (Opt_Pin a # es) s = main_options es (s\<lparr>opt_pin := Some a\<rparr>)"
| "main_options (Opt_Output a # es) s = main_options es (s\<lparr>opt_output := Some a\<rparr>)"
| "main_options (Opt_Unknown # es) s = Inl 1"

text \<open>The device; without \<^verbatim>\<open>--type\<close> the code tests a variable nothing was assigned to.\<close>

definition open_type :: "'w env \<Rightarrow> string option \<Rightarrow> 'w \<Rightarrow> (uusb_dev option \<times> 'w) res" where
  "open_type env type w =
     (case type of None \<Rightarrow> Inl Uninitialised
      | Some t \<Rightarrow> (case usb_parse_type t of (ok, ty) \<Rightarrow>
          if \<not> ok then Inr (None, w) else usb_open_type env ty w))"

text \<open>\<open>main\<close> from the end of the option loop on: the exit status and the final state.\<close>

definition main_run :: "'w env \<Rightarrow> settings \<Rightarrow> string option \<Rightarrow> 'w \<Rightarrow> (nat \<times> 'w) res" where
  "main_run env s input w =
     rbind (buffer_read_file env input w) (\<lambda>(secret, w).
       rbind (open_type env (opt_type s) w) (\<lambda>(dev, w).
         case dev of None \<Rightarrow> Inr (1, w)
         | Some dev \<Rightarrow>
             rbind (doit env card_drivers (yubikey_init []) dev (opt_pin s) secret (cardopts s) w) (\<lambda>(r, w).
               case r of Cleartext cleartext \<Rightarrow>
                   rbind (buffer_write_file env (opt_output s) cleartext w) (\<lambda>(ok, _, w).
                     Inr (if ok then 0 else 1, w))
               | _ \<Rightarrow> Inr (1, w))))"

definition main :: "'w env \<Rightarrow> opt_event list \<Rightarrow> string list \<Rightarrow> 'w \<Rightarrow> (nat \<times> 'w) res" where
  "main env events args w =
     (case main_options events settings_init of Inl status \<Rightarrow> Inr (status, w)
      | Inr s \<Rightarrow>
          (case args of
             [] \<Rightarrow> main_run (env\<lparr>opt_debug := debug_level s\<rparr>) s (Some ''-'') w
           | [a] \<Rightarrow> main_run (env\<lparr>opt_debug := debug_level s\<rparr>) s (Some a) w
           | _ \<Rightarrow> Inr (1, w)))"

section \<open>From device to cleartext\<close>

text \<open>Creating the reader and selecting the slot.\<close>

lemma reader_create_init:
  assumes "ccid_reader_create env dev w = Inr (Some reader, w')"
  shows "current_slot reader = - 1 \<and> ccid_seq reader = 0"
proof -
  have feat: "current_slot r' = current_slot r \<and> ccid_seq r' = ccid_seq r"
    if "ccid_reader_set_features env r c = Inr (ok, r')" for r c ok r'
    using that by (auto simp: ccid_reader_set_features_def Let_def split: if_splits)
  show ?thesis
    using assms unfolding ccid_reader_create_def Let_def
    by (elim rbind_InrE) (auto split: prod.splits option.splits if_splits elim!: rbind_InrE dest!: feat)
qed

lemma link_select_slot:
  assumes "reader_link tok atr rst step st env reader w c"
    and "10 \<le> round8 (unat (max_message_size reader))" and "current_slot reader \<noteq> slot"
  shows "\<exists>reader' w'. ccid_reader_select_slot env reader slot w = Inr (True, reader', w')
    \<and> current_slot reader' = slot \<and> rd_dev reader' = rd_dev reader
    \<and> max_message_size reader' = max_message_size reader \<and> auto_voltage reader' = auto_voltage reader
    \<and> supported_voltages reader' = supported_voltages reader
    \<and> reader_link tok atr rst step st env reader' w' c"
proof -
  obtain reader1 w1 where s: "ccid_get_slot_status env reader slot w = Inr (Some 1, reader1, w1)"
      "same_reader reader reader1" "reader_link tok atr rst step st env reader1 w1 c"
    using link_slot_status [OF assms(1,2), of slot] by blast
  have "ccid_reader_select_slot env reader slot w = Inr (True, reader1\<lparr>current_slot := slot\<rparr>, w1)"
    using assms(3) s(1) by (simp add: ccid_reader_select_slot_def)
  moreover have "reader_link tok atr rst step st env (reader1\<lparr>current_slot := slot\<rparr>) w1 c"
    using s(3) by (simp add: reader_link_def)
  moreover have "rd_dev reader1 = rd_dev reader" "max_message_size reader1 = max_message_size reader"
      "auto_voltage reader1 = auto_voltage reader" "supported_voltages reader1 = supported_voltages reader"
    using s(2) by (auto simp: same_reader_def)
  ultimately show ?thesis by simp
qed

text \<open>The ATRs the program knows, and the card made for one of them.\<close>

definition known_atr :: "bytes \<Rightarrow> bool" where
  "known_atr atr \<longleftrightarrow> (\<exists>r \<in> set (yubikey_init []). atr_octet_list (reg_atr r) = atr)"

lemma known_atr_length: "known_atr atr \<Longrightarrow> length atr \<le> IFD_MAX_ATR_LEN"
  using yubikey_atrs_ok by (auto simp: known_atr_def atr_octet_list_def atr_ok_def)

lemma create_known_card:
  assumes "known_atr atr" and "length d = IFD_MAX_ATR_LEN - length atr"
  shows "\<exists>crd. ifd_create_card (yubikey_init []) \<lparr>atr_len = of_nat (length atr), atr_data = atr @ d\<rparr> reader slot
      = Inr (Some crd) \<and> card_reader crd = reader \<and> card_slot crd = slot \<and> key_slot crd = 0
      \<and> pin_required crd \<and> card_driver crd = yubikey_driver_ref"
proof -
  let ?a = "\<lparr>atr_len = of_nat (length atr), atr_data = atr @ d\<rparr> :: ifd_atrbuf"
  have len: "length atr \<le> IFD_MAX_ATR_LEN" using assms(1) by (rule known_atr_length)
  then have a: "atr_ok ?a" "atr_octet_list ?a = atr"
    using assms(2) by (simp_all add: atr_ok_def atr_octet_list_def IFD_MAX_ATR_LEN_def of_nat_u32)
  obtain reg where f: "find (\<lambda>r. atr_octet_list ?a = atr_octet_list (reg_atr r)) (yubikey_init []) = Some reg"
    using assms(1) by (cases "find (\<lambda>r. atr_octet_list ?a = atr_octet_list (reg_atr r)) (yubikey_init [])")
      (auto simp: known_atr_def a(2) find_None_iff)
  then have "reg \<in> set (yubikey_init [])" by (auto simp: find_Some_iff)
  then have "reg_driver reg = yubikey_driver_ref" using yubikey_atrs_ok by blast
  then show ?thesis
    using create_card_find [OF a(1), of "yubikey_init []" reader slot] yubikey_atrs_ok
    by (simp add: f ifd_card_alloc_def)
qed

lemma link_identify:
  assumes "reader_link tok atr rst step st env reader w c"
    and "12 + length atr \<le> round8 (unat (max_message_size reader))" and "known_atr atr"
    and "auto_voltage reader \<or> supported_voltages reader AND 7 \<noteq> 0" and "current_slot reader = slot"
  shows "\<exists>crd w'. ccid_reader_identify_card env (yubikey_init []) reader slot w = Inr (Some crd, w')
    \<and> key_slot crd = 0 \<and> card_driver crd = yubikey_driver_ref \<and> pin_required crd
    \<and> card_link (capacity reader) tok atr rst step st env crd (crd, w') (rst c)"
proof -
  let ?a = "\<lparr>atr_len = 0, atr_data = malloc_block (junk env) IFD_MAX_ATR_LEN\<rparr> :: ifd_atrbuf"
  have len: "length atr \<le> IFD_MAX_ATR_LEN" using assms(3) by (rule known_atr_length)
  obtain reader1 w1 where r: "ccid_reset_card env reader slot ?a w
      = Inr (True, \<lparr>atr_len = of_nat (length atr), atr_data = atr @ drop (length atr) (atr_data ?a)\<rparr>, reader1, w1)"
      "same_reader reader reader1" "reader_link tok atr rst step st env reader1 w1 (rst c)"
    using link_reset_card [OF assms(1) _ len _ assms(4), of ?a slot] assms(2) by auto
  obtain crd where crd: "ifd_create_card (yubikey_init []) \<lparr>atr_len = of_nat (length atr),
        atr_data = atr @ drop (length atr) (atr_data ?a)\<rparr> reader1 slot = Inr (Some crd)"
      "card_reader crd = reader1" "key_slot crd = 0" "pin_required crd" "card_driver crd = yubikey_driver_ref"
    using create_known_card [OF assms(3), of "drop (length atr) (atr_data ?a)" reader1 slot] by auto
  have "card_link (capacity reader) tok atr rst step st env crd (crd, w1) (rst c)"
    using r(2,3) assms(2) same_readerD(4) [OF r(2)]
    by (simp add: card_link_def reader_slot_link_def crd(2)) (simp add: capacity_def)
  then show ?thesis
    using assms(5) r(1) crd by (auto simp: ccid_reader_identify_card_def Let_def)
qed

lemma set_option_card: "ifd_card_set_option card_drivers crd opt
    = (case split_at CHR ''='' opt of (k, v) \<Rightarrow> yubikey_set_card_option crd k v)"
  by (simp add: ifd_card_set_option_def card_drivers_def yubikey_driver_def)

lemma set_card_option_reader:
  "yubikey_set_card_option crd k v = (ok, crd') \<Longrightarrow>
     card_reader crd' = card_reader crd \<and> card_driver crd' = card_driver crd"
  by (auto simp: yubikey_set_card_option_def Let_def split: option.splits prod.splits if_splits)

lemma set_options_reader:
  "set_options (card_drivers :: 'w drivers) crd opts = Some crd' \<Longrightarrow>
     card_reader crd' = card_reader crd \<and> card_driver crd' = card_driver crd"
proof (induction opts arbitrary: crd)
  case Nil
  then show ?case by simp
next
  case (Cons opt opts)
  obtain k v where o: "split_at CHR ''='' opt = (k, v)" by (cases "split_at CHR ''='' opt")
  obtain ok c1 where c1: "yubikey_set_card_option crd k v = (ok, c1)"
    by (cases "yubikey_set_card_option crd k v")
  have "set_options (card_drivers :: 'w drivers) c1 opts = Some crd'"
    using Cons.prems by (simp add: set_option_card o c1 split: if_splits)
  from Cons.IH [OF this] set_card_option_reader [OF c1] show ?case by simp
qed

text \<open>The first half of \<^verbatim>\<open>doit\<close>: the card is reset, identified, configured and its PIV
  application selected. The PIN, the ciphertext and the outcome are up to what follows.\<close>

definition finish_doit ::
    "'w env \<Rightarrow> 'w drivers \<Rightarrow> ifd_card \<Rightarrow> string option \<Rightarrow> buffer \<Rightarrow> 'w \<Rightarrow> (outcome \<times> 'w) res" where
  "finish_doit env drivers crd pin ciphertext w =
     rbind (doit_verify drivers env crd pin w) (\<lambda>(bad, crd, w).
       case bad of Some r \<Rightarrow> Inr (r, w)
       | None \<Rightarrow> rbind (ifd_card_decipher drivers env crd ciphertext w) (\<lambda>(r, crd, w).
           Inr (case r of None \<Rightarrow> Failure | Some cleartext \<Rightarrow> Cleartext cleartext, w)))"

lemma doit_connects:
  fixes env :: "'w env" and reader :: ccid_reader
  defines "cap \<equiv> capacity reader"
  assumes "ccid_reader_create env dev w = Inr (Some reader, w0)"
    and "reader_link tok atr rst step st env reader w0 c"
    and "12 + length atr \<le> round8 (unat (max_message_size reader))" and "known_atr atr"
    and "auto_voltage reader \<or> supported_voltages reader AND 7 \<noteq> 0"
    and "\<forall>crd. key_slot crd = 0 \<longrightarrow>
           (\<exists>crd1. set_options (card_drivers :: 'w drivers) crd opts = Some crd1 \<and> key_slot crd1 = key)"
    and "card_answers step cap (rst c) (select_apdu piv_aid) d1 0x9000 c1"
    and "card_answers step cap c1 (pin_apdu None) d2 sw2 c2"
  shows "\<exists>crd w'. (\<forall>pin ct. doit env card_drivers (yubikey_init []) dev pin ct opts w
        = finish_doit env card_drivers crd pin ct w')
    \<and> key_slot crd = (if key = 0 then 0x9e else key)
    \<and> card_link cap tok atr rst step st env crd (crd, w') c2"
proof -
  have "current_slot reader \<noteq> 0"
    using reader_create_init [OF assms(2)] by simp
  with assms(3,4) obtain r1 w1 where s: "ccid_reader_select_slot env reader 0 w0 = Inr (True, r1, w1)"
      "current_slot r1 = 0" "max_message_size r1 = max_message_size reader"
      "auto_voltage r1 = auto_voltage reader" "supported_voltages r1 = supported_voltages reader"
      and l1: "reader_link tok atr rst step st env r1 w1 c"
    using link_select_slot [OF assms(3), of 0] by auto
  have cap: "capacity r1 = cap" using s(3) by (simp add: capacity_def cap_def)
  obtain crd w2 where i: "ccid_reader_identify_card env (yubikey_init []) r1 0 w1 = Inr (Some crd, w2)"
      "key_slot crd = 0" "card_driver crd = yubikey_driver_ref"
      and l2: "card_link cap tok atr rst step st env crd (crd, w2) (rst c)"
    using link_identify [OF l1 _ assms(5), of 0] assms(4,6) s cap by auto
  obtain crd1 where o: "set_options (card_drivers :: 'w drivers) crd opts = Some crd1" "key_slot crd1 = key"
    using assms(7) i(2) by blast
  have l3: "card_link cap tok atr rst step st env crd1 (crd1, w2) (rst c)"
    using link_update [OF l2] set_options_reader [OF o(1)] by simp
  obtain crd2 w3 where k: "yubikey_connect env crd1 w2 = Inr (True, crd2, w3)"
      "key_slot crd2 = (if key = 0 then 0x9e else key)"
      and l4: "card_link cap tok atr rst step st env crd2 (crd2, w3) c2"
    using connect_ok [OF l3 assms(8,9)] o(2) by auto
  have "doit env card_drivers (yubikey_init []) dev pin ct opts w
      = finish_doit env card_drivers crd2 pin ct w3" for pin ct
    using s(1) i(1) o(1) k(1)
    by (simp add: doit_def assms(2) finish_doit_def ifd_card_connect_def card_drivers_def yubikey_driver_def)
  with k(2) l4 show ?thesis by blast
qed

lemma link_state: "card_link cap tok atr rst step st env crd0 (crd, w) c \<Longrightarrow> st w = c"
  by (simp add: card_link_def reader_slot_link_def reader_link_def)

lemma verify_with_driver:
  assumes "card_link cap tok atr rst step st env crd (crd, w) c" and "length p \<le> 8"
    and "card_answers step cap c (pin_apdu (Some (c_bytes p))) d sw c'"
  shows "if sw = 0x9000 \<or> sw AND 0xFF00 = 0x6300
    then \<exists>crd' w'. doit_verify card_drivers env crd (Some p) w
        = Inr (if sw = 0x9000 then None else Some (Wrong_PIN (unat (sw AND 0xF))), crd', w')
      \<and> card_link cap tok atr rst step st env crd (crd', w') c'
    else doit_verify card_drivers env crd (Some p) w = Inl Uninitialised"
proof -
  have "unat (of_nat (length p) :: u64) = length (c_bytes p)"
    using assms(2) by (simp add: c_bytes_def unat_of_nat_u64)
  with assms(2) obtain crd' w' where "yubikey_verify env crd (Some (c_bytes p)) (of_nat (length p)) w
      = Inr (sw = 0x9000, if sw AND 0xFF00 = 0x6300 then Some (unat (sw AND 0xF)) else None, crd', w')"
      "card_link cap tok atr rst step st env crd (crd', w') c'"
    using verify_ok [OF assms(1), where pin = "Some (c_bytes p)" and n = "of_nat (length p)"
        and d = d and sw = sw and c' = c'] assms(3)
    by (auto simp: c_bytes_def)
  then show ?thesis
    by (simp add: doit_verify_def ifd_card_verify_def card_drivers_def yubikey_driver_def)
qed

text \<open>A PIN that is too long never reaches the card, and the message reads \<^verbatim>\<open>retries_left\<close>.\<close>

lemma long_pin_unread:
  assumes "8 < length p" and "length p < 2 ^ 64" and "card_driver crd = yubikey_driver_ref"
  shows "doit_verify card_drivers env crd (Some p) w = Inl Uninitialised"
proof -
  have "(of_nat (length p) :: u64) > 8"
    using assms(1,2) by (simp add: word_less_nat_alt unat_of_nat take_bit_nat_eq_self)
  then show ?thesis
    by (simp add: doit_verify_def ifd_card_verify_def card_drivers_def yubikey_driver_def yubikey_verify_def verify_apdu_def)
qed

lemma doit_ok:
  fixes env :: "'w env" and reader :: ccid_reader
  assumes "ccid_reader_create env dev w = Inr (Some reader, w0)"
    and "reader_link tok atr rst step st env reader w0 c"
    and "12 + length atr \<le> round8 (unat (max_message_size reader))" and "known_atr atr"
    and "auto_voltage reader \<or> supported_voltages reader AND 7 \<noteq> 0"
    and "\<forall>crd. key_slot crd = 0 \<longrightarrow>
           (\<exists>crd1. set_options (card_drivers :: 'w drivers) crd opts = Some crd1 \<and> key_slot crd1 = key)"
    and "card_answers step (capacity reader) (rst c) (select_apdu piv_aid) d1 0x9000 c1"
    and "card_answers step (capacity reader) c1 (pin_apdu None) d2 sw2 c2"
    and "case pin of None \<Rightarrow> c3 = c2
         | Some p \<Rightarrow> length p \<le> 8 \<and> card_answers step (capacity reader) c2 (pin_apdu (Some (c_bytes p))) d3 0x9000 c3"
    and "buf_ok ct" and "decipher_algorithm (buffer_available ct) = Some alg"
    and "accepts (card_answers step (capacity reader)) c3
           (decipher_apdus alg (if key = 0 then 0x9e else key) (decipher_args (contents ct)))
           (decipher_response (pkcs1_block padding m)) c4"
    and "0 \<notin> set padding" and "length padding + length m < 64000"
  shows "\<exists>b w'. doit env card_drivers (yubikey_init []) dev pin ct opts w = Inr (Cleartext b, w')
    \<and> buf_ok b \<and> contents b = m \<and> st w' = c4"
proof -
  obtain crd w3 where run: "\<forall>pin ct. doit env card_drivers (yubikey_init []) dev pin ct opts w
        = finish_doit env card_drivers crd pin ct w3"
      and k: "key_slot crd = (if key = 0 then 0x9e else key)"
      and l4: "card_link (capacity reader) tok atr rst step st env crd (crd, w3) c2"
    using doit_connects [OF assms(1-8)]
    by (elim exE conjE) (rule that)
  obtain crd3 w4 where v: "doit_verify card_drivers env crd pin w3 = Inr (None, crd3, w4)"
      and l5: "card_link (capacity reader) tok atr rst step st env crd (crd3, w4) c3"
  proof (cases pin)
    case None
    with assms(9) l4 that [of crd w3] show ?thesis by (simp add: doit_verify_def)
  next
    case (Some p)
    with assms(9) verify_with_driver [OF l4, of p d3 "0x9000" c3] that show ?thesis by auto
  qed
  have key: "key_slot crd3 = (if key = 0 then 0x9e else key)"
    using link_fields(1) [OF l5] k by simp
  have strip: "strip_padding (pkcs1_block padding m) = Some m"
    using assms(13) by (rule strip_pkcs1_block)
  have "2 \<le> length (pkcs1_block padding m)" "length (pkcs1_block padding m) < 65000"
    using assms(14) by (simp_all add: pkcs1_block_def)
  from decipher_ok [OF link_self [OF l5] assms(10,11) assms(12) [folded key] this]
  obtain b crd4 w5 where d: "yubikey_decipher env crd3 ct w4 = Inr (Some b, crd4, w5)" "buf_ok b"
      "contents b = m" and l6: "card_link (capacity reader) tok atr rst step st env crd3 (crd4, w5) c4"
    by (auto simp: strip)
  have "doit env card_drivers (yubikey_init []) dev pin ct opts w = Inr (Cleartext b, w5)"
    by (simp add: run finish_doit_def v ifd_card_decipher_def card_drivers_def yubikey_driver_def d(1))
  with d(2,3) link_state [OF l6] show ?thesis by blast
qed

text \<open>C1: With a token behind the device that follows the CCID specification and holds a card with a
  known ATR which selects the PIV application, accepts the PIN if one is given, takes the
  chained GENERAL AUTHENTICATE commands for the ciphertext and answers with a PKCS\#1 block of
  the message m, doit returns a buffer that holds exactly m, and the card has seen no command
  beyond these.\<close>

theorem doit_decrypts:
  fixes env :: "'w env" and reader :: ccid_reader
  assumes "ccid_reader_create env dev w = Inr (Some reader, w0)"
    and "reader_link tok atr rst step st env reader w0 c"
    and "12 + length atr \<le> round8 (unat (max_message_size reader))" and "known_atr atr"
    and "auto_voltage reader \<or> supported_voltages reader AND 7 \<noteq> 0"
    and "\<forall>crd. key_slot crd = 0 \<longrightarrow>
           (\<exists>crd1. set_options (card_drivers :: 'w drivers) crd opts = Some crd1 \<and> key_slot crd1 = key)"
    and "card_answers step (capacity reader) (rst c) (select_apdu piv_aid) d1 0x9000 c1"
    and "card_answers step (capacity reader) c1 (pin_apdu None) d2 sw2 c2"
    and "case pin of None \<Rightarrow> c3 = c2
         | Some p \<Rightarrow> length p \<le> 8
             \<and> card_answers step (capacity reader) c2 (pin_apdu (Some (c_bytes p))) d3 0x9000 c3"
    and "buf_ok ct" and "decipher_algorithm (buffer_available ct) = Some alg"
    and "accepts (card_answers step (capacity reader)) c3
           (decipher_apdus alg (if key = 0 then 0x9e else key) (decipher_args (contents ct)))
           (decipher_response (pkcs1_block padding m)) c4"
    and "0 \<notin> set padding" and "length padding + length m < 64000"
  shows "\<exists>b w'. doit env card_drivers (yubikey_init []) dev pin ct opts w = Inr (Cleartext b, w')
    \<and> buf_ok b \<and> contents b = m \<and> st w' = c4"
  using assms by (rule doit_ok)

text \<open>C16: For a token that follows CCID, a card of a known ATR that accepts the selection of the PIV
  application, card options that are accepted, and a PIN of at most eight characters: if the
  card refuses the PIN with a status 63xx, doit ends with the outcome Wrong_PIN and the low four
  bits of the status as the number of tries, and the card has seen nothing after the VERIFY
  command; if it answers any other status than 9000 and 63xx, doit reads its variable
  retries_left, which nothing was stored to.\<close>

theorem doit_wrong_pin:
  fixes env :: "'w env" and reader :: ccid_reader
  assumes "ccid_reader_create env dev w = Inr (Some reader, w0)"
    and "reader_link tok atr rst step st env reader w0 c"
    and "12 + length atr \<le> round8 (unat (max_message_size reader))" and "known_atr atr"
    and "auto_voltage reader \<or> supported_voltages reader AND 7 \<noteq> 0"
    and "\<forall>crd. key_slot crd = 0 \<longrightarrow>
           (\<exists>crd1. set_options (card_drivers :: 'w drivers) crd opts = Some crd1 \<and> key_slot crd1 = key)"
    and "card_answers step (capacity reader) (rst c) (select_apdu piv_aid) d1 0x9000 c1"
    and "card_answers step (capacity reader) c1 (pin_apdu None) d2 sw2 c2"
    and "length p \<le> 8"
    and "card_answers step (capacity reader) c2 (pin_apdu (Some (c_bytes p))) d3 sw3 c3" and "sw3 \<noteq> 0x9000"
  shows "if sw3 AND 0xFF00 = 0x6300
    then \<exists>w'. doit env card_drivers (yubikey_init []) dev (Some p) ct opts w
        = Inr (Wrong_PIN (unat (sw3 AND 0xF)), w') \<and> st w' = c3
    else doit env card_drivers (yubikey_init []) dev (Some p) ct opts w = Inl Uninitialised"
proof -
  obtain crd w3 where run: "\<forall>pin ct. doit env card_drivers (yubikey_init []) dev pin ct opts w
        = finish_doit env card_drivers crd pin ct w3"
      and l: "card_link (capacity reader) tok atr rst step st env crd (crd, w3) c2"
    using doit_connects [OF assms(1-8)] by (elim exE conjE) (rule that)
  note v = verify_with_driver [OF l assms(9,10)]
  show ?thesis
  proof (cases "sw3 AND 0xFF00 = 0x6300")
    case True
    with v assms(11) obtain crd' w' where
        "doit_verify card_drivers env crd (Some p) w3 = Inr (Some (Wrong_PIN (unat (sw3 AND 0xF))), crd', w')"
        "card_link (capacity reader) tok atr rst step st env crd (crd', w') c3"
      by auto
    with True link_state [OF this(2)] show ?thesis
      by (simp add: run finish_doit_def)
  next
    case False
    with v assms(11) show ?thesis by (simp add: run finish_doit_def)
  qed
qed

section \<open>A run from device to cleartext\<close>

text \<open>
  The device is what the descriptors of a YubiKey 5 parse to; the card answers the commands of the
  program, accepts the PIN 123456 and knows one message.
\<close>

definition demo_secret :: bytes where
  "demo_secret = map of_nat [1..<17]"

definition demo_block :: bytes where
  "demo_block = pkcs1_block (replicate 109 0xFF) demo_secret"

definition demo_card :: "nat \<Rightarrow> bytes \<Rightarrow> bytes \<times> nat" where
  "demo_card c apdu =
     (if take 2 apdu = [0x10, 0x87] then (sw_bytes 0x9000, Suc c)
      else if take 2 apdu = [0x00, 0x87] then (decipher_response demo_block @ sw_bytes 0x9000, Suc c)
      else if apdu = pin_apdu (Some (c_bytes ''123456'')) then (sw_bytes 0x9000, Suc c)
      else if take 2 apdu = [0x00, 0x20] then (sw_bytes 0x63C3, Suc c)
      else if apdu = select_apdu piv_aid then (sw_bytes 0x9000, Suc c)
      else (sw_bytes 0x6D00, Suc c))"

definition demo_atr :: bytes where
  "demo_atr = [0x3b, 0xfd, 0x13, 0x00, 0x00, 0x81, 0x31, 0xfe, 0x15, 0x80, 0x73, 0xc0,
     0x21, 0xc0, 0x57, 0x59, 0x75, 0x62, 0x69, 0x4b, 0x65, 0x79, 0x40]"

definition demo_env :: "(bytes \<times> nat) env" where
  "demo_env = token_world (ideal_token demo_atr (\<lambda>_. 0) demo_card)"

definition demo_dev :: uusb_dev where
  "demo_dev = (case yk5_parsed of Inl _ \<Rightarrow> dev_zero | Inr dev \<Rightarrow> dev\<lparr>dev_fd := 3\<rparr>)"

definition demo_ct :: buffer where
  "demo_ct = buffer_init_read (replicate 256 0x55) 256"

lemma demo_reader:
  "\<exists>r. ccid_reader_create demo_env demo_dev ([], 0) = Inr (Some r, ([], 0))
     \<and> max_message_size r = 3072 \<and> ep_o (rd_dev r) = 2 \<and> ep_i (rd_dev r) = 0x82 \<and> auto_voltage r"
proof -
  have "(case ccid_reader_create demo_env demo_dev ([], 0) of Inl e \<Rightarrow> False
    | Inr (r, w) \<Rightarrow> w = ([], 0) \<and> (case r of None \<Rightarrow> False
        | Some r \<Rightarrow> max_message_size r = 3072 \<and> ep_o (rd_dev r) = 2 \<and> ep_i (rd_dev r) = 0x82
            \<and> auto_voltage r))"
    by code_simp
  then show ?thesis by (auto split: sum.splits prod.splits option.splits)
qed

lemma two_chunks:
  assumes "255 < length xs" and "length xs \<le> 510"
  shows "decipher_apdus alg key xs =
    [[0x10, YKPIV_INS_AUTHENTICATE, alg, key, 255] @ take 255 xs,
     [0x00, YKPIV_INS_AUTHENTICATE, alg, key, of_nat (length xs - 255)] @ drop 255 xs]"
proof -
  have "\<not> 255 < length xs - 255" "xs \<noteq> []" using assms by auto
  with assms show ?thesis
    by (simp add: decipher_apdus.simps [of alg key xs] decipher_apdus.simps [of alg key "drop 255 xs"])
qed

lemma demo_options:
  "\<forall>crd. key_slot crd = 0 \<longrightarrow>
     (\<exists>crd1. set_options card_drivers crd [''key-slot=9a''] = Some crd1 \<and> key_slot crd1 = 0x9a)"
proof -
  have "split_at CHR ''='' ''key-slot=9a'' = (''key-slot'', Some ''9a'')" by simp
  moreover have "strtoul ''9a'' 16 = (0x9a, [])"
    by (simp add: strtoul_def strtoul_base_def isspace_def is_digit_def digit_value_def char_code_def)
  ultimately show ?thesis
    by (simp add: set_option_card yubikey_set_card_option_def)
qed

lemma demo_card_answers:
  "demo_card c (select_apdu piv_aid) = ([] @ sw_bytes 0x9000, Suc c)"
  "demo_card c (pin_apdu None) = ([] @ sw_bytes 0x63C3, Suc c)"
  "demo_card c (pin_apdu (Some (c_bytes ''123456''))) = ([] @ sw_bytes 0x9000, Suc c)"
  "demo_card c ([0x10, YKPIV_INS_AUTHENTICATE] @ xs) = ([] @ sw_bytes 0x9000, Suc c)"
  "demo_card c ([0x00, YKPIV_INS_AUTHENTICATE] @ xs) = (decipher_response demo_block @ sw_bytes 0x9000, Suc c)"
proof -
  have "take 2 (select_apdu piv_aid) = [0x00, 0xA4]" "take 2 (pin_apdu None) = [0x00, 0x20]"
      "take 2 (pin_apdu (Some (c_bytes ''123456''))) = [0x00, 0x20]"
      "pin_apdu None \<noteq> pin_apdu (Some (c_bytes ''123456''))"
      "select_apdu piv_aid \<noteq> pin_apdu (Some (c_bytes ''123456''))"
    by (code_simp+)
  then show "demo_card c (select_apdu piv_aid) = ([] @ sw_bytes 0x9000, Suc c)"
    "demo_card c (pin_apdu None) = ([] @ sw_bytes 0x63C3, Suc c)"
    "demo_card c (pin_apdu (Some (c_bytes ''123456''))) = ([] @ sw_bytes 0x9000, Suc c)"
    by (simp_all add: demo_card_def)
qed (simp_all add: demo_card_def YKPIV_INS_AUTHENTICATE_def)

lemma demo_block_length: "length demo_block = 128"
  by (simp add: demo_block_def pkcs1_block_def demo_secret_def)

lemma demo_accepts:
  "accepts (card_answers demo_card 3062) 3
     (decipher_apdus YKPIV_ALGO_RSA2048 0x9a (decipher_args (contents demo_ct))) (decipher_response demo_block) 5"
proof -
  have ct: "contents demo_ct = replicate 256 0x55"
    by (simp add: demo_ct_def contents_init)
  have n: "length (decipher_args (contents demo_ct)) = 266"
    unfolding ct by (simp add: decipher_args_def tlv_def ber_length_def)
  have r: "length (decipher_response demo_block) \<le> 134"
    using demo_block_length by (simp add: decipher_response_def tlv_def ber_length_def)
  have 1: "card_answers demo_card 3062 3 ([0x10, YKPIV_INS_AUTHENTICATE] @ xs) [] 0x9000 4" for xs
    by (rule card_answers_direct) (simp_all add: demo_card_answers(4) [simplified])
  have 2: "card_answers demo_card 3062 4 ([0x00, YKPIV_INS_AUTHENTICATE] @ xs)
      (decipher_response demo_block) 0x9000 5" for xs
    using r by (intro card_answers_direct) (simp_all add: demo_card_answers(5) [simplified])
  show ?thesis
    using n accepts_more [of "card_answers demo_card 3062", OF 1 accepts_last [of "card_answers demo_card 3062", OF 2]]
    by (simp add: two_chunks)
qed

lemma demo_facts:
  "\<exists>r. ccid_reader_create demo_env demo_dev ([], 0) = Inr (Some r, ([], 0)) \<and> capacity r = 3062
    \<and> reader_link (ideal_token demo_atr (\<lambda>_. 0) demo_card) demo_atr (\<lambda>_. 0) demo_card snd demo_env r ([], 0) 0
    \<and> 12 + length demo_atr \<le> round8 (unat (max_message_size r)) \<and> known_atr demo_atr
    \<and> (auto_voltage r \<or> supported_voltages r AND 7 \<noteq> 0)"
proof -
  obtain r where r: "ccid_reader_create demo_env demo_dev ([], 0) = Inr (Some r, ([], 0))"
      "max_message_size r = 3072" "ep_o (rd_dev r) = 2" "ep_i (rd_dev r) = 0x82" "auto_voltage r"
    using demo_reader by blast
  have "reader_link (ideal_token demo_atr (\<lambda>_. 0) demo_card) demo_atr (\<lambda>_. 0) demo_card snd demo_env r
      ([], 0) 0"
    using ideal_link [of r demo_atr "\<lambda>_. 0" demo_card "([], 0)"] r by (simp add: demo_env_def)
  moreover have "known_atr demo_atr" "length demo_atr = 23"
    by (simp_all add: known_atr_def yubikey_init_def ifd_register_card_driver_def atr_yubikey5_def
        MAKE_ATR_ok IFD_MAX_ATR_LEN_def demo_atr_def)
  ultimately show ?thesis
    using r by (intro exI [of _ r]) (simp add: capacity_def round8_def)
qed

lemma demo_session:
  "card_answers demo_card 3062 0 (select_apdu piv_aid) [] 0x9000 1"
  "card_answers demo_card 3062 1 (pin_apdu None) [] 0x63C3 2"
  "card_answers demo_card 3062 2 (pin_apdu (Some (c_bytes ''123456''))) [] 0x9000 3"
  "card_answers demo_card 3062 2 (pin_apdu (Some (c_bytes ''000000''))) [] 0x63C3 3"
proof -
  have "take 2 (pin_apdu (Some (c_bytes ''000000''))) = [0x00, 0x20]"
      "pin_apdu (Some (c_bytes ''000000'')) \<noteq> pin_apdu (Some (c_bytes ''123456''))"
    by (code_simp+)
  then have "demo_card c (pin_apdu (Some (c_bytes ''000000''))) = ([] @ sw_bytes 0x63C3, Suc c)" for c
    by (simp add: demo_card_def)
  note answers = demo_card_answers this
  show "card_answers demo_card 3062 0 (select_apdu piv_aid) [] 0x9000 1"
    "card_answers demo_card 3062 1 (pin_apdu None) [] 0x63C3 2"
    "card_answers demo_card 3062 2 (pin_apdu (Some (c_bytes ''123456''))) [] 0x9000 3"
    "card_answers demo_card 3062 2 (pin_apdu (Some (c_bytes ''000000''))) [] 0x63C3 3"
    by (rule card_answers_direct; simp add: answers)+
qed

theorem doit_decrypts_witness:
  "\<exists>b w'. doit demo_env card_drivers (yubikey_init []) demo_dev (Some ''123456'') demo_ct
      [''key-slot=9a''] ([], 0) = Inr (Cleartext b, w')
    \<and> buf_ok b \<and> contents b = demo_secret \<and> snd w' = 5"
proof -
  obtain r where r: "ccid_reader_create demo_env demo_dev ([], 0) = Inr (Some r, ([], 0))"
      "capacity r = 3062"
      "reader_link (ideal_token demo_atr (\<lambda>_. 0) demo_card) demo_atr (\<lambda>_. 0) demo_card snd demo_env r ([], 0) 0"
      "12 + length demo_atr \<le> round8 (unat (max_message_size r))" "known_atr demo_atr"
      "auto_voltage r \<or> supported_voltages r AND 7 \<noteq> 0"
    using demo_facts by blast
  have ct: "buf_ok demo_ct" "buffer_available demo_ct = 256"
    by (simp_all add: demo_ct_def buffer_init_read_ok)
      (simp add: buffer_init_read_def buffer_available_def)
  show ?thesis
    by (rule doit_decrypts [where alg = YKPIV_ALGO_RSA2048 and key = "0x9a" and padding = "replicate 109 0xFF",
          OF r(1,3-6) demo_options])
      (use demo_session ct demo_accepts in \<open>auto simp: r(2) demo_block_def decipher_algorithm_def demo_secret_def\<close>)
qed

theorem doit_wrong_pin_witness:
  "\<exists>w'. doit demo_env card_drivers (yubikey_init []) demo_dev (Some ''000000'') demo_ct
      [''key-slot=9a''] ([], 0) = Inr (Wrong_PIN 3, w') \<and> snd w' = 3"
proof -
  obtain r where r: "ccid_reader_create demo_env demo_dev ([], 0) = Inr (Some r, ([], 0))"
      "capacity r = 3062"
      "reader_link (ideal_token demo_atr (\<lambda>_. 0) demo_card) demo_atr (\<lambda>_. 0) demo_card snd demo_env r ([], 0) 0"
      "12 + length demo_atr \<le> round8 (unat (max_message_size r))" "known_atr demo_atr"
      "auto_voltage r \<or> supported_voltages r AND 7 \<noteq> 0"
    using demo_facts by blast
  show ?thesis
    using doit_wrong_pin [OF r(1,3-6) demo_options, unfolded r(2), OF demo_session(1,2) _ demo_session(4)]
    by simp
qed

section \<open>Options\<close>

text \<open>The arguments of the options, read off the whole command line.\<close>

definition card_args :: "opt_event list \<Rightarrow> string list" where
  "card_args es = concat (map (\<lambda>e. case e of Opt_Card_Option a \<Rightarrow> [a] | _ \<Rightarrow> []) es)"

definition last_arg :: "(opt_event \<Rightarrow> string option) \<Rightarrow> string option \<Rightarrow> opt_event list \<Rightarrow> string option" where
  "last_arg g old es = foldl (\<lambda>a e. case g e of None \<Rightarrow> a | Some b \<Rightarrow> Some b) old es"

definition type_arg :: "opt_event \<Rightarrow> string option" where
  "type_arg e = (case e of Opt_Type a \<Rightarrow> Some a | _ \<Rightarrow> None)"

definition pin_arg :: "opt_event \<Rightarrow> string option" where
  "pin_arg e = (case e of Opt_Pin a \<Rightarrow> Some a | _ \<Rightarrow> None)"

definition output_arg :: "opt_event \<Rightarrow> string option" where
  "output_arg e = (case e of Opt_Output a \<Rightarrow> Some a | _ \<Rightarrow> None)"

lemma arg_simps:
  "card_args [] = []"
  "card_args (e # es) = (case e of Opt_Card_Option a \<Rightarrow> [a] | _ \<Rightarrow> []) @ card_args es"
  "last_arg g old [] = old"
  "last_arg g old (e # es) = last_arg g (case g e of None \<Rightarrow> old | Some b \<Rightarrow> Some b) es"
  by (simp_all add: card_args_def last_arg_def)

lemma main_options_from:
  "Opt_Help \<notin> set es \<Longrightarrow> Opt_Unknown \<notin> set es \<Longrightarrow> length (cardopts s) \<le> 16 \<Longrightarrow>
   (if length (cardopts s @ card_args es) \<le> 16
    then \<exists>s'. main_options es s = Inr s' \<and> cardopts s' = cardopts s @ card_args es
      \<and> opt_type s' = last_arg type_arg (opt_type s) es \<and> opt_pin s' = last_arg pin_arg (opt_pin s) es
      \<and> opt_output s' = last_arg output_arg (opt_output s) es
      \<and> debug_level s' = debug_level s + of_nat (count_list es Opt_Debug)
    else main_options es s = Inl 1)"
  by (induction es s rule: main_options.induct)
    (auto simp: arg_simps type_arg_def pin_arg_def output_arg_def MAX_CARDOPTS_def)

text \<open>C40: Without --help and unknown options, the option loop collects up to sixteen card options in
  order and the last type, PIN and output argument, counts the debug options, and ends the
  program with status 1 for a seventeenth card option.\<close>

theorem main_options_collects:
  assumes "Opt_Help \<notin> set es" and "Opt_Unknown \<notin> set es"
  shows "if length (card_args es) \<le> 16
    then \<exists>s. main_options es settings_init = Inr s \<and> cardopts s = card_args es
      \<and> opt_type s = last_arg type_arg None es \<and> opt_pin s = last_arg pin_arg None es
      \<and> opt_output s = last_arg output_arg None es \<and> debug_level s = of_nat (count_list es Opt_Debug)
    else main_options es settings_init = Inl 1"
proof -
  have init: "cardopts settings_init = []" "opt_type settings_init = None" "opt_pin settings_init = None"
      "opt_output settings_init = None" "debug_level settings_init = 0"
    by (simp_all add: settings_init_def)
  show ?thesis
    using main_options_from [OF assms, of settings_init] unfolding init append_Nil add_0_left by simp
qed

theorem main_options_collects_witness:
  "\<exists>s. main_options [Opt_Pin ''1'', Opt_Debug, Opt_Card_Option ''key-slot=9a'', Opt_Pin ''2''] settings_init = Inr s
     \<and> cardopts s = [''key-slot=9a''] \<and> opt_type s = None \<and> opt_pin s = Some ''2'' \<and> debug_level s = 1"
  using main_options_collects [of "[Opt_Pin ''1'', Opt_Debug, Opt_Card_Option ''key-slot=9a'', Opt_Pin ''2'']"]
  by (auto simp: arg_simps type_arg_def pin_arg_def)

theorem main_without_type:
  assumes "main_options events settings_init = Inr s" and "opt_type s = None" and "length args \<le> 1"
    and "buffer_read_file (env\<lparr>opt_debug := debug_level s\<rparr>) (Some (if args = [] then ''-'' else hd args)) w
      = Inr (secret, w1)"
  shows "main env events args w = Inl Uninitialised"
  using assms by (cases args) (auto simp: main_def main_run_def open_type_def split: list.splits)

theorem main_without_type_witness:
  "main (piece_env\<lparr>sys_fstat := (\<lambda>_ _. Some 2)\<rparr>) [Opt_Pin ''1''] [''secret''] [[1, 2]] = Inl Uninitialised"
proof -
  let ?env = "piece_env\<lparr>sys_fstat := (\<lambda>_ _. Some 2)\<rparr>"
  obtain s where s: "main_options [Opt_Pin ''1''] settings_init = Inr s" "opt_type s = None"
    by (simp add: settings_init_def)
  have "case buffer_read_file (?env\<lparr>opt_debug := debug_level s\<rparr>) (Some ''secret'') [[1, 2]] of
      Inl _ \<Rightarrow> False | Inr _ \<Rightarrow> True"
    by (simp add: buffer_read_file_def open_stream_def std_stream_def close_stream_def piece_env_def
        buffer_alloc_write_def buffer_init_write_def Let_def mem_write_def)
  then obtain b w1 where b: "buffer_read_file (?env\<lparr>opt_debug := debug_level s\<rparr>) (Some ''secret'') [[1, 2]]
      = Inr (b, w1)"
    by (auto split: sum.splits)
  then show ?thesis
    using main_without_type [OF s, of "[''secret'']"] by simp
qed

end
