(* ===== verification/Exchange_Invariant.thy ===== *)
theory Exchange_Invariant
  imports Main_Program
begin

text \<open>
  What holds of a run on any device. The layers above \<open>ccid_xfer\<close> (reader.c, scard.c, yubikey.c,
  main.c) change the reader and the world only through exchanges of well-formed commands, and
  what they do with a response is safe for every response. The locale \<open>exchange_invariant\<close> says
  so once: a property \<open>I\<close> of reader and world that every exchange keeps, and the faults \<open>F\<close> an
  exchange can end in, are those of every operation up to \<^verbatim>\<open>doit\<close>. Its instances are in the theory
  Any_Device.
\<close>

section \<open>Runs with a bounded set of faults\<close>

text \<open>\<open>ends_in F m P\<close>: \<open>m\<close> ends in a fault of \<open>F\<close> or returns a value with \<open>P\<close>.\<close>

definition ends_in :: "fault set \<Rightarrow> 'a res \<Rightarrow> ('a \<Rightarrow> bool) \<Rightarrow> bool" where
  "ends_in F m P \<longleftrightarrow> (case m of Inl e \<Rightarrow> e \<in> F | Inr x \<Rightarrow> P x)"

lemma ends_simps [simp]: "ends_in F (Inl e) P \<longleftrightarrow> e \<in> F" "ends_in F (Inr x) P \<longleftrightarrow> P x"
  by (simp_all add: ends_in_def)

lemma ends_bind:
  assumes "ends_in F m P" and "\<And>x. P x \<Longrightarrow> ends_in F (f x) Q"
  shows "ends_in F (rbind m f) Q"
  using assms by (cases m) simp_all

lemma ends_cases: "ends_in F m P \<Longrightarrow> (\<exists>e \<in> F. m = Inl e) \<or> (\<exists>x. m = Inr x \<and> P x)"
  by (cases m) simp_all

lemma ends_mono: "ends_in F m P \<Longrightarrow> (\<And>x. P x \<Longrightarrow> Q x) \<Longrightarrow> ends_in F m Q"
  by (cases m) simp_all

section \<open>Commands and responses\<close>

text \<open>
  A command as the reader sends it: a packet of one of the three types of the program for the
  slot, with the sequence number of the reader.
\<close>

definition command_ok :: "u8 \<Rightarrow> ccid_reader \<Rightarrow> ccid_command \<Rightarrow> bool" where
  "command_ok slot r c \<longleftrightarrow> buf_ok (cmd_pkt c) \<and> length (contents (cmd_pkt c)) < 2 ^ 31
     \<and> cmd_slot c = slot \<and> cmd_seq c = ucast (ccid_seq r)
     \<and> (case decode_packet (contents (cmd_pkt c)) of None \<Rightarrow> False
        | Some (ty, s, q, ctl, payload) \<Rightarrow> s = slot \<and> q = ucast (ccid_seq r)
            \<and> ty \<in> {CCID_CMD_GETSLOTSTAT, CCID_CMD_ICCPOWERON, CCID_CMD_XFRBLOCK})"

text \<open>The bytes of the block from the read position on that belong to the buffer.\<close>

definition span :: "buffer \<Rightarrow> nat" where
  "span b = length (contents b) + room b"

text \<open>
  What is left of a packet behind its header. The span \<open>sp\<close> is the same for all packets of a reader,
  which come in blocks of one size. A length below two gigabytes survives the conversions to
  \<^verbatim>\<open>int\<close> when the cleartext is written.
\<close>

definition resp_ok :: "nat \<Rightarrow> buffer \<Rightarrow> bool" where
  "resp_ok sp b \<longleftrightarrow> buf_ok b \<and> span b = sp \<and> sp < 2 ^ 31"

definition clear_ok :: "buffer \<Rightarrow> bool" where
  "clear_ok b \<longleftrightarrow> buf_ok b \<and> length (contents b) < 2 ^ 31"

definition response_ok :: "nat \<Rightarrow> ccid_response option \<Rightarrow> bool" where
  "response_ok sp x \<longleftrightarrow> (case x of None \<Rightarrow> True
     | Some y \<Rightarrow> length (resp_ctl y) = 3 \<and> resp_ok sp (resp_payload y))"

definition reply_ok :: "nat \<Rightarrow> (buffer \<times> u16) option \<Rightarrow> bool" where
  "reply_ok sp x \<longleftrightarrow> (case x of None \<Rightarrow> True | Some (b, sw) \<Rightarrow> resp_ok sp b)"

lemma response_ok_simps [simp]: "response_ok sp None"
    "response_ok sp (Some y) \<longleftrightarrow> length (resp_ctl y) = 3 \<and> resp_ok sp (resp_payload y)"
  by (simp_all add: response_ok_def)

lemma reply_ok_simps [simp]: "reply_ok sp None" "reply_ok sp (Some (b, sw)) = resp_ok sp b"
  by (simp_all add: reply_ok_def)

lemma build_within:
  assumes "length ctl = 3" and "unat len \<le> length src" and "unat len < 2 ^ 16"
    and "ctl_data = Some ctl \<or> ctl_data = None \<and> ctl = [0, 0, 0]"
    and "unat len \<noteq> 0 \<Longrightarrow> payload = Some src"
    and "cmd \<in> {CCID_CMD_GETSLOTSTAT, CCID_CMD_ICCPOWERON, CCID_CMD_XFRBLOCK}"
  shows "ends_in F (ccid_build_command jk reader slot cmd ctl_data payload len)
    (\<lambda>c. \<exists>x. c = Some x \<and> command_ok slot reader x)"
proof -
  have n: "unat len + 23 < 2 ^ 32" "length (take (unat len) src) < 2 ^ 32" using assms(3) by simp_all
  obtain pkt where "ccid_build_command jk reader slot cmd ctl_data payload len
      = Inr (Some \<lparr>cmd_slot = slot, cmd_seq = ucast (ccid_seq reader), cmd_pkt = pkt\<rparr>)" "buf_ok pkt"
      "contents pkt = ccid_packet cmd slot (ucast (ccid_seq reader)) ctl (take (unat len) src)"
    using build_command_packet [OF assms(1,2) n(1) assms(4,5), of jk reader slot cmd] by auto
  moreover have "length (ccid_packet cmd slot q ctl (take (unat len) src)) < 2 ^ 31" for q
    using assms(1-3) by (simp add: ccid_packet_def)
  ultimately show ?thesis
    using decode_ccid_packet [OF assms(1) n(2), of cmd slot "ucast (ccid_seq reader)" "[]"] assms(6)
    by (simp add: command_ok_def)
qed

lemma atr_set_within:
  assumes "length (atr_data a) = IFD_MAX_ATR_LEN" and "unat n \<le> length data"
  shows "ends_in F (ifd_atrbuf_set a data n) (\<lambda>a'. atr_ok a' \<and> unat (atr_len a') \<le> unat n)"
proof -
  let ?n = "if unat n > IFD_MAX_ATR_LEN then of_nat IFD_MAX_ATR_LEN else n"
  have n: "unat ?n \<le> IFD_MAX_ATR_LEN" "unat ?n \<le> length data" "unat ?n \<le> unat n"
    using assms(2) by (auto simp: IFD_MAX_ATR_LEN_def)
  moreover have "unat (ucast ?n :: u32) = unat ?n"
    using n(1) by (simp add: unat_ucast_64_32 IFD_MAX_ATR_LEN_def)
  ultimately show ?thesis
    unfolding ifd_atrbuf_set_def Let_def
    using assms(1) by (simp add: mem_read_in mem_write_in atr_ok_def min_def)
qed

lemma atr_octet_length: "atr_ok a \<Longrightarrow> length (atr_octet_list a) = unat (atr_len a)"
  by (simp add: atr_ok_def atr_octet_list_def)

text \<open>Every card type the driver registers has an answer to reset of at least ten bytes.\<close>

lemma yubikey_atrs_long: "\<forall>g \<in> set (yubikey_init []). atr_ok (reg_atr g) \<and> 10 \<le> unat (atr_len (reg_atr g))"
  by (simp add: yubikey_init_def ifd_register_card_driver_def atr_neo_r3_def atr_yubikey4_def
      atr_yubikey5_def atr_yubikey5_p1_def MAKE_ATR_def IFD_MAX_ATR_LEN_def atr_ok_def)

text \<open>Buffers stay well-formed, and the span stays what it is.\<close>

lemma put_resp_ok:
  assumes "resp_ok sp b" and "buf_ok c"
  shows "ends_in F (buffer_put b (buffer_read_pointer c) (buffer_available c)) (\<lambda>(ok, b'). resp_ok sp b')"
proof (cases "length (contents c) \<le> room b")
  case True
  with assms buffer_put_buffer [of b c] show ?thesis
    by (simp add: resp_ok_def span_def buf_simps)
next
  case False
  with assms show ?thesis by (simp add: resp_ok_def buf_simps)
qed

lemma skip_buf_ok: "buf_ok b \<Longrightarrow> buf_ok (snd (buffer_skip b n))"
  by (cases "unat n \<le> length (contents b)") (auto simp: buf_simps)

lemma resp_pointer: "resp_ok sp b \<Longrightarrow> 10 \<le> sp \<Longrightarrow> 10 \<le> length (buffer_read_pointer b)"
  using buf_okD [of b] length_contents [of b]
  by (auto simp: resp_ok_def span_def room_def buffer_read_pointer_def)

lemma cut_within:
  assumes "resp_ok sp b" and "\<not> buffer_available b < 2"
    and "\<And>b' sw. resp_ok sp b' \<Longrightarrow> P (Some (b', sw), x)"
  shows "ends_in F (rbind (mem_get (bdata b) (unat (wpos b - 2))) (\<lambda>hi.
       rbind (mem_get (bdata b) (unat (wpos b - 1))) (\<lambda>lo.
         Inr (Some (b\<lparr>wpos := wpos b - 2\<rparr>, push_bit 8 (ucast hi) OR ucast lo), x)))) P"
proof -
  let ?n = "length (contents b) - 2"
  have ok: "buf_ok b" "span b = sp" "sp < 2 ^ 31" using assms(1) by (simp_all add: resp_ok_def)
  have "2 \<le> length (contents b)"
    using assms(2) ok by (simp add: word_less_nat_alt unat_available)
  then have "contents b = take ?n (contents b) @ drop ?n (contents b)" "length (drop ?n (contents b)) = 2"
      "length (contents b) = ?n + 2"
    by simp_all
  note cut = cut_ok [OF ok(1) this(1,2)] this(3)
  have "resp_ok sp (b\<lparr>wpos := wpos b - 2\<rparr>)"
    using cut ok(2,3) by (simp add: resp_ok_def span_def)
  with cut show ?thesis by (simp add: assms(3))
qed

lemma skip_shrinks: "buf_ok b \<Longrightarrow> length (contents (snd (buffer_skip b n))) \<le> length (contents b)"
  by (cases "unat n \<le> length (contents b)") (auto simp: buf_simps)

lemma decode_resp_shrinks:
  assumes "buf_ok b" and "yubikey_decode_decipher_resp b = Inr (ok, b')"
  shows "length (contents b') \<le> length (contents b)"
  using assms skip_shrinks [OF assms(1)]
  by (auto simp: yubikey_decode_decipher_resp_def Let_def rbind_eq_Inr split: if_splits) (metis snd_conv)

lemma padding_remove_shrinks:
  assumes "buf_ok b" and "pkcs1_type2_padding_remove b = Inr (ok, b')"
  shows "buf_ok b' \<and> length (contents b') \<le> length (contents b)"
  using assms by (auto simp: pkcs1_type2_padding_remove_def Let_def rbind_eq_Inr case_prod_unfold skip_buf_ok
      skip_shrinks split: if_splits option.splits)

lemma finish_within:
  assumes "\<forall>x. r = Some x \<longrightarrow> (\<exists>b. x = Some b \<and> resp_ok sp b)" and "10 \<le> sp"
  shows "ends_in F (decipher_finish r crd w) (\<lambda>(c, crd', w'). crd' = crd \<and> w' = w \<and> (\<forall>b. c = Some b \<longrightarrow> clear_ok b))"
proof (cases r)
  case None
  then show ?thesis by (simp add: decipher_finish_def)
next
  case (Some x)
  then obtain b where b: "r = Some (Some b)" "resp_ok sp b" using assms by auto
  then have ok: "buf_ok b" "length (contents b) < 2 ^ 31" by (simp_all add: resp_ok_def span_def)
  obtain o1 b1 where d: "yubikey_decode_decipher_resp b = Inr (o1, b1)" "buf_ok b1"
      "length (buffer_read_pointer b) \<le> length (buffer_read_pointer b1) + 8"
    using decode_resp_safe [OF ok(1)] resp_pointer [OF b(2) assms(2)] by auto
  then have "2 \<le> length (buffer_read_pointer b1)" using resp_pointer [OF b(2) assms(2)] by simp
  then obtain o2 b2 where p: "pkcs1_type2_padding_remove b1 = Inr (o2, b2)"
    using padding_remove_safe [OF d(2)] by blast
  have b2: "buf_ok b2" "clear_ok b2"
    using padding_remove_shrinks [OF d(2) p] decode_resp_shrinks [OF ok(1) d(1)] ok(2) by (simp_all add: clear_ok_def)
  then have "unat (ucast (buffer_available b2) :: u64) \<le> length (buffer_read_pointer b2)"
    by (simp add: unat_available read_pointer_length)
  with b(1) d(1) p b2(2) show ?thesis
    by (simp add: decipher_finish_def hexdump_in)
qed

lemma verify_apdu_within:
  assumes "\<forall>p. pin = Some p \<longrightarrow> unat n \<le> length p"
  shows "ends_in F (verify_apdu jk pin n) (\<lambda>a. \<forall>b. a = Some b \<longrightarrow> buf_ok b \<and> length (contents b) < 2 ^ 16)"
proof (cases "pin = None \<or> n \<le> 8")
  case False
  then show ?thesis by (auto simp: verify_apdu_def not_le split: option.splits)
next
  case True
  show ?thesis
  proof (cases pin)
    case None
    obtain a where "verify_apdu jk None n = Inr (Some a)" "buf_ok a" "contents a = pin_apdu None"
      using verify_apdu_ok [where pin = None and n = n and jk = jk] by auto
    then show ?thesis by (simp add: None pin_apdu_def)
  next
    case (Some p)
    let ?p = "take (unat n) p"
    have n: "unat n \<le> 8" "unat n \<le> length p"
      using True Some assms by (auto simp: word_le_nat_alt)
    then obtain a where "verify_apdu jk (Some ?p) n = Inr (Some a)" "buf_ok a" "contents a = pin_apdu (Some ?p)"
      using verify_apdu_ok [where pin = "Some ?p" and n = n and jk = jk] by auto
    moreover have "verify_apdu jk (Some ?p) n = verify_apdu jk pin n"
      using n by (simp add: Some verify_apdu_def mem_read_in)
    ultimately show ?thesis using n by (simp add: pin_apdu_def)
  qed
qed

section \<open>The invariant through the layers\<close>

text \<open>The card object is the reader's card in the slot.\<close>

definition card_inv :: "(ccid_reader \<Rightarrow> 'w \<Rightarrow> bool) \<Rightarrow> u8 \<Rightarrow> ifd_card \<Rightarrow> 'w \<Rightarrow> bool" where
  "card_inv I slot crd w \<longleftrightarrow> I (card_reader crd) w \<and> ucast (card_slot crd) = slot"

lemma card_inv_update [simp]:
  "card_inv I slot (crd\<lparr>card_reader := r\<rparr>) w \<longleftrightarrow> I r w \<and> ucast (card_slot crd) = slot"
  "card_inv I slot (crd\<lparr>key_slot := k\<rparr>) w = card_inv I slot crd w"
  "card_inv I slot (crd\<lparr>pin_required := b\<rparr>) w = card_inv I slot crd w"
  by (simp_all add: card_inv_def)

lemma yubikey_dispatch:
  "ifd_card_connect card_drivers env crd w = yubikey_connect env crd w"
  "ifd_card_verify card_drivers env crd pin n w = yubikey_verify env crd pin n w"
  "ifd_card_decipher card_drivers env crd ct w = yubikey_decipher env crd ct w"
  by (simp_all add: ifd_card_connect_def ifd_card_verify_def ifd_card_decipher_def card_drivers_def
      yubikey_driver_def)

lemma set_card_option_slot:
  "yubikey_set_card_option crd k v = (ok, crd') \<Longrightarrow>
     card_reader crd' = card_reader crd \<and> card_slot crd' = card_slot crd"
  by (auto simp: yubikey_set_card_option_def Let_def split: option.splits prod.splits if_splits)

lemma set_options_inv:
  assumes "set_options (card_drivers :: 'w drivers) crd opts = Some crd'" and "card_inv I slot crd w"
  shows "card_inv I slot crd' w"
  using assms
proof (induction opts arbitrary: crd)
  case Nil
  then show ?case by simp
next
  case (Cons opt opts)
  obtain k v where o: "split_at CHR ''='' opt = (k, v)" by (cases "split_at CHR ''='' opt")
  obtain ok c1 where c1: "yubikey_set_card_option crd k v = (ok, c1)"
    by (cases "yubikey_set_card_option crd k v")
  have "set_options (card_drivers :: 'w drivers) c1 opts = Some crd'"
    using Cons.prems by (simp add: set_option_card o c1 split: if_splits)
  moreover have "card_inv I slot c1 w"
    using set_card_option_slot [OF c1] Cons.prems(2) by (simp add: card_inv_def)
  ultimately show ?case by (rule Cons.IH)
qed

locale exchange_invariant =
  fixes env :: "'w env"
    and F :: "fault set"
    and I :: "ccid_reader \<Rightarrow> 'w \<Rightarrow> bool"
    and slot :: u8
    and sp :: nat
  assumes exchange: "I r w \<Longrightarrow> command_ok slot r c
      \<Longrightarrow> ends_in F (ccid_xfer env r c expected w) (\<lambda>(x, r', w'). I r' w' \<and> response_ok sp x)"
    and select: "I r w \<Longrightarrow> I (r\<lparr>current_slot := s\<rparr>) w"
begin

lemma some_reader: "card_inv I slot crd w \<Longrightarrow> \<exists>reader. I reader w"
  by (auto simp: card_inv_def)

lemma keeps_slot_status:
  assumes "I r w" and "ucast s = slot"
  shows "ends_in F (ccid_get_slot_status env r s w) (\<lambda>(x, r', w'). I r' w')"
  unfolding ccid_get_slot_status_def ccid_build_simple_packet_def
  by (rule ends_bind [OF build_within [where ctl = "[0, 0, 0]" and src = "[]"]])
    (auto simp: assms mem_get_in split: option.splits intro!: ends_bind [OF exchange])

lemma keeps_select_slot:
  assumes "I r w" and "ucast s = slot"
  shows "ends_in F (ccid_reader_select_slot env r s w) (\<lambda>(ok, r', w'). I r' w')"
  by (auto simp: ccid_reader_select_slot_def assms select split: option.splits
      intro!: ends_bind [OF keeps_slot_status])

lemma keeps_poweron:
  assumes "I r w" and "ucast s = slot" and "length (atr_data a) = IFD_MAX_ATR_LEN"
  shows "ends_in F (ccid_card_poweron env r s v a w) (\<lambda>(ok, a', r', w'). I r' w'
    \<and> length (atr_data a') = IFD_MAX_ATR_LEN \<and> (ok \<longrightarrow> atr_ok a' \<and> unat (atr_len a') \<le> sp))"
proof -
  have "ends_in F (ifd_atrbuf_set a (buffer_read_pointer b) (ucast (buffer_available b)))
      (\<lambda>a'. atr_ok a' \<and> unat (atr_len a') \<le> sp)" if "resp_ok sp b" for b
  proof -
    let ?n = "ucast (buffer_available b) :: u64"
    have n: "unat ?n = length (contents b)" "length (contents b) \<le> sp" "unat ?n \<le> length (buffer_read_pointer b)"
      using that by (auto simp: resp_ok_def span_def unat_available read_pointer_length)
    show ?thesis
      by (rule ends_mono [OF atr_set_within [OF assms(3) n(3)]]) (use n in simp)
  qed
  note set = ends_bind [OF this]
  show ?thesis
    unfolding ccid_card_poweron_def
    by (rule ends_bind [OF build_within [where ctl = "[v, 0, 0]" and src = "[]"]])
      (auto simp: assms Let_def atr_ok_def split: option.splits intro!: set ends_bind [OF exchange])
qed

lemma keeps_voltages:
  assumes "ucast s = slot"
  shows "I r w \<Longrightarrow> length (atr_data a) = IFD_MAX_ATR_LEN \<Longrightarrow>
    ends_in F (reset_voltages is env r s a w) (\<lambda>(ok, a', r', w'). I r' w' \<and> (ok \<longrightarrow> atr_ok a' \<and> unat (atr_len a') \<le> sp))"
proof (induction "is" arbitrary: r a w)
  case Nil
  then show ?case by simp
next
  case (Cons i "is")
  then show ?case by (auto simp: assms intro!: ends_bind [OF keeps_poweron])
qed

lemma keeps_reset_card:
  assumes "I r w" and "ucast s = slot" and "length (atr_data a) = IFD_MAX_ATR_LEN"
  shows "ends_in F (ccid_reset_card env r s a w) (\<lambda>(ok, a', r', w'). I r' w' \<and> (ok \<longrightarrow> atr_ok a' \<and> unat (atr_len a') \<le> sp))"
  by (auto simp: ccid_reset_card_def assms simp del: reset_voltages.simps
      intro!: keeps_voltages ends_bind [OF keeps_poweron])

lemma keeps_apdu_xfer:
  assumes "I r w" and "ucast s = slot" and "buf_ok apdu" and "length (contents apdu) < 2 ^ 16"
  shows "ends_in F (ccid_reader_apdu_xfer env r s apdu w)
    (\<lambda>(x, r', w'). I r' w' \<and> (\<forall>b. x = Some b \<longrightarrow> resp_ok sp b))"
  unfolding ccid_reader_apdu_xfer_def
  by (rule ends_bind [OF build_within [where ctl = "[0, 0, 0]" and src = "buffer_read_pointer apdu"]])
    (use assms in \<open>auto simp: unat_available read_pointer_length intro!: ends_bind [OF exchange]\<close>)

lemma keeps_identify:
  assumes "I r w" and "ucast s = slot" and "\<forall>g \<in> set regs. atr_ok (reg_atr g) \<and> 10 \<le> unat (atr_len (reg_atr g))"
  shows "ends_in F (ccid_reader_identify_card env regs r s w)
    (\<lambda>(c, w'). (\<exists>reader. I reader w') \<and> (\<forall>crd. c = Some crd \<longrightarrow> card_inv I slot crd w' \<and> 10 \<le> sp))"
proof -
  let ?a = "\<lparr>atr_len = 0, atr_data = malloc_block (junk env) IFD_MAX_ATR_LEN\<rparr> :: ifd_atrbuf"
  have "length (atr_data ?a) = IFD_MAX_ATR_LEN" by simp
  note reset = ends_bind [OF keeps_reset_card [OF assms(1) _ this]]
  have regs: "\<forall>g \<in> set regs. atr_ok (reg_atr g)" using assms(3) by simp
  have long: "10 \<le> sp" if "find (\<lambda>g. atr_octet_list a = atr_octet_list (reg_atr g)) regs = Some g"
      "atr_ok a" "unat (atr_len a) \<le> sp" for a g
  proof -
    have "g \<in> set regs" "atr_octet_list a = atr_octet_list (reg_atr g)"
      using that(1) by (auto simp: find_Some_iff)
    then show ?thesis
      using assms(3) that(2,3) atr_octet_length [of a] atr_octet_length [of "reg_atr g"] by fastforce
  qed
  show ?thesis
    unfolding ccid_reader_identify_card_def Let_def
    using assms(2)
    by (auto intro!: reset assms(1) dest: long simp: create_card_find [OF _ regs] ifd_card_alloc_def card_inv_def)
qed

lemma keeps_card_apdu:
  assumes "card_inv I slot crd w" and "buf_ok apdu" and "length (contents apdu) < 2 ^ 16"
  shows "ends_in F (ifd_card_apdu env crd apdu w) (\<lambda>(x, crd', w'). card_inv I slot crd' w' \<and> reply_ok sp x)"
proof -
  have r: "I (card_reader crd) w" "ucast (card_slot crd) = slot"
    using assms(1) by (simp_all add: card_inv_def)
  show ?thesis
    unfolding ifd_card_apdu_def Let_def
    by (rule ends_bind [OF keeps_apdu_xfer [OF r assms(2,3)]])
      (auto simp: r(2) split: option.splits intro!: cut_within)
qed

lemma keeps_more:
  "card_inv I slot crd w \<Longrightarrow> resp_ok sp rapdu \<Longrightarrow>
    ends_in F (xfer_more env crd rapdu sw w) (\<lambda>(x, crd', w'). card_inv I slot crd' w' \<and> reply_ok sp x)"
proof (induction env\<equiv>env crd rapdu sw w rule: xfer_more.induct)
  case (1 crd rapdu sw w)
  show ?case
  proof (cases "sw AND 0xFF00 = 0x6100")
    case False
    with "1.prems" show ?thesis by (subst xfer_more.simps) simp
  next
    case True
    obtain apdu where apdu: "ifd_build_apdu (junk env) 0 0xC0 0 0 None (ucast (ucast (sw AND 0xFF) :: u8)) = Inr (Some apdu)"
        "buf_ok apdu" "length (contents apdu) < 2 ^ 16"
      using get_response_apdu [of "junk env" "ucast (sw AND 0xFF)"] by (auto simp: get_response_def)
    from ends_cases [OF keeps_card_apdu [OF "1.prems"(1) apdu(2,3)]]
    consider (fault) e where "e \<in> F" "ifd_card_apdu env crd apdu w = Inl e"
      | (none) crd1 w1 where "ifd_card_apdu env crd apdu w = Inr (None, crd1, w1)" "card_inv I slot crd1 w1"
      | (more) b sw1 crd1 w1 where "ifd_card_apdu env crd apdu w = Inr (Some (b, sw1), crd1, w1)"
          "card_inv I slot crd1 w1" "resp_ok sp b"
      by (auto split: prod.splits) (metis option.exhaust reply_ok_simps(2) surj_pair)
    then show ?thesis
    proof cases
      case more
      have b: "buf_ok b" using more(3) by (simp add: resp_ok_def)
      obtain ok r where put: "buffer_put rapdu (buffer_read_pointer b) (buffer_available b) = Inr (ok, r)"
          "resp_ok sp r"
        using ends_cases [OF put_resp_ok [OF "1.prems"(2) b, of "{}"]] by auto
      show ?thesis
      proof (cases "buffer_available b = (if (ucast (sw AND 0xFF) :: u8) \<noteq> 0 then ucast (ucast (sw AND 0xFF) :: u8) else 0x100) \<and> ok")
        case False
        with True apdu(1) more(1,2) put show ?thesis
          by (subst xfer_more.simps) (auto simp: Let_def)
      next
        case ok: True
        have "ends_in F (xfer_more env crd1 r sw1 w1) (\<lambda>(x, crd', w'). card_inv I slot crd' w' \<and> reply_ok sp x)"
          using "1.hyps" True apdu(1) more put ok by (auto simp: Let_def)
        with True apdu(1) more(1) put ok show ?thesis
          by (subst xfer_more.simps) (simp add: Let_def)
      qed
    qed (use True apdu(1) in \<open>subst xfer_more.simps, simp add: Let_def\<close>)+
  qed
qed

lemma keeps_card_xfer:
  assumes "card_inv I slot crd w" and "buf_ok apdu" and "length (contents apdu) < 2 ^ 16"
  shows "ends_in F (ifd_card_xfer env crd apdu w) (\<lambda>(x, crd', w'). card_inv I slot crd' w' \<and> reply_ok sp x)"
  unfolding ifd_card_xfer_def
  by (rule ends_bind [OF keeps_card_apdu [OF assms]]) (auto split: option.splits intro!: keeps_more)

lemma keeps_select_application:
  assumes "card_inv I slot crd w"
  shows "ends_in F (yubikey_select_application env crd piv_aid 5 w) (\<lambda>(ok, crd', w'). card_inv I slot crd' w')"
proof -
  obtain a where "ifd_build_apdu (junk env) 0 YKPIV_INS_SELECT_APPLICATION 4 0 (Some piv_aid) 5 = Inr (Some a)"
      "buf_ok a" "length (contents a) < 2 ^ 16"
    using build_apdu_ok [of 5 "Some piv_aid" "junk env" 0 YKPIV_INS_SELECT_APPLICATION 4 0]
    by (auto simp: piv_aid_def)
  then show ?thesis
    by (auto simp: yubikey_select_application_def split: option.splits intro!: ends_bind [OF keeps_card_xfer [OF assms]])
qed

lemma keeps_verify:
  assumes "card_inv I slot crd w" and "\<forall>p. pin = Some p \<longrightarrow> unat n \<le> length p"
  shows "ends_in F (yubikey_verify env crd pin n w) (\<lambda>(ok, tries, crd', w'). card_inv I slot crd' w')"
  unfolding yubikey_verify_def
  by (rule ends_bind [OF verify_apdu_within [OF assms(2)]])
    (auto simp: assms(1) split: option.splits intro!: ends_bind [OF keeps_card_xfer [OF assms(1)]])

lemma keeps_connect:
  assumes "card_inv I slot crd w"
  shows "ends_in F (yubikey_connect env crd w) (\<lambda>(ok, crd', w'). card_inv I slot crd' w')"
  unfolding yubikey_connect_def Let_def
  by (rule ends_bind [OF keeps_select_application [OF assms]]) (auto intro!: ends_bind [OF keeps_verify])

lemma keeps_driven:
  "card_inv I slot (fst s) (snd s) \<Longrightarrow> \<forall>a \<in> set as. buf_ok a \<and> length (contents a) < 2 ^ 16
    \<Longrightarrow> as \<noteq> [] \<or> (\<exists>b. prev = Some b \<and> resp_ok sp b)
    \<Longrightarrow> ends_in F (drive (xfer_pair env) as prev s)
          (\<lambda>(r, s'). card_inv I slot (fst s') (snd s') \<and> (\<forall>x. r = Some x \<longrightarrow> (\<exists>b. x = Some b \<and> resp_ok sp b)))"
proof (induction as arbitrary: prev s)
  case Nil
  then show ?case by simp
next
  case (Cons a as)
  have x: "ends_in F (xfer_pair env a s) (\<lambda>(x, crd', w'). card_inv I slot crd' w' \<and> reply_ok sp x)"
    unfolding xfer_pair_def using Cons.prems by (intro keeps_card_xfer) simp_all
  show ?case
    unfolding drive.simps
    by (rule ends_bind [OF x]) (use Cons in \<open>auto split: option.splits\<close>)
qed

lemma keeps_decipher:
  assumes "card_inv I slot crd w" and "buf_ok ct" and "10 \<le> sp"
  shows "ends_in F (yubikey_decipher env crd ct w)
    (\<lambda>(c, crd', w'). card_inv I slot crd' w' \<and> (\<forall>b. c = Some b \<longrightarrow> clear_ok b))"
proof (cases "decipher_algorithm (buffer_available ct)")
  case None
  have "(if opt_debug env > 1 then rbind (hexdump (buffer_read_pointer ct) (ucast (buffer_available ct)) 4)
      (\<lambda>_. Inr ()) else Inr ()) = Inr ()"
    using assms(2) by (rule cmd_dump_ok)
  with None assms(1) show ?thesis
    by (simp add: yubikey_decipher_def Let_def)
next
  case (Some alg)
  obtain as where as: "map contents as = decipher_apdus alg (key_slot crd) (decipher_args (contents ct))"
      "\<forall>a \<in> set as. buf_ok a \<and> length (contents a) < 2 ^ 16"
      and run: "yubikey_decipher env crd ct w
         = rbind (drive (xfer_pair env) as None (crd, w)) (\<lambda>(r, crd, w). decipher_finish r crd w)"
    using decipher_prepare [OF assms(2) Some, of crd env] by blast
  have "decipher_args (contents ct) \<noteq> []" by (simp add: decipher_args_def tlv_def)
  from apdus_nonempty [OF this, of alg "key_slot crd"] as(1) have "as \<noteq> []" by (cases as) simp_all
  then have "ends_in F (drive (xfer_pair env) as None (crd, w)) (\<lambda>(r, s').
      card_inv I slot (fst s') (snd s') \<and> (\<forall>x. r = Some x \<longrightarrow> (\<exists>b. x = Some b \<and> resp_ok sp b)))"
    using assms(1) by (intro keeps_driven [OF _ as(2)]) simp_all
  then show ?thesis
    unfolding run by (rule ends_bind) (auto intro!: ends_mono [OF finish_within] assms(3))
qed

lemma keeps_verify_pin:
  assumes "card_inv I slot crd w" and "Uninitialised \<in> F \<or> pin = None"
  shows "ends_in F (doit_verify card_drivers env crd pin w)
    (\<lambda>(bad, crd', w'). card_inv I slot crd' w' \<and> (\<forall>b. bad \<noteq> Some (Cleartext b)))"
proof (cases pin)
  case None
  with assms show ?thesis by (simp add: doit_verify_def)
next
  case (Some p)
  then have "Uninitialised \<in> F" using assms(2) by simp
  note unread = this
  have "unat (of_nat (length p) :: u64) \<le> length p"
    by (simp add: unat_of_nat)
  then have "ends_in F (yubikey_verify env crd (Some (c_bytes p)) (of_nat (length p)) w)
      (\<lambda>(ok, tries, crd', w'). card_inv I slot crd' w')"
    by (intro keeps_verify assms(1)) (simp add: c_bytes_def)
  then show ?thesis
    unfolding doit_verify_def Some option.case yubikey_dispatch
    by (rule ends_bind) (auto simp: unread split: option.splits)
qed

text \<open>Everything \<^verbatim>\<open>doit\<close> does once it has a reader.\<close>

lemma keeps_doit:
  assumes "slot = 0" and "ccid_reader_create env dev w0 = Inr (Some reader, w)" and "I reader w" and "buf_ok ct"
    and "Uninitialised \<in> F \<or> pin = None"
  shows "ends_in F (doit env card_drivers (yubikey_init []) dev pin ct opts w0)
    (\<lambda>(r, w'). (\<exists>reader'. I reader' w') \<and> (\<forall>b. r = Cleartext b \<longrightarrow> clear_ok b))"
proof -
  have 0: "ucast (0 :: u32) = slot" by (simp add: assms(1))
  have card: "ends_in F (rbind (ifd_card_connect card_drivers env crd w) (\<lambda>(ok, crd, w).
       if \<not> ok then Inr (Failure, w)
       else rbind (doit_verify card_drivers env crd pin w) (\<lambda>(bad, crd, w).
         case bad of Some r \<Rightarrow> Inr (r, w)
         | None \<Rightarrow> rbind (ifd_card_decipher card_drivers env crd ct w) (\<lambda>(r, crd, w).
             Inr (case r of None \<Rightarrow> Failure | Some cleartext \<Rightarrow> Cleartext cleartext, w)))))
    (\<lambda>(r, w'). (\<exists>reader'. I reader' w') \<and> (\<forall>b. r = Cleartext b \<longrightarrow> clear_ok b))"
    if "card_inv I slot crd w" "10 \<le> sp" for crd w
    unfolding yubikey_dispatch
    by (rule ends_bind [OF keeps_connect [OF that(1)]])
      (auto split: option.splits outcome.splits simp: assms(4) that(2)
        intro!: ends_bind [OF keeps_verify_pin [OF _ assms(5)]] ends_bind [OF keeps_decipher]; erule some_reader)
  show ?thesis
    unfolding doit_def assms(2) rbind_Inr prod.case option.case
    by (rule ends_bind [OF keeps_select_slot [OF assms(3) 0]])
      (auto split: option.splits intro!: ends_bind [OF keeps_identify [OF _ 0 yubikey_atrs_long]] card;
        (rule exI, assumption | erule (1) set_options_inv))
qed

end

end
