(* ===== verification/Any_Device.thy ===== *)
theory Any_Device
  imports Exchange_Invariant
begin

text \<open>
  Runs on a device that follows no specification. The instances of the locale \<open>exchange_invariant\<close>:
  what an exchange can do at all, and the sequence of packets that goes out. The properties are
  about \<^verbatim>\<open>doit\<close> as a whole: the only fault it can end in, when it returns, and the numbering of
  the commands.
\<close>

section \<open>Devices within bounds\<close>

text \<open>
  What is asked of the device: the counters of the parsed descriptors fit the arrays, which is
  checked nowhere in the code (\<open>excess_descriptors_overflow\<close>), and its CCID descriptors satisfy
  \<open>P\<close>. Nothing is asked of the packets the device sends, except by \<open>whole_packets\<close>: that a packet
  on an in endpoint does not announce more payload than it holds, where there is room for a
  header, as there is with a message length in the bounds of \<open>message_ok\<close>.
\<close>

definition counts_ok :: "(ccid_descriptor \<Rightarrow> bool) \<Rightarrow> uusb_dev \<Rightarrow> bool" where
  "counts_ok P dev \<longleftrightarrow> unat (num_configs dev) \<le> length (dev_config dev)
     \<and> (\<forall>cf \<in> set (dev_config dev). unat (num_interfaces cf) \<le> length (cf_interface cf)
         \<and> (\<forall>intf \<in> set (cf_interface cf). unat (num_endpoints intf) \<le> length (if_endpoint intf)
             \<and> (case if_ccid intf of None \<Rightarrow> True | Some c \<Rightarrow> P c)))"

definition message_ok :: "ccid_descriptor \<Rightarrow> bool" where
  "message_ok c \<longleftrightarrow> 9 \<le> dwMaxCCIDMessageLength c \<and> dwMaxCCIDMessageLength c \<le> 0xFFFFFFF8"

definition whole_packets :: "'w env \<Rightarrow> bool" where
  "whole_packets env \<longleftrightarrow> (\<forall>fd b w. case ioctl_bulk env fd b w of (rc, b', w') \<Rightarrow>
     0x80 \<le> bulk_ep b \<longrightarrow> 10 \<le> length (bulk_data b) \<longrightarrow> 0 \<le> rc \<longrightarrow> decode_packet (bulk_data b') \<noteq> None)"

definition bounded_env :: "fault set \<Rightarrow> 'w env \<Rightarrow> bool" where
  "bounded_env F env \<longleftrightarrow> usbfs_bulk env \<and> opt_debug env = 0 \<and> (Null_Deref \<in> F \<or> whole_packets env)"

text \<open>\<open>sp\<close> is what the packets of the reader hold behind the header.\<close>

definition bounded_reader :: "fault set \<Rightarrow> nat \<Rightarrow> ccid_reader \<Rightarrow> bool" where
  "bounded_reader F sp r \<longleftrightarrow> sp = round8 (unat (max_message_size r)) - 10
     \<and> (word_of_int (ep_i (rd_dev r)) :: u8) \<ge> 0x80
     \<and> (Null_Deref \<in> F \<or> 9 \<le> unat (max_message_size r) \<and> unat (max_message_size r) \<le> 0xFFFFFFF8)"

lemma bounded_same: "same_reader r r' \<Longrightarrow> bounded_reader F sp r \<Longrightarrow> bounded_reader F sp r'"
  by (simp add: bounded_reader_def same_readerD)

lemma round8_9: "9 \<le> n \<Longrightarrow> 10 \<le> round8 n"
  unfolding round8_def by presburger

text \<open>A packet is as long as the reader's buffers, or empty where their size is 2 ^ 32.\<close>

definition packet_ok :: "fault set \<Rightarrow> nat \<Rightarrow> buffer \<Rightarrow> bool" where
  "packet_ok F sp b \<longleftrightarrow> buf_ok b \<and> room b = 0
     \<and> (10 \<le> length (contents b) \<longrightarrow> length (contents b) = sp + 10 \<and> sp < 2 ^ 31)
     \<and> (Null_Deref \<in> F \<or> decode_packet (contents b) \<noteq> None)"

lemma recv_within:
  assumes "bounded_env F env" and "bounded_reader F sp r"
  shows "ends_in F (uusb_recv env (rd_dev r) (ucast (max_message_size r)) 10000 w)
    (\<lambda>(p, w'). \<forall>b. p = Some b \<longrightarrow> packet_ok F sp b)"
proof (cases "unat (max_message_size r) + 7 < 2 ^ 31")
  case False
  then have "2 ^ 31 \<le> unat (ucast (max_message_size r) :: u64) + 7"
      "unat (ucast (max_message_size r) :: u64) < 2 ^ 32"
    using unsigned_less [of "max_message_size r"] by simp_all
  from uusb_recv_huge [OF _ this, of env "rd_dev r" 10000 w] assms(1) obtain x w' where
      x: "uusb_recv env (rd_dev r) (ucast (max_message_size r)) 10000 w = Inr (x, w')"
        "\<forall>pkt. x = Some pkt \<longrightarrow> 2 ^ 32 < unat (max_message_size r) + 8 \<and> buf_ok pkt \<and> contents pkt = [] \<and> room pkt = 0"
    by (auto simp: bounded_env_def)
  moreover have "Null_Deref \<in> F" if "2 ^ 32 < unat (max_message_size r) + 8"
    using that assms(2) by (auto simp: bounded_reader_def)
  ultimately show ?thesis by (auto simp: packet_ok_def)
next
  case True
  let ?n = "unat (max_message_size r)"
  have usb: "usbfs_bulk env" and whole: "Null_Deref \<in> F \<or> whole_packets env"
    using assms(1) by (simp_all add: bounded_env_def)
  have n: "unat (ucast (max_message_size r) :: u64) + 7 < 2 ^ 31" "sp = round8 ?n - 10"
      "\<not> (word_of_int (ep_i (rd_dev r)) :: u8) < 0x80" "Null_Deref \<in> F \<or> 9 \<le> ?n"
    using True assms(2) by (auto simp: bounded_reader_def not_less)
  let ?in = "\<lparr>bulk_ep = ucast (word_of_int (ep_i (rd_dev r)) :: u8), bulk_len = of_nat (round8 ?n),
     bulk_timeout = ucast (10000 :: u64), bulk_data = replicate (round8 ?n) 0xAA\<rparr>"
  obtain rc b' w' where b: "ioctl_bulk env (dev_fd (rd_dev r)) ?in w = (rc, b', w')"
    by (cases "ioctl_bulk env (dev_fd (rd_dev r)) ?in w")
  show ?thesis
  proof (cases "rc < 0")
    case True
    with uusb_recv_eq [OF usb n(1), of "rd_dev r" 10000 w rc b' w'] b show ?thesis by simp
  next
    case False
    then obtain p where p: "uusb_recv env (rd_dev r) (ucast (max_message_size r)) 10000 w = Inr (Some p, w')"
        "buf_ok p" "contents p = bulk_data b'" "room p = 0"
      using uusb_recv_ok [OF usb n(1), of "rd_dev r" 10000 w rc b' w'] b by auto
    have len: "length (contents p) = round8 ?n" "round8 ?n < 2 ^ 31"
      using usbfs_bulkD(2) [OF usb b] round8_le [of ?n] n(1) by (simp_all add: p(3))
    have "decode_packet (bulk_data b') \<noteq> None" if "Null_Deref \<notin> F"
    proof -
      have "(0x80 :: u32) \<le> bulk_ep ?in"
        using n(3) by (simp add: word_less_nat_alt word_le_nat_alt)
      moreover have "10 \<le> length (bulk_data ?in)" "whole_packets env"
        using round8_9 [of ?n] that n(4) whole by simp_all
      ultimately show ?thesis
        using whole_packets_def [of env, THEN iffD1, rule_format, of ?in "dev_fd (rd_dev r)" w] b False by simp
    qed
    with p len n(2) show ?thesis by (auto simp: packet_ok_def)
  qed
qed

lemma xfer_loop_within:
  assumes "bounded_env F env" and "bounded_reader F sp r"
  shows "ends_in F (xfer_loop k env r cmd expected w) (\<lambda>(x, w'). response_ok sp x)"
proof (induction k arbitrary: w)
  case 0
  then show ?case by simp
next
  case (Suc k)
  from ends_cases [OF recv_within [OF assms, of w]]
  consider (fault) e where "e \<in> F" "uusb_recv env (rd_dev r) (ucast (max_message_size r)) 10000 w = Inl e"
    | (none) w1 where "uusb_recv env (rd_dev r) (ucast (max_message_size r)) 10000 w = Inr (None, w1)"
    | (got) b w1 where "uusb_recv env (rd_dev r) (ucast (max_message_size r)) 10000 w = Inr (Some b, w1)"
        "packet_ok F sp b"
    by (auto split: prod.splits) (metis option.exhaust)
  then show ?case
  proof cases
    case got
    then have b: "buf_ok b" "room b = 0" "10 \<le> length (contents b) \<longrightarrow> length (contents b) = sp + 10 \<and> sp < 2 ^ 31"
        "Null_Deref \<in> F \<or> decode_packet (contents b) \<noteq> None"
      by (simp_all add: packet_ok_def)
    have db: "opt_debug env \<le> 1" using assms(1) by (simp add: bounded_env_def)
    note step = xfer_loop_step [OF got(1) b(1), where cmd = cmd and expected = expected and k = k]
    show ?thesis
    proof (cases "classify (cmd_slot cmd) (cmd_seq cmd) expected (contents b)")
      case Truncated
      then have "decode_packet (contents b) = None"
        by (auto simp: classify_def split: option.splits if_splits)
      with b(4) step Truncated db show ?thesis by (simp del: xfer_loop.simps)
    next
      case (Accept ctl payload)
      then obtain q where q: "xfer_loop (Suc k) env r cmd expected w = Inr (Some q, w1)"
          "response_of (expected, cmd_slot cmd, cmd_seq cmd, ctl, payload) q"
          "room (resp_payload q) = room b + length (contents b) - 10 - length payload"
        using step by (auto simp del: xfer_loop.simps)
      obtain ty s sq where d: "decode_packet (contents b) = Some (ty, s, sq, ctl, payload)"
        using Accept unfolding classify_def
        by (cases "decode_packet (contents b)") (auto split: if_splits)
      then have "length ctl = 3" "length payload \<le> length (contents b) - 10" "10 \<le> length (contents b)"
        by (rule decoded_ctl) (use d in \<open>auto simp: decode_packet_def Let_def split: if_splits\<close>)
      with q b(2,3) show ?thesis
        by (auto simp: response_of_def resp_ok_def span_def simp del: xfer_loop.simps)
    next
      case Skip
      with step Suc.IH [of w1] show ?thesis by (simp del: xfer_loop.simps)
    next
      case Reject
      with step show ?thesis by (simp del: xfer_loop.simps)
    qed
  qed simp_all
qed

lemma send_within:
  assumes "bounded_env F env" and "buf_ok pkt" and "length (contents pkt) < 2 ^ 31"
  shows "ends_in F (uusb_send env dev pkt w) (\<lambda>_. True)"
proof -
  let ?o = "\<lparr>bulk_ep = ucast (word_of_int (ep_o dev) :: u8), bulk_len = buffer_available pkt,
     bulk_timeout = 10000, bulk_data = contents pkt\<rparr>"
  obtain rc b w' where "ioctl_bulk env (dev_fd dev) ?o w = (rc, b, w')"
    by (cases "ioctl_bulk env (dev_fd dev) ?o w")
  from uusb_send_ok [OF _ assms(2,3) this] assms(1) show ?thesis
    by (simp add: bounded_env_def)
qed

lemma ccid_xfer_within:
  assumes "bounded_env F env" and "bounded_reader F sp r" and "command_ok slot r cmd"
  shows "ends_in F (ccid_xfer env r cmd expected w) (\<lambda>(x, r', w'). bounded_reader F sp r' \<and> response_ok sp x)"
proof -
  let ?r = "r\<lparr>ccid_seq := ucast (cmd_seq cmd) + 1\<rparr>"
  have c: "buf_ok (cmd_pkt cmd)" "length (contents (cmd_pkt cmd)) < 2 ^ 31"
    using assms(3) by (simp_all add: command_ok_def)
  have r: "bounded_reader F sp ?r" by (rule bounded_same [OF same_reader_seq assms(2)])
  show ?thesis
    unfolding ccid_xfer_def cmd_dump_ok [OF c(1)] rbind_Inr Let_def
    by (rule ends_bind [OF send_within [OF assms(1) c]])
      (auto simp: r assms(2) split: prod.splits simp del: xfer_loop.simps
        intro!: ends_bind [OF xfer_loop_within [OF assms(1) r]])
qed

interpretation any: exchange_invariant env F "\<lambda>r w. bounded_env F env \<and> bounded_reader F sp r" slot sp
  for env :: "'w env" and F slot sp
proof unfold_locales
  fix r w c expected
  assume "bounded_env F env \<and> bounded_reader F sp r" and "command_ok slot r c"
  then show "ends_in F (ccid_xfer env r c expected w)
      (\<lambda>(x, r', w'). (bounded_env F env \<and> bounded_reader F sp r') \<and> response_ok sp x)"
    by (intro ends_mono [OF ccid_xfer_within [of F env sp r slot c]]) auto
qed (auto simp: bounded_reader_def)

section \<open>The wire\<close>

text \<open>The packets that have gone out since the reader was \<open>r0\<close> in the world \<open>w0\<close>, one exchange after
  the other.\<close>

inductive session ::
    "'w env \<Rightarrow> u8 \<Rightarrow> ccid_reader \<Rightarrow> 'w \<Rightarrow> bytes list \<Rightarrow> ccid_reader \<Rightarrow> 'w \<Rightarrow> bool"
  for env slot r0 w0 where
  session_start: "session env slot r0 w0 [] r0 w0"
| session_sent: "session env slot r0 w0 ps r w \<Longrightarrow> command_ok slot r c
    \<Longrightarrow> uusb_send env (rd_dev r) (cmd_pkt c) w = Inr (True, w1)
    \<Longrightarrow> ccid_xfer env r c expected w = Inr (x, r', w')
    \<Longrightarrow> session env slot r0 w0 (ps @ [contents (cmd_pkt c)]) r' w'"
| session_unsent: "session env slot r0 w0 ps r w \<Longrightarrow> command_ok slot r c
    \<Longrightarrow> uusb_send env (rd_dev r) (cmd_pkt c) w = Inr (False, w1)
    \<Longrightarrow> ccid_xfer env r c expected w = Inr (x, r', w')
    \<Longrightarrow> session env slot r0 w0 ps r' w'"
| session_slot: "session env slot r0 w0 ps r w \<Longrightarrow> session env slot r0 w0 ps (r\<lparr>current_slot := s\<rparr>) w"

lemma xfer_extends:
  assumes "session env slot r0 w0 ps r w" and "command_ok slot r c"
    and "ccid_xfer env r c expected w = Inr (x, r', w')"
  shows "\<exists>ps'. session env slot r0 w0 ps' r' w'"
proof -
  obtain s w1 where s: "uusb_send env (rd_dev r) (cmd_pkt c) w = Inr (s, w1)"
    using assms(3) unfolding ccid_xfer_def by (elim rbind_InrE) auto
  show ?thesis
    using session_sent [OF assms(1,2) _ assms(3)] session_unsent [OF assms(1,2) _ assms(3)] s by (cases s) auto
qed

interpretation wire: exchange_invariant env F
  "\<lambda>r w. (bounded_env F env \<and> bounded_reader F sp r) \<and> (\<exists>ps. session env slot r0 w0 ps r w)" slot sp
  for env :: "'w env" and F slot sp r0 w0
proof unfold_locales
  fix r w c expected
  assume I: "(bounded_env F env \<and> bounded_reader F sp r) \<and> (\<exists>ps. session env slot r0 w0 ps r w)" and c: "command_ok slot r c"
  from ends_cases [OF any.exchange [OF I [THEN conjunct1] c, of expected w]] I xfer_extends [OF _ c]
  show "ends_in F (ccid_xfer env r c expected w) (\<lambda>(x, r', w').
      ((bounded_env F env \<and> bounded_reader F sp r') \<and> (\<exists>ps. session env slot r0 w0 ps r' w')) \<and> response_ok sp x)"
    by fastforce
qed (auto simp: bounded_reader_def intro: session_slot)

text \<open>Number, slot and type of what goes out.\<close>

lemma next_number: "ucast (ucast (of_nat n :: u8) + 1 :: u32) = (of_nat (Suc n) :: u8)"
  by (simp add: word_unat_eq_iff unat_ucast_32_8 unat_word_ariths unat_of_nat take_bit_eq_mod mod_simps)

definition numbered :: "u8 \<Rightarrow> bytes list \<Rightarrow> bool" where
  "numbered slot ps \<longleftrightarrow> (\<forall>i < length ps. \<exists>ty ctl payload.
     decode_packet (ps ! i) = Some (ty, slot, of_nat i, ctl, payload)
     \<and> ty \<in> {CCID_CMD_GETSLOTSTAT, CCID_CMD_ICCPOWERON, CCID_CMD_XFRBLOCK})"

lemma session_numbered:
  assumes "session env slot r0 w0 ps r w" and "ccid_seq r0 = 0"
  shows "numbered slot ps \<and> ccid_seq r \<le> 256 \<and> ucast (ccid_seq r) = (of_nat (length ps) :: u8)
    \<and> r = r0\<lparr>ccid_seq := ccid_seq r, current_slot := current_slot r\<rparr>"
  using assms(1)
proof induction
  case session_start
  then show ?case using assms(2) by (simp add: numbered_def)
next
  case (session_sent ps r w c w1 expected x r' w')
  have q: "cmd_seq c = of_nat (length ps)" "buf_ok (cmd_pkt c)"
    using session_sent by (simp_all add: command_ok_def)
  have "r' = r\<lparr>ccid_seq := ucast (cmd_seq c) + 1\<rparr>"
    using session_sent.hyps(4) ccid_xfer_sent [OF q(2) session_sent.hyps(3), of expected]
    by (auto simp: rbind_eq_Inr simp del: xfer_loop.simps)
  moreover have "ucast (cmd_seq c) + 1 \<le> (256 :: u32)"
  proof -
    have "unat (ucast (cmd_seq c) + 1 :: u32) = unat (cmd_seq c) + 1"
      using unat_u8_lt [of "cmd_seq c"] by (subst unat_add_small) (simp_all del: unat_u8_lt)
    then show ?thesis using unat_u8_lt [of "cmd_seq c"] by (simp add: word_le_nat_alt del: unat_u8_lt)
  qed
  moreover have "numbered slot (ps @ [contents (cmd_pkt c)])"
    using session_sent.IH session_sent.hyps(2)
    by (auto simp: numbered_def nth_append command_ok_def less_Suc_eq split: option.splits)
  moreover obtain n s where "r = r0\<lparr>ccid_seq := n, current_slot := s\<rparr>"
    using session_sent.IH by blast
  ultimately show ?case
    by (simp add: q(1) next_number)
next
  case (session_unsent ps r w c w1 expected x r' w')
  have "buf_ok (cmd_pkt c)" using session_unsent.hyps(2) by (simp add: command_ok_def)
  then have "r' = r"
    using session_unsent.hyps(3,4) by (simp add: ccid_xfer_def cmd_dump_ok)
  with session_unsent.IH show ?case by simp
next
  case (session_slot ps r w s)
  moreover obtain n t where "r = r0\<lparr>ccid_seq := n, current_slot := t\<rparr>"
    using session_slot.IH by blast
  ultimately show ?case by simp
qed

section \<open>The reader is created within bounds\<close>

lemma select_in_config_within:
  "j + n \<le> length (cf_interface config)
    \<Longrightarrow> \<forall>intf \<in> set (cf_interface config). unat (num_endpoints intf) \<le> length (if_endpoint intf)
    \<Longrightarrow> ends_in F (select_in_config env config j n dev w) (\<lambda>(r, dev', w'). dev_config dev' = dev_config dev)"
proof (induction n arbitrary: j dev w)
  case 0
  then show ?case by simp
next
  case (Suc n)
  let ?i = "cf_interface config ! j"
  have j: "j < length (cf_interface config)" "unat (num_endpoints ?i) \<le> length (if_endpoint ?i)"
    using Suc.prems by simp_all
  obtain ok dev1 where s: "uusb_set_endpoints dev ?i = Inr (ok, dev1)"
    using set_endpoints_ok [OF j(2), of dev] by blast
  have "dev_config dev1 = dev_config dev"
    using set_endpoints_usable [OF s] by simp
  with j s Suc.IH [of "Suc j" dev] Suc.IH [of "Suc j" dev1] Suc.prems show ?case
    by (auto simp: arr_in split: option.splits prod.splits)
qed

lemma select_config_within:
  "i + n \<le> length (dev_config dev)
    \<Longrightarrow> \<forall>cf \<in> set (dev_config dev). unat (num_interfaces cf) \<le> length (cf_interface cf)
      \<and> (\<forall>intf \<in> set (cf_interface cf). unat (num_endpoints intf) \<le> length (if_endpoint intf))
    \<Longrightarrow> ends_in F (select_config env i n dev w) (\<lambda>_. True)"
proof (induction n arbitrary: i dev w)
  case 0
  then show ?case by simp
next
  case (Suc n)
  let ?c = "dev_config dev ! i"
  have i: "i < length (dev_config dev)" "?c \<in> set (dev_config dev)"
    using Suc.prems by simp_all
  have "ends_in F (select_in_config env ?c 0 (unat (num_interfaces ?c)) dev w)
      (\<lambda>(r, dev', w'). dev_config dev' = dev_config dev)"
    using Suc.prems(2) i(2) by (intro select_in_config_within) auto
  note sel = ends_bind [OF this]
  show ?case
    using Suc by (auto simp: arr_in i(1) split: option.splits intro!: sel)
qed

lemma last_address_in:
  "0 \<le> last_address P eps a \<Longrightarrow> last_address P eps a = a \<or> (\<exists>d \<in> set eps. P d \<and> last_address P eps a = int (unat (bEndpointAddress d)))"
proof (induction eps arbitrary: a)
  case Nil
  then show ?case by simp
next
  case (Cons d eps)
  then show ?case by (cases "P d") fastforce+
qed

lemma usable_ep_in:
  assumes "usable_interface intf dev"
  shows "(word_of_int (ep_i dev) :: u8) \<ge> 0x80"
proof -
  obtain d where d: "bulk_in d" "ep_i dev = int (unat (bEndpointAddress d))"
    using assms last_address_in [of bulk_in _ "- 1"]
    by (fastforce simp: usable_interface_def Let_def)
  have "bEndpointAddress d AND 0x80 \<le> bEndpointAddress d" by (rule word_and_le2)
  with d show ?thesis
    by (simp add: bulk_in_def UUSB_ENDPOINT_DIR_MASK_def UUSB_ENDPOINT_IN_def)
qed

lemma select_bounded:
  assumes "counts_ok P dev"
  shows "ends_in F (uusb_dev_select_ccid_interface env dev w) (\<lambda>(r, dev', w'). \<forall>c. r = Some c \<longrightarrow>
    P c \<and> (word_of_int (ep_i dev') :: u8) \<ge> 0x80)"
proof -
  have "ends_in F (uusb_dev_select_ccid_interface env dev w) (\<lambda>_. True)"
    unfolding uusb_dev_select_ccid_interface_def
    using assms by (intro select_config_within) (auto simp: counts_ok_def)
  moreover have "P c \<and> (word_of_int (ep_i dev') :: u8) \<ge> 0x80"
    if "uusb_dev_select_ccid_interface env dev w = Inr (Some c, dev', w')" for c dev' w'
  proof -
    from select_config_sound [OF that [unfolded uusb_dev_select_ccid_interface_def]] obtain k j where
        kj: "k < length (dev_config dev)" "j < length (cf_interface (dev_config dev ! k))"
        "if_ccid (cf_interface (dev_config dev ! k) ! j) = Some c"
        "usable_interface (cf_interface (dev_config dev ! k) ! j) dev'"
      by auto
    then have "dev_config dev ! k \<in> set (dev_config dev)"
        "cf_interface (dev_config dev ! k) ! j \<in> set (cf_interface (dev_config dev ! k))"
      by simp_all
    with assms kj(3) have "P c" unfolding counts_ok_def by (force split: option.splits)
    with usable_ep_in [OF kj(4)] show ?thesis by simp
  qed
  ultimately show ?thesis
    by (cases "uusb_dev_select_ccid_interface env dev w") (auto split: prod.splits)
qed

lemma create_within:
  assumes "counts_ok P dev" and "opt_debug env = 0" and "Null_Deref \<in> F \<or> (\<forall>c. P c \<longrightarrow> message_ok c)"
  shows "ends_in F (ccid_reader_create env dev w) (\<lambda>(r, w'). \<forall>x. r = Some x \<longrightarrow> (\<exists>sp. bounded_reader F sp x))"
proof -
  have feat: "ends_in F (ccid_reader_set_features env r c) (\<lambda>(ok, r'). rd_dev r' = rd_dev r)" for r c
    using assms(2) by (auto simp: ccid_reader_set_features_def Let_def)
  show ?thesis
    unfolding ccid_reader_create_def Let_def
    by (rule ends_bind [OF select_bounded [OF assms(1)]])
      (use assms(3) in \<open>auto simp: bounded_reader_def message_ok_def word_le_nat_alt split: option.splits
         intro!: ends_bind [OF feat]\<close>)
qed

lemma doit_within:
  assumes "bounded_env F env" and "counts_ok P dev" and "buf_ok ct"
    and "Null_Deref \<in> F \<or> (\<forall>c. P c \<longrightarrow> message_ok c)" and "Uninitialised \<in> F \<or> pin = None"
  shows "ends_in F (doit env card_drivers (yubikey_init []) dev pin ct opts w)
    (\<lambda>(r, w'). \<forall>b. r = Cleartext b \<longrightarrow> clear_ok b)"
proof -
  have db: "opt_debug env = 0" using assms(1) by (simp add: bounded_env_def)
  from ends_cases [OF create_within [OF assms(2) db assms(4), of w]]
  consider (fault) e where "e \<in> F" "ccid_reader_create env dev w = Inl e"
    | (none) w1 where "ccid_reader_create env dev w = Inr (None, w1)"
    | (reader) reader w1 sp where "ccid_reader_create env dev w = Inr (Some reader, w1)" "bounded_reader F sp reader"
    by (auto split: prod.splits) (metis option.exhaust)
  then show ?thesis
  proof cases
    case reader
    from any.keeps_doit [OF refl reader(1) _ assms(3,5)] assms(1) reader(2) show ?thesis
      by (fastforce intro: ends_mono)
  qed (simp_all add: doit_def)
qed

section \<open>Properties\<close>

text \<open>C8: Whatever the device answers, whatever message length it announces and whatever the PIN, the
  well-formed ciphertext and the options are, with debugging off and bulk transfers as usbfs
  documents them: a run of doit on a device whose counters fit its arrays makes no access out of
  bounds and ends. It can end in two faults only: the null pointer ccid_xfer dereferences after
  a truncated packet, and, where a PIN is given, the read of retries_left, which nothing was
  stored to. A buffer it returns is well-formed.\<close>

theorem doit_contained:
  assumes "usbfs_bulk env" and "opt_debug env = 0" and "counts_ok (\<lambda>_. True) dev" and "buf_ok ct"
  shows "case doit env card_drivers (yubikey_init []) dev pin ct opts w of
      Inl e \<Rightarrow> e = Null_Deref \<or> e = Uninitialised \<and> (\<exists>p. pin = Some p)
    | Inr (r, w') \<Rightarrow> (case r of Cleartext b \<Rightarrow> buf_ok b | _ \<Rightarrow> True)"
proof -
  let ?F = "{Null_Deref} \<union> (if pin = None then {} else {Uninitialised})"
  have "bounded_env ?F env" using assms(1,2) by (simp add: bounded_env_def)
  from doit_within [OF this assms(3,4), of pin opts w] show ?thesis
    by (cases pin) (auto simp: ends_in_def clear_ok_def split: sum.splits prod.splits outcome.splits)
qed

text \<open>C9: If moreover the device announces messages of 9 to 2 ^ 32 - 8 bytes, and no packet of it
  announces more payload than it holds, doit returns with an outcome and without any fault when
  no PIN is given; when one is given, the read of retries_left is the only fault left.\<close>

theorem doit_returns:
  assumes "usbfs_bulk env" and "opt_debug env = 0" and "counts_ok message_ok dev" and "buf_ok ct" and "whole_packets env"
  shows "(\<exists>r w'. doit env card_drivers (yubikey_init []) dev pin ct opts w = Inr (r, w'))
    \<or> (\<exists>p. pin = Some p) \<and> doit env card_drivers (yubikey_init []) dev pin ct opts w = Inl Uninitialised"
proof -
  let ?F = "if pin = None then {} else {Uninitialised}"
  have "bounded_env ?F env" using assms(1,2,5) by (simp add: bounded_env_def)
  from ends_cases [OF doit_within [OF this assms(3,4), of pin opts w]] show ?thesis
    by (cases pin) auto
qed

text \<open>C10: In a run of doit that returns (on any device whose counters fit its arrays, with debugging
  off, a well-formed ciphertext and bulk transfers as usbfs documents them), everything that
  happens after the creation of the reader is a sequence of exchanges. What they send is a
  sequence of well-formed packets of the three types of the program for slot 0, in which packet
  number i carries the sequence number i modulo 256.\<close>

theorem doit_numbers_commands:
  assumes "usbfs_bulk env" and "opt_debug env = 0" and "counts_ok (\<lambda>_. True) dev" and "buf_ok ct"
    and "ccid_reader_create env dev w = Inr (Some reader, w0)"
    and "doit env card_drivers (yubikey_init []) dev pin ct opts w = Inr (r, w')"
  shows "\<exists>ps reader'. session env 0 reader w0 ps reader' w' \<and> numbered 0 ps"
proof -
  let ?F = "{Null_Deref, Uninitialised}"
  have env: "bounded_env ?F env" using assms(1,2) by (simp add: bounded_env_def)
  obtain sp where "bounded_reader ?F sp reader"
    using create_within [OF assms(3,2), of ?F w] by (auto simp: assms(5))
  moreover have "session env 0 reader w0 [] reader w0" by (rule session_start)
  ultimately have "(bounded_env ?F env \<and> bounded_reader ?F sp reader) \<and> (\<exists>ps. session env 0 reader w0 ps reader w0)"
    using env by blast
  from wire.keeps_doit [OF refl assms(5) this assms(4), of pin opts] assms(6)
  obtain ps reader' where s: "session env 0 reader w0 ps reader' w'" by auto
  from session_numbered [OF s] reader_create_init [OF assms(5)] s show ?thesis by blast
qed

text \<open>Two devices: one never has anything to say, the other answers everything with zeros.\<close>

definition silent_env :: "(bytes \<times> nat) env" where
  "silent_env = token_world (\<lambda>t pkt. ([], t))"

definition zero_bulk :: "int \<Rightarrow> bulktransfer \<Rightarrow> 'w \<Rightarrow> int \<times> bulktransfer \<times> 'w" where
  "zero_bulk fd b w = (0, b\<lparr>bulk_data := replicate (length (bulk_data b)) 0\<rparr>, w)"

definition zero_env :: "(bytes \<times> nat) env" where
  "zero_env = silent_env\<lparr>ioctl_bulk := zero_bulk\<rparr>"

lemma silent_bounded: "usbfs_bulk silent_env" "opt_debug silent_env = 0"
  by (simp_all add: silent_env_def token_world_usbfs)

lemma zero_bulk_whole:
  assumes "ioctl_bulk env = zero_bulk"
  shows "usbfs_bulk env" and "whole_packets env"
proof -
  show "usbfs_bulk env"
    using assms by (simp add: zero_bulk_def usbfs_bulk_def)
  have "le_word (replicate n 0) = (0 :: u32)" for n
    by (induction n) simp_all
  then show "whole_packets env"
    using assms by (auto simp: whole_packets_def zero_bulk_def decode_packet_def)
qed

lemma zero_bounded: "usbfs_bulk zero_env" "opt_debug zero_env = 0" "whole_packets zero_env"
  by (simp_all add: zero_bulk_whole zero_env_def silent_env_def)

lemma demo_counts: "counts_ok (\<lambda>_. True) demo_dev" "counts_ok message_ok demo_dev"
  by code_simp+

lemma demo_ct_ok: "buf_ok demo_ct"
  by (simp add: demo_ct_def buffer_init_read_ok)

theorem doit_contained_witness:
  "case doit silent_env card_drivers (yubikey_init []) demo_dev None demo_ct [] ([], 0) of
      Inl e \<Rightarrow> e = Null_Deref \<or> e = Uninitialised \<and> (\<exists>p :: string. None = Some p)
    | Inr (r, w') \<Rightarrow> (case r of Cleartext b \<Rightarrow> buf_ok b | _ \<Rightarrow> True)"
  by (rule doit_contained [OF silent_bounded demo_counts(1) demo_ct_ok])

theorem doit_returns_witness:
  "\<exists>r w'. doit zero_env card_drivers (yubikey_init []) demo_dev None demo_ct [] ([], 0) = Inr (r, w')"
  using doit_returns [OF zero_bounded(1,2) demo_counts(2) demo_ct_ok zero_bounded(3), of None] by simp

lemma zero_reader:
  "\<exists>r. ccid_reader_create zero_env demo_dev ([], 0) = Inr (Some r, ([], 0))"
proof -
  have "(case ccid_reader_create zero_env demo_dev ([], 0) of Inl e \<Rightarrow> False
    | Inr (r, w) \<Rightarrow> w = ([], 0) \<and> r \<noteq> None)"
    by code_simp
  then show ?thesis by (auto split: sum.splits prod.splits option.splits)
qed

lemma zero_run:
  "\<exists>r w'. doit zero_env card_drivers (yubikey_init []) demo_dev None demo_ct [] ([], 0) = Inr (r, w')"
proof -
  have "bounded_env {} zero_env" using zero_bounded by (simp add: bounded_env_def)
  from ends_cases [OF doit_within [OF this demo_counts(2) demo_ct_ok, of None "[]" "([], 0)"]]
  show ?thesis by auto
qed

theorem doit_numbers_commands_witness:
  "\<exists>reader w0 ps reader' r w'. ccid_reader_create zero_env demo_dev ([], 0) = Inr (Some reader, w0)
     \<and> doit zero_env card_drivers (yubikey_init []) demo_dev None demo_ct [] ([], 0) = Inr (r, w')
     \<and> session zero_env 0 reader w0 ps reader' w' \<and> numbered 0 ps"
proof -
  obtain reader r w' where x: "ccid_reader_create zero_env demo_dev ([], 0) = Inr (Some reader, ([], 0))"
      "doit zero_env card_drivers (yubikey_init []) demo_dev None demo_ct [] ([], 0) = Inr (r, w')"
    using zero_reader zero_run by blast
  from doit_numbers_commands [OF zero_bounded(1,2) demo_counts(1) demo_ct_ok x] x show ?thesis by blast
qed

end
