(* ===== verification/End_To_End.thy ===== *)
theory End_To_End
  imports Main_Program
begin

text \<open>
  The program as a whole: \<^verbatim>\<open>main\<close> from the command line and the file with the ciphertext to the
  bytes on the output. The second part is a closed world in which the hypotheses hold: a file, a
  sysfs tree with one device, a token, a terminal.
\<close>

section \<open>The program as a whole\<close>

text \<open>
  A device that serves one decryption: a CCID token with a card of a known ATR, which selects the
  application, accepts the PIN if there is one, and answers the chained commands for the
  ciphertext \<open>ct\<close> with a block that holds \<open>m\<close>. \<open>st\<close> is the state of the token in a state of the
  world, \<open>c'\<close> the one the session ends in.
\<close>

definition serves ::
    "'w env \<Rightarrow> uusb_dev \<Rightarrow> 'w \<Rightarrow> string option \<Rightarrow> bytes \<Rightarrow> string list \<Rightarrow> ('w \<Rightarrow> 'c) \<Rightarrow> bytes \<Rightarrow> 'c \<Rightarrow> bool" where
  "serves env dev w pin ct opts st m c' \<longleftrightarrow>
     (\<exists>reader w0 tok atr rst step c key d1 c1 d2 sw2 c2 d3 c3 alg padding.
        ccid_reader_create env dev w = Inr (Some reader, w0)
      \<and> reader_link tok atr rst step st env reader w0 c
      \<and> 12 + length atr \<le> round8 (unat (max_message_size reader)) \<and> known_atr atr
      \<and> (auto_voltage reader \<or> supported_voltages reader AND 7 \<noteq> 0)
      \<and> (\<forall>crd. key_slot crd = 0 \<longrightarrow>
           (\<exists>crd1. set_options (card_drivers :: 'w drivers) crd opts = Some crd1 \<and> key_slot crd1 = key))
      \<and> card_answers step (capacity reader) (rst c) (select_apdu piv_aid) d1 0x9000 c1
      \<and> card_answers step (capacity reader) c1 (pin_apdu None) d2 sw2 c2
      \<and> (case pin of None \<Rightarrow> c3 = c2
         | Some p \<Rightarrow> length p \<le> 8
             \<and> card_answers step (capacity reader) c2 (pin_apdu (Some (c_bytes p))) d3 0x9000 c3)
      \<and> decipher_algorithm (of_nat (length ct)) = Some alg
      \<and> accepts (card_answers step (capacity reader)) c3
           (decipher_apdus alg (if key = 0 then 0x9e else key) (decipher_args ct))
           (decipher_response (pkcs1_block padding m)) c'
      \<and> 0 \<notin> set padding \<and> length padding + length m < 64000)"

lemma servesI:
  fixes env :: "'w env"
  assumes "ccid_reader_create env dev w = Inr (Some reader, w0)"
    and "reader_link tok atr rst step st env reader w0 c"
    and "12 + length atr \<le> round8 (unat (max_message_size reader))"
    and "known_atr atr"
    and "(auto_voltage reader \<or> supported_voltages reader AND 7 \<noteq> 0)"
    and "(\<forall>crd. key_slot crd = 0 \<longrightarrow>
           (\<exists>crd1. set_options (card_drivers :: 'w drivers) crd opts = Some crd1 \<and> key_slot crd1 = key))"
    and "card_answers step (capacity reader) (rst c) (select_apdu piv_aid) d1 0x9000 c1"
    and "card_answers step (capacity reader) c1 (pin_apdu None) d2 sw2 c2"
    and "(case pin of None \<Rightarrow> c3 = c2
         | Some p \<Rightarrow> length p \<le> 8
             \<and> card_answers step (capacity reader) c2 (pin_apdu (Some (c_bytes p))) d3 0x9000 c3)"
    and "decipher_algorithm (of_nat (length ct)) = Some alg"
    and "accepts (card_answers step (capacity reader)) c3
           (decipher_apdus alg (if key = 0 then 0x9e else key) (decipher_args ct))
           (decipher_response (pkcs1_block padding m)) c'"
    and "0 \<notin> set padding"
    and "length padding + length m < 64000"
  shows "serves env dev w pin ct opts st m c'"
  unfolding serves_def by (intro exI conjI) (rule assms)+

lemma serves_doit:
  fixes env :: "'w env"
  assumes "serves env dev w pin (contents b) opts st m c'" and "buf_ok b"
  shows "\<exists>r w'. doit env card_drivers (yubikey_init []) dev pin b opts w = Inr (Cleartext r, w')
    \<and> buf_ok r \<and> contents r = m \<and> length m < 64000 \<and> st w' = c'"
proof -
  have n: "of_nat (length (contents b)) = buffer_available b"
    by (metis assms(2) of_nat_unat ucast_id unat_available)
  show ?thesis
    using assms(1) unfolding serves_def n
    by (elim exE conjE) (drule doit_ok [where ct = b]; (assumption | rule assms(2))?; auto)
qed

text \<open>C2: The program as a whole: if the named file holds the ciphertext and one read delivers it, the
  device of the given type is found and opened, it serves the decryption (the hypotheses of
  doit_decrypts), and the output takes at least one byte of every write, then main ends with
  status 0, exactly the message has been appended to the output, and the card is in the state
  its last command left.\<close>

theorem main_decrypts:
  fixes env :: "'w env"
  assumes "main_options events settings_init = Inr s" and "env' = env\<lparr>opt_debug := debug_level s\<rparr>"
    and "open_stream env' (Some file) O_RDONLY 0 w = Inr (fd, w1)"
    and "sys_fstat env' fd w1 = Some (of_nat (length ct))"
    and "sys_read env' fd (length ct) w1 = (Some ct, w2)" and "length ct < 2 ^ 31 - 8"
    and "open_type env' (opt_type s) (close_stream env' (Some file) fd w2) = Inr (Some dev, w3)"
    and "serves env' dev w3 (opt_pin s) ct (cardopts s) st m c'"
    and "\<forall>w. \<exists>w'. open_stream env' (opt_output s) O_WRONLY_CREAT_TRUNC 1 w = Inr (ofd, w')"
    and "accepts_writes env' ofd out" and "length m < fuel env"
  shows "\<exists>w4 w5 w6. main env events [file] w = Inr (0, close_stream env' (opt_output s) ofd w6)
    \<and> st w4 = c' \<and> open_stream env' (opt_output s) O_WRONLY_CREAT_TRUNC 1 w4 = Inr (ofd, w5)
    \<and> out w6 = out w5 @ m"
proof -
  obtain b where b: "buffer_read_file env' (Some file) w = Inr (b, close_stream env' (Some file) fd w2)"
      "buf_ok b" "contents b = ct"
    using read_file_ok [OF assms(3-6)] by blast
  obtain r w4 where r: "doit env' card_drivers (yubikey_init []) dev (opt_pin s) b (cardopts s) w3
      = Inr (Cleartext r, w4)" "buf_ok r" "contents r = m" "length m < 64000" "st w4 = c'"
    using serves_doit [OF _ b(2), unfolded b(3), OF assms(8)] by blast
  obtain w5 where w5: "open_stream env' (opt_output s) O_WRONLY_CREAT_TRUNC 1 w4 = Inr (ofd, w5)"
    using assms(9) by blast
  have "length (contents r) < 2 ^ 31" "length (contents r) < fuel env'"
    using r(3,4) assms(2,11) by simp_all
  from write_file_ok [OF w5 assms(10) r(2) this] obtain b' w6 where
      "buffer_write_file env' (opt_output s) r w4 = Inr (True, b', close_stream env' (opt_output s) ofd w6)"
      "out w6 = out w5 @ m"
    using r(3) by auto
  moreover have "main env events [file] w = main_run env' s (Some file) w"
    by (simp add: main_def assms(1,2))
  ultimately show ?thesis
    using b(1) assms(7) r(1,5) w5 by (auto simp: main_run_def)
qed

section \<open>A world for the program\<close>

text \<open>
  A desk: the file \<^verbatim>\<open>secret\<close> with a ciphertext, one device in sysfs with the descriptors of a
  YubiKey 5, the card of \<open>demo_card\<close> in it, and a terminal that collects what is written.
\<close>

definition with_output :: "(nat \<Rightarrow> bytes \<Rightarrow> bytes \<times> nat) \<Rightarrow> nat \<times> bytes \<Rightarrow> bytes \<Rightarrow> bytes \<times> nat \<times> bytes" where
  "with_output step s apdu = (case s of (c, out) \<Rightarrow> (case step c apdu of (r, c') \<Rightarrow> (r, (c', out))))"

definition desk_token :: "nat \<times> bytes \<Rightarrow> bytes \<Rightarrow> bytes \<times> nat \<times> bytes" where
  "desk_token = ideal_token demo_atr (\<lambda>(c, out). (0, out)) (with_output demo_card)"

definition desk_file :: "string \<Rightarrow> string" where
  "desk_file name = sysfs_path ''/sys/bus/usb/devices/1-1'' name"

definition desk_open :: "string \<Rightarrow> open_mode \<Rightarrow> 'w \<Rightarrow> int \<times> 'w" where
  "desk_open path mode w = (if path = ''secret'' then 5 else if path = desk_file ''descriptors'' then 4
     else if path = ''/dev/bus/usb/001/007'' then 3 else - 1, w)"

definition desk_fstat :: "int \<Rightarrow> 'w \<Rightarrow> u64 option" where
  "desk_fstat fd w = (if fd = 5 then Some 256 else if fd = 4 then Some (of_nat (length yk5_bytes)) else None)"

definition desk_stat :: "string \<Rightarrow> 'w \<Rightarrow> (bool \<times> u64) option" where
  "desk_stat path w = (if path = ''/dev/bus/usb/001/007'' then Some (True, makedev 189 6) else None)"

definition desk_read :: "int \<Rightarrow> nat \<Rightarrow> 'w \<Rightarrow> bytes option \<times> 'w" where
  "desk_read fd n w = (if fd = 5 then Some (take n (replicate 256 0x55))
     else if fd = 4 then Some (take n yk5_bytes) else None, w)"

definition desk_write :: "int \<Rightarrow> bytes \<Rightarrow> bytes \<times> nat \<times> bytes \<Rightarrow> int \<times> bytes \<times> nat \<times> bytes" where
  "desk_write fd bs w = (case w of (p, c, out) \<Rightarrow> (int (length bs), (p, c, out @ bs)))"

definition desk_readdir :: "string \<Rightarrow> 'w \<Rightarrow> string list option" where
  "desk_readdir path w = Some [''.'', ''..'', ''1-1'']"

definition desk_text :: "string \<Rightarrow> 'w \<Rightarrow> string option" where
  "desk_text path w = (if path = desk_file ''idVendor'' then Some ''1050''
     else if path = desk_file ''idProduct'' then Some ''0407''
     else if path = desk_file ''busnum'' then Some ''1''
     else if path = desk_file ''devnum'' then Some ''7''
     else if path = desk_file ''dev'' then Some ''189:6'' else None)"

definition desk_env :: "(bytes \<times> nat \<times> bytes) env" where
  "desk_env = (token_world desk_token)\<lparr>sys_open := desk_open, sys_fstat := desk_fstat, sys_stat := desk_stat,
     sys_read := desk_read, sys_write := desk_write, sys_readdir := desk_readdir, sys_text := desk_text\<rparr>"

lemmas strtoul_defs = strtoul_def strtoul_base_def isspace_def is_digit_def digit_value_def char_code_def

lemma desk_sel [simp]:
  "opt_debug desk_env = 0" "junk desk_env = (\<lambda>_. 0)" "fuel desk_env = 100"
  "sys_open desk_env = desk_open" "sys_fstat desk_env = desk_fstat" "sys_stat desk_env = desk_stat"
  "sys_read desk_env = desk_read" "sys_write desk_env = desk_write" "sys_readdir desk_env = desk_readdir"
  "sys_text desk_env = desk_text" "ioctl_bulk desk_env = token_bulk desk_token"
  "sys_close desk_env = (\<lambda>_ w. w)"
  by (simp_all add: desk_env_def token_world_def)

lemma desk_dir: "sysfs_path SYSFS_USB_DEVICES ''1-1'' = ''/sys/bus/usb/devices/1-1''"
  by code_simp

lemma desk_files:
  "desk_file ''idVendor'' = ''/sys/bus/usb/devices/1-1/idVendor''"
  "desk_file ''idProduct'' = ''/sys/bus/usb/devices/1-1/idProduct''"
  "desk_file ''busnum'' = ''/sys/bus/usb/devices/1-1/busnum''"
  "desk_file ''devnum'' = ''/sys/bus/usb/devices/1-1/devnum''"
  "desk_file ''dev'' = ''/sys/bus/usb/devices/1-1/dev''"
  "desk_file ''descriptors'' = ''/sys/bus/usb/devices/1-1/descriptors''"
  by (simp_all add: desk_file_def sysfs_path_def PATH_MAX_def)

lemma desk_lines:
  "sysfs_read_line desk_env ''/sys/bus/usb/devices/1-1'' ''idVendor'' w = Some ''1050''"
  "sysfs_read_line desk_env ''/sys/bus/usb/devices/1-1'' ''idProduct'' w = Some ''0407''"
  "sysfs_read_line desk_env ''/sys/bus/usb/devices/1-1'' ''busnum'' w = Some ''1''"
  "sysfs_read_line desk_env ''/sys/bus/usb/devices/1-1'' ''devnum'' w = Some ''7''"
  "sysfs_read_line desk_env ''/sys/bus/usb/devices/1-1'' ''dev'' w = Some ''189:6''"
  by (simp_all add: sysfs_read_line_def desk_text_def desk_files char_code_def flip: desk_file_def)

lemma not_max: "\<not> (0xFFFFFFFF :: u64) \<le> 1"
  by (simp add: word_le_nat_alt)

lemma desk_numbers:
  "sysfs_read_hexadecimal desk_env ''/sys/bus/usb/devices/1-1'' ''idVendor'' w = 0x1050"
  "sysfs_read_hexadecimal desk_env ''/sys/bus/usb/devices/1-1'' ''idProduct'' w = 0x0407"
  "sysfs_read_decimal desk_env ''/sys/bus/usb/devices/1-1'' ''busnum'' w = 1"
  "sysfs_read_decimal desk_env ''/sys/bus/usb/devices/1-1'' ''devnum'' w = 7"
  "sysfs_get_dev_t desk_env ''/sys/bus/usb/devices/1-1'' ''dev'' w = Some (makedev 189 6)"
  by (simp_all add: sysfs_read_hexadecimal_def sysfs_read_decimal_def sysfs_get_dev_t_def
      sysfs_read_integer_base_def desk_lines strtoul_defs not_max)

lemma desk_type: "usb_parse_type ''1050:0407'' = (True, \<lparr>idVendor = 0x1050, idProduct = 0x407\<rparr>)"
  by (simp add: usb_parse_type_def strtoul_defs Let_def)

lemma desk_found:
  "usb_find_device desk_env (usb_match_type desk_env w \<lparr>idVendor = 0x1050, idProduct = 0x407\<rparr>) w'
     = Some ''/sys/bus/usb/devices/1-1''"
  by (simp add: usb_find_device_def desk_readdir_def usb_match_type_def desk_dir desk_numbers Let_def)

lemma desk_node: "dev_node \<lparr>bus = 1, dev_num = 7\<rparr> = ''/dev/bus/usb/001/007''"
  by code_simp

lemma desk_attach:
  "uusb_attach_device desk_env (dev_zero\<lparr>sysfs_dir := ''/sys/bus/usb/devices/1-1'', dev_fd := - 1\<rparr>) w
     = (True, dev_zero\<lparr>sysfs_dir := ''/sys/bus/usb/devices/1-1'', dev_fd := - 1,
          devaddr := \<lparr>bus = 1, dev_num = 7\<rparr>, dev_path := Some ''/dev/bus/usb/001/007''\<rparr>)"
  by (simp add: uusb_attach_device_def desk_numbers desk_node desk_stat_def Let_def)

definition desk_attached :: uusb_dev where
  "desk_attached = dev_zero\<lparr>sysfs_dir := ''/sys/bus/usb/devices/1-1'', dev_fd := - 1,
     devaddr := \<lparr>bus = 1, dev_num = 7\<rparr>, dev_path := Some ''/dev/bus/usb/001/007'',
     dev_type := \<lparr>idVendor = 0x1050, idProduct = 0x0407\<rparr>\<rparr>"

definition desk_dev :: uusb_dev where
  "desk_dev = (case uusb_parse_descriptors 100 desk_attached yk5_bytes (of_nat (length yk5_bytes)) of
     Inl _ \<Rightarrow> dev_zero | Inr (_, dev) \<Rightarrow> dev\<lparr>dev_fd := 3\<rparr>)"

lemma desk_parsed:
  "\<exists>dev. uusb_parse_descriptors 100 desk_attached yk5_bytes (of_nat (length yk5_bytes)) = Inr (True, dev)
     \<and> dev_path dev = Some ''/dev/bus/usb/001/007''"
proof -
  have "case uusb_parse_descriptors 100 desk_attached yk5_bytes (of_nat (length yk5_bytes)) of
      Inl _ \<Rightarrow> False | Inr (ok, dev) \<Rightarrow> ok \<and> dev_path dev = Some ''/dev/bus/usb/001/007''"
    by code_simp
  then show ?thesis by (auto split: sum.splits)
qed

lemma desk_descriptors:
  "sysfs_read_buffer desk_env ''/sys/bus/usb/devices/1-1'' ''descriptors'' w
     = Inr (Some (yk5_bytes, of_nat (length yk5_bytes)), w)"
proof -
  have len: "length yk5_bytes = 168" by code_simp
  have path: "sysfs_path ''/sys/bus/usb/devices/1-1'' ''descriptors'' = desk_file ''descriptors''"
    by (simp add: desk_file_def)
  have "yk5_bytes \<noteq> []" using len by auto
  then have loop: "sysfs_read_loop (Suc (Suc n)) desk_env 4 168 (malloc_block (\<lambda>_. 0) 168) 0 w
      = Inr (Some (yk5_bytes, 168), w)" for n
    using scast_of_nat [of 168] by (simp add: desk_read_def len mem_write_in)
  have "Suc (Suc 98) = 100" by simp
  with loop [of 98] have "sysfs_read_loop 100 desk_env 4 168 (malloc_block (\<lambda>_. 0) 168) 0 w
      = Inr (Some (yk5_bytes, 168), w)"
    by (simp del: sysfs_read_loop.simps)
  then show ?thesis
    using scast_of_nat [of 168]
    by (simp add: sysfs_read_buffer_def path desk_open_def desk_fstat_def len del: sysfs_read_loop.simps)
      (simp add: desk_files)
qed

lemma desk_usb_open: "usb_open desk_env ''/sys/bus/usb/devices/1-1'' w = Inr (Some desk_dev, w)"
proof -
  obtain dev where d: "uusb_parse_descriptors 100 desk_attached yk5_bytes (of_nat (length yk5_bytes)) = Inr (True, dev)"
      "dev_path dev = Some ''/dev/bus/usb/001/007''"
    using desk_parsed by blast
  have i: "uusb_identify_device desk_env (dev_zero\<lparr>sysfs_dir := ''/sys/bus/usb/devices/1-1'', dev_fd := - 1,
          devaddr := \<lparr>bus = 1, dev_num = 7\<rparr>, dev_path := Some ''/dev/bus/usb/001/007''\<rparr>) w = (True, desk_attached)"
    by (simp add: uusb_identify_device_def desk_numbers desk_attached_def)
  have o: "desk_open ''/dev/bus/usb/001/007'' O_RDWR w = (3, w)"
    by (simp add: desk_open_def desk_files)
  have "sysfs_dir desk_attached = ''/sys/bus/usb/devices/1-1''" by (simp add: desk_attached_def)
  then have p: "uusb_process_descriptors desk_env desk_attached w = Inr (True, dev, w)"
    by (simp add: uusb_process_descriptors_def desk_descriptors d(1))
  show ?thesis
    by (simp add: usb_open_def desk_attach i p d(2) o) (simp add: desk_dev_def d(1))
qed

lemma desk_open_type: "open_type desk_env (Some ''1050:0407'') w = Inr (Some desk_dev, w)"
  by (simp add: open_type_def desk_type usb_open_type_def desk_found desk_usb_open)

lemma desk_reader:
  "\<exists>r. ccid_reader_create desk_env desk_dev w = Inr (Some r, w)
     \<and> max_message_size r = 3072 \<and> ep_o (rd_dev r) = 2 \<and> ep_i (rd_dev r) = 0x82 \<and> auto_voltage r"
proof -
  have "(case ccid_reader_create desk_env desk_dev w of Inl e \<Rightarrow> False
    | Inr (r, w') \<Rightarrow> w' = w \<and> (case r of None \<Rightarrow> False
        | Some r \<Rightarrow> max_message_size r = 3072 \<and> ep_o (rd_dev r) = 2 \<and> ep_i (rd_dev r) = 0x82
            \<and> auto_voltage r))"
    by code_simp
  then show ?thesis by (auto split: sum.splits prod.splits option.splits)
qed

text \<open>A card that carries the output along answers as before.\<close>

lemma gives_more_output:
  "gives_more step cap c sw ds sw' c' \<Longrightarrow> gives_more (with_output step) cap (c, out) sw ds sw' (c', out)"
proof (induction rule: gives_more.induct)
  case (no_more sw c)
  then show ?case by (rule gives_more.no_more)
next
  case (more sw c d sw1 c1 ds sw' c')
  have "with_output step (c, out) (get_response (ucast sw)) = (d @ sw_bytes sw1, (c1, out))"
    using more.hyps(2) by (simp add: with_output_def)
  from gives_more.more [OF more.hyps(1) this more.hyps(3,4) more.IH]
  show ?case .
qed

lemma card_answers_output:
  assumes "card_answers step cap c a d sw c'"
  shows "card_answers (with_output step) cap (c, out) a d sw (c', out)"
proof -
  obtain d1 sw1 c1 ds1 where "step c a = (d1 @ sw_bytes sw1, c1)" "length d1 + 2 \<le> cap"
      "gives_more step cap c1 sw1 ds1 sw c'" "d = concat (d1 # ds1)" "length d \<le> cap"
    using assms by (auto simp: card_answers_def responds_def)
  moreover from this have "with_output step (c, out) a = (d1 @ sw_bytes sw1, (c1, out))"
    by (simp add: with_output_def)
  moreover note gives_more_output [OF calculation(3), of out]
  ultimately show ?thesis
    unfolding card_answers_def responds_def by blast
qed

lemma accepts_output:
  "accepts (card_answers step cap) c as d c'
    \<Longrightarrow> accepts (card_answers (with_output step) cap) (c, out) as d (c', out)"
proof (induction rule: accepts.induct)
  case (accepts_last c a d c')
  from accepts.accepts_last [of "card_answers (with_output step) cap", OF card_answers_output [OF accepts_last]]
  show ?case .
next
  case (accepts_more c a d0 c1 as d c')
  from accepts.accepts_more [of "card_answers (with_output step) cap",
      OF card_answers_output [OF accepts_more.hyps(1)] accepts_more.IH]
  show ?case .
qed

lemma desk_link:
  assumes "max_message_size r = 3072" and "ep_o (rd_dev r) = 2" and "ep_i (rd_dev r) = 0x82"
  shows "reader_link desk_token demo_atr (\<lambda>(c, out). (0, out)) (with_output demo_card) snd desk_env r w (snd w)"
proof -
  have "token_env (token_world desk_token) (rd_dev r) (max_message_size r) desk_token snd"
    using assms by (intro token_world_env) simp_all
  moreover have "usbfs_bulk desk_env = usbfs_bulk (token_world desk_token)"
    by (simp add: usbfs_bulk_def)
  ultimately have "token_env desk_env (rd_dev r) (max_message_size r) desk_token snd"
    by (simp add: token_env_def)
  then show ?thesis
    by (simp add: reader_link_def) (simp add: desk_token_def ideal_token_ccid)
qed

lemma desk_serves:
  "serves desk_env desk_dev ([], 0, []) (Some ''123456'') (contents demo_ct) [''key-slot=9a''] snd demo_secret (5, [])"
proof -
  obtain r where r: "ccid_reader_create desk_env desk_dev ([], 0, []) = Inr (Some r, ([], 0, []))"
      "max_message_size r = 3072" "ep_o (rd_dev r) = 2" "ep_i (rd_dev r) = 0x82" "auto_voltage r"
    using desk_reader by blast
  have cap: "capacity r = 3062" "round8 3072 = 3072" by (simp_all add: capacity_def r(2) round8_def)
  have link: "reader_link desk_token demo_atr (\<lambda>(c, out). (0, out)) (with_output demo_card) snd desk_env r
      ([], 0, []) (0, [])"
    using desk_link [OF r(2-4), of "([], 0, [])"] by simp
  have atr: "known_atr demo_atr" "12 + length demo_atr \<le> round8 (unat (max_message_size r))"
    using demo_facts by (auto simp: demo_atr_def r(2) cap)
  have ct: "decipher_algorithm (of_nat (length (contents demo_ct))) = Some YKPIV_ALGO_RSA2048"
    by (simp add: demo_ct_def contents_init decipher_algorithm_def)
  note card = demo_session(1-3) [THEN card_answers_output, of "[]"]
  have answers: "accepts (card_answers (with_output demo_card) (capacity r)) (3, [])
      (decipher_apdus YKPIV_ALGO_RSA2048 (if (0x9a :: u8) = 0 then 0x9e else 0x9a) (decipher_args (contents demo_ct)))
      (decipher_response (pkcs1_block (replicate 109 0xFF) demo_secret)) (5, [])"
    using accepts_output [OF demo_accepts] by (simp add: cap demo_block_def)
  show ?thesis
    by (rule servesI [OF r(1) link atr(2,1) _ demo_options _ _ _ ct answers])
      (use card in \<open>simp_all add: cap r(5) demo_secret_def\<close>)
qed

theorem main_decrypts_witness:
  "\<exists>w'. main desk_env [Opt_Type ''1050:0407'', Opt_Pin ''123456'', Opt_Card_Option ''key-slot=9a'']
      [''secret''] ([], 0, []) = Inr (0, w') \<and> snd (snd w') = demo_secret"
proof -
  let ?es = "[Opt_Type ''1050:0407'', Opt_Pin ''123456'', Opt_Card_Option ''key-slot=9a'']"
  obtain s where s: "main_options ?es settings_init = Inr s" "opt_type s = Some ''1050:0407''"
      "opt_pin s = Some ''123456''" "cardopts s = [''key-slot=9a'']" "opt_output s = None" "debug_level s = 0"
    by (simp add: settings_init_def MAX_CARDOPTS_def)
  have env: "desk_env = desk_env\<lparr>opt_debug := debug_level s\<rparr>"
    by (simp add: s(6) desk_env_def token_world_def)
  have ct: "length (contents demo_ct) = 256" "contents demo_ct = replicate 256 0x55"
    by (simp_all add: demo_ct_def contents_init)
  have out: "accepts_writes desk_env 1 (\<lambda>w. snd (snd w))"
    by (auto simp: accepts_writes_def desk_write_def split: prod.splits)
  have std: "open_stream desk_env None mode 1 w = Inr (1, w)" "close_stream desk_env None fd w = w" for mode w fd
    by (simp_all add: open_stream_def close_stream_def std_stream_def)
  have inp: "open_stream desk_env (Some ''secret'') O_RDONLY 0 w = Inr (5, w)"
      "close_stream desk_env (Some ''secret'') 5 w = w" for w
    by (simp_all add: open_stream_def close_stream_def std_stream_def desk_open_def)
  from main_decrypts [OF s(1) env inp(1), where ct = "contents demo_ct" and st = snd and c' = "(5, [])"
      and m = demo_secret and ofd = 1 and out = "\<lambda>w. snd (snd w)" and dev = desk_dev and ?w2.0 = "([], 0, [])"
      and ?w3.0 = "([], 0, [])"]
  show ?thesis
    using desk_serves out
    by (auto simp: s(2-5) ct desk_fstat_def desk_read_def inp(2) desk_open_type std demo_secret_def)
qed

end
