(* ===== verification/Opening.thy ===== *)
theory Opening
  imports Device_Tree End_To_End
begin

text \<open>
  From a device in sysfs to the interface the reader talks to: \<^verbatim>\<open>__usb_open\<close> hands out the tree of
  the descriptors file, and \<^verbatim>\<open>uusb_dev_select_ccid_interface\<close> takes the first interface of the tree
  with a CCID descriptor and bulk endpoints in both directions.
\<close>

section \<open>From sysfs to the device record\<close>

lemma read_parsed:
  assumes "sys_open env (sysfs_path (sysfs_dir dev) ''descriptors'') O_RDONLY w = (fd, w0)" and "0 \<le> fd"
    and "sys_fstat env fd w0 = Some st_size" and "unat st_size < 2 ^ 31"
    and "sys_read env fd (unat st_size) w0 = (Some bs, w1)" and "length bs \<le> unat st_size"
    and "sys_read env fd (unat st_size - length bs) w1 = (Some [], w2)"
    and "bs = concat (h # tree_stream ts)" and "tree_ok h ts" and "fresh dev"
    and "Suc (length (tree_stream ts)) < fuel env"
  shows "uusb_process_descriptors env dev w = Inr (True, device_of_tree dev h ts, sys_close env fd w2)"
proof -
  have "bs \<noteq> []" using assms(8,9) by (auto simp: tree_ok_def descriptor_ok_def)
  moreover have "2 \<le> fuel env" using assms(11) by simp
  ultimately obtain rest where b: "sysfs_read_buffer env (sysfs_dir dev) ''descriptors'' w
      = Inr (Some (bs @ rest, of_nat (length bs)), sys_close env fd w2)"
    using sysfs_read_whole [OF assms(1-5) _ assms(6,7)] by blast
  have len: "unat (of_nat (length bs) :: u64) = length (concat (h # tree_stream ts))"
      "unat (of_nat (length bs) :: u64) < 2 ^ 31"
    using assms(4,6) unfolding assms(8) [symmetric] by (simp_all add: unat_of_nat_u64)
  show ?thesis
    using parse_tree_ok [OF assms(9,10) len assms(11), of rest]
    by (simp add: uusb_process_descriptors_def b) (simp add: assms(8))
qed

lemma attach_fresh:
  assumes "uusb_attach_device env dev w = (True, dev')"
  shows "sysfs_dir dev' = sysfs_dir dev" and "fresh dev' = fresh dev"
    and "dev_path dev' = Some (dev_node (devaddr dev'))"
  using assms by (auto simp: uusb_attach_device_def Let_def fresh_def split: option.splits if_splits)

text \<open>C11: Where the device node checks out, the descriptors file holds a tree and one read delivers
  it, __usb_open returns the device record of that tree, with the vendor and product of sysfs
  and the descriptor of the opened node.\<close>

theorem usb_open_tree:
  assumes "uusb_attach_device env (dev_zero\<lparr>sysfs_dir := dir, dev_fd := - 1\<rparr>) w = (True, dev)"
    and "sys_open env (sysfs_path dir ''descriptors'') O_RDONLY w = (fd, w0)" and "0 \<le> fd"
    and "sys_fstat env fd w0 = Some st_size" and "unat st_size < 2 ^ 31"
    and "sys_read env fd (unat st_size) w0 = (Some bs, w1)" and "length bs \<le> unat st_size"
    and "sys_read env fd (unat st_size - length bs) w1 = (Some [], w2)"
    and "bs = concat (h # tree_stream ts)" and "tree_ok h ts" and "Suc (length (tree_stream ts)) < fuel env"
    and "sys_open env (dev_node (devaddr dev)) O_RDWR (sys_close env fd w2) = (usb_fd, w3)" and "0 \<le> usb_fd"
  shows "usb_open env dir w = Inr (Some (device_of_tree
      (dev\<lparr>dev_type := \<lparr>idVendor = ucast (sysfs_read_hexadecimal env dir ''idVendor'' w),
         idProduct = ucast (sysfs_read_hexadecimal env dir ''idProduct'' w)\<rparr>, dev_fd := usb_fd\<rparr>) h ts), w3)"
proof -
  let ?dev = "dev\<lparr>dev_type := \<lparr>idVendor = ucast (sysfs_read_hexadecimal env dir ''idVendor'' w),
     idProduct = ucast (sysfs_read_hexadecimal env dir ''idProduct'' w)\<rparr>\<rparr>"
  have dir: "sysfs_dir dev = dir" and fr: "fresh dev" and path: "dev_path dev = Some (dev_node (devaddr dev))"
    using attach_fresh [OF assms(1)] dev_zero_fresh by (simp_all add: fresh_def)
  have i: "uusb_identify_device env dev w = (True, ?dev)"
    by (simp add: uusb_identify_device_def dir)
  have "uusb_process_descriptors env ?dev w = Inr (True, device_of_tree ?dev h ts, sys_close env fd w2)"
    using assms(2-11) fr by (intro read_parsed [where dev = ?dev]) (simp_all add: dir fresh_def)
  moreover have "dev_path (device_of_tree ?dev h ts) = Some (dev_node (devaddr dev))"
    by (simp add: device_of_tree_def built_dev_def path)
  moreover have "(device_of_tree ?dev h ts)\<lparr>dev_fd := usb_fd\<rparr> = device_of_tree (?dev\<lparr>dev_fd := usb_fd\<rparr>) h ts"
    by (simp add: device_of_tree_def built_dev_def)
  ultimately show ?thesis
    using assms(12,13) by (simp add: usb_open_def assms(1) i)
qed

section \<open>The first interface that fits\<close>

lemma find_append: "find P (xs @ ys) = (case find P xs of None \<Rightarrow> find P ys | Some x \<Rightarrow> Some x)"
  by (induction xs) simp_all

text \<open>The interfaces the counters reach, in the order of the loops.\<close>

definition interfaces :: "uusb_dev \<Rightarrow> uusb_interface list" where
  "interfaces dev = concat (map (\<lambda>cf. take (unat (num_interfaces cf)) (cf_interface cf))
     (take (unat (num_configs dev)) (dev_config dev)))"

definition candidate :: "uusb_interface \<Rightarrow> bool" where
  "candidate intf \<longleftrightarrow> if_ccid intf \<noteq> None
     \<and> (let eps = take (unat (num_endpoints intf)) (if_endpoint intf) in
        (\<exists>d \<in> set eps. bulk_in d) \<and> (\<exists>d \<in> set eps. bulk_out d))"

text \<open>The two ioctls that select an interface are not refused.\<close>

definition grants :: "'w env \<Rightarrow> bool" where
  "grants env \<longleftrightarrow> (\<forall>fd n w. 0 \<le> fst (ioctl_setconfiguration env fd n w) \<and> 0 \<le> fst (ioctl_claiminterface env fd n w))"

lemma grants_select: "grants env \<Longrightarrow> fst (uusb_select_interface env dev config intf w)"
  by (auto simp: grants_def uusb_select_interface_def Let_def not_less split: prod.splits)
    (metis fst_conv not_less)+

lemma in_config_first:
  assumes "grants env" and "\<forall>intf \<in> set (cf_interface config). unat (num_endpoints intf) \<le> length (if_endpoint intf)"
  shows "j + n \<le> length (cf_interface config) \<Longrightarrow>
    \<exists>dev' w'. select_in_config env config j n dev w
      = Inr (Option.bind (find candidate (take n (drop j (cf_interface config)))) if_ccid, dev', w')
    \<and> dev_config dev' = dev_config dev
    \<and> (case find candidate (take n (drop j (cf_interface config))) of None \<Rightarrow> w' = w
       | Some intf \<Rightarrow> usable_interface intf dev')"
proof (induction n arbitrary: j dev w)
  case 0
  then show ?case by simp
next
  case (Suc n)
  let ?is = "cf_interface config" and ?i = "cf_interface config ! j"
  have j: "j < length ?is" "unat (num_endpoints ?i) \<le> length (if_endpoint ?i)"
    using Suc.prems assms(2) by simp_all
  have d: "take (Suc n) (drop j ?is) = ?i # take n (drop (Suc j) ?is)"
    using j(1) by (simp add: Cons_nth_drop_Suc [symmetric])
  obtain ok dev1 where s: "uusb_set_endpoints dev ?i = Inr (ok, dev1)"
      and ok: "ok = (let eps = take (unat (num_endpoints ?i)) (if_endpoint ?i) in
        (\<exists>d \<in> set eps. bulk_in d) \<and> (\<exists>d \<in> set eps. bulk_out d))"
    using set_endpoints_ok [OF j(2), of dev] by (auto simp: Let_def)
  note u = set_endpoints_usable [OF s]
  obtain w1 where sel: "uusb_select_interface env dev1 config ?i w = (True, w1)"
    using grants_select [OF assms(1), of dev1 config ?i w] by (cases "uusb_select_interface env dev1 config ?i w") auto
  show ?case
  proof (cases "candidate ?i")
    case True
    then obtain c where "if_ccid ?i = Some c" by (auto simp: candidate_def)
    moreover have ok using True ok by (simp add: candidate_def)
    ultimately show ?thesis
      using j(1) s sel u True by (simp add: arr_in d)
  next
    case False
    then have "if_ccid ?i = None \<or> \<not> ok" using ok by (auto simp: candidate_def)
    then show ?thesis
    proof
      assume n: "if_ccid ?i = None"
      from Suc.IH [of "Suc j" dev w] Suc.prems show ?thesis
        using j(1) n False by (simp add: arr_in d)
    next
      assume n: "\<not> ok"
      show ?thesis
        using j(1) n False s u Suc.IH [of "Suc j" dev w] Suc.IH [of "Suc j" dev1 w] Suc.prems
        by (cases "if_ccid ?i") (auto simp: arr_in d)
    qed
  qed
qed

lemma config_first:
  assumes "grants env"
  shows "i + n \<le> length (dev_config dev) \<Longrightarrow> \<forall>cf \<in> set (dev_config dev). config_fits (\<lambda>_. True) cf \<Longrightarrow>
    \<exists>dev' w'. select_config env i n dev w
      = Inr (Option.bind (find candidate (concat (map (\<lambda>cf. take (unat (num_interfaces cf)) (cf_interface cf))
          (take n (drop i (dev_config dev)))))) if_ccid, dev', w')
    \<and> (case find candidate (concat (map (\<lambda>cf. take (unat (num_interfaces cf)) (cf_interface cf))
          (take n (drop i (dev_config dev))))) of None \<Rightarrow> w' = w | Some intf \<Rightarrow> usable_interface intf dev')"
proof (induction n arbitrary: i dev w)
  case 0
  then show ?case by simp
next
  case (Suc n)
  let ?cf = "dev_config dev ! i"
  have i: "i < length (dev_config dev)" using Suc.prems(1) by simp
  then have cf: "unat (num_interfaces ?cf) \<le> length (cf_interface ?cf)"
      "\<forall>intf \<in> set (cf_interface ?cf). unat (num_endpoints intf) \<le> length (if_endpoint intf)"
    using Suc.prems(2) by (auto simp: config_fits_def intf_fits_def dest: nth_mem)
  have d: "take (Suc n) (drop i (dev_config dev)) = ?cf # take n (drop (Suc i) (dev_config dev))"
    using i by (simp add: Cons_nth_drop_Suc [symmetric])
  obtain dev1 w1 where s: "select_in_config env ?cf 0 (unat (num_interfaces ?cf)) dev w
      = Inr (Option.bind (find candidate (take (unat (num_interfaces ?cf)) (cf_interface ?cf))) if_ccid, dev1, w1)"
      "dev_config dev1 = dev_config dev"
      "case find candidate (take (unat (num_interfaces ?cf)) (cf_interface ?cf)) of None \<Rightarrow> w1 = w
       | Some intf \<Rightarrow> usable_interface intf dev1"
    using in_config_first [OF assms cf(2), of 0 "unat (num_interfaces ?cf)" dev w] cf(1) by auto
  show ?case
  proof (cases "find candidate (take (unat (num_interfaces ?cf)) (cf_interface ?cf))")
    case None
    with Suc.IH [of "Suc i" dev1 w] Suc.prems s i show ?thesis
      by (simp add: arr_in d find_append)
  next
    case (Some intf)
    then have "candidate intf" by (auto simp: find_Some_iff)
    then obtain c where "if_ccid intf = Some c" by (auto simp: candidate_def)
    with Some s i show ?thesis by (simp add: arr_in d find_append)
  qed
qed

text \<open>C12: Where the kernel refuses no configuration and no claim, uusb_dev_select_ccid_interface is a
  search: it returns the CCID descriptor of the first interface, in the order of configurations
  and interfaces, that has one and has bulk endpoints in both directions, with these endpoints
  in the device, and nothing exactly if there is none.\<close>

theorem select_first_candidate:
  assumes "fits (\<lambda>_. True) dev" and "grants env"
  shows "\<exists>dev' w'. uusb_dev_select_ccid_interface env dev w
      = Inr (Option.bind (find candidate (interfaces dev)) if_ccid, dev', w')
    \<and> (case find candidate (interfaces dev) of None \<Rightarrow> w' = w | Some intf \<Rightarrow> usable_interface intf dev')"
  using config_first [OF assms(2), of 0 "unat (num_configs dev)" dev w] assms(1)
  by (simp add: uusb_dev_select_ccid_interface_def interfaces_def fits_def)

text \<open>The token of the closed world.\<close>

lemma token_grants: "grants (token_world tok)"
  by (simp add: grants_def)

theorem select_first_candidate_witness:
  "\<exists>dev' w'. uusb_dev_select_ccid_interface (token_world (\<lambda>t p. (p, t))) (device_of_tree dev_zero yk5_device yk5_tree) ([], 0 :: nat)
     = Inr (Some yk5_ccid, dev', w')
   \<and> usable_interface (interfaces (device_of_tree dev_zero yk5_device yk5_tree) ! 2) dev'"
proof -
  let ?dev = "device_of_tree dev_zero yk5_device yk5_tree"
  have "length (concat (yk5_device # tree_stream yk5_tree)) = 168" "length (tree_stream yk5_tree) = 13"
    by (simp_all add: yk5_tree_stream yk5_device_def yk5_descriptors_def length_ccid_bytes)
  then have "uusb_parse_descriptors 20 dev_zero (concat (yk5_device # tree_stream yk5_tree) @ []) 168 = Inr (True, ?dev)"
    by (intro parse_tree_ok [OF yk5_tree_ok dev_zero_fresh]) simp_all
  from parse_fits_any [OF this fits_zero] have fits: "fits (\<lambda>_. True) ?dev" by simp
  have first: "find candidate (interfaces ?dev) = Some (interfaces ?dev ! 2)" by code_simp
  have ccid: "if_ccid (interfaces ?dev ! 2) = Some yk5_ccid" by code_simp
  show ?thesis
    using select_first_candidate [OF fits token_grants, of "\<lambda>t p. (p, t)" "([], 0 :: nat)"]
    by (simp add: first ccid)
qed

theorem usb_open_tree_witness:
  "\<exists>dev. usb_open desk_env ''/sys/bus/usb/devices/1-1'' ([], 0, [])
     = Inr (Some (device_of_tree dev yk5_device yk5_tree), ([], 0, [])) \<and> dev_fd dev = 3"
proof -
  let ?w = "([], 0, []) :: bytes \<times> nat \<times> bytes"
  have len: "length yk5_bytes = 168" by code_simp
  have path: "sysfs_path ''/sys/bus/usb/devices/1-1'' ''descriptors'' = desk_file ''descriptors''"
    by (simp add: desk_file_def)
  have o: "sys_open desk_env (sysfs_path ''/sys/bus/usb/devices/1-1'' ''descriptors'') O_RDONLY ?w = (4, ?w)"
    by (simp add: path desk_open_def) (simp add: desk_files)
  have s: "sys_fstat desk_env 4 ?w = Some 168"
    by (simp add: desk_fstat_def len)
  have r: "sys_read desk_env 4 (unat (168 :: u64)) ?w = (Some yk5_bytes, ?w)"
      "sys_read desk_env 4 (unat (168 :: u64) - length yk5_bytes) ?w = (Some [], ?w)"
    by (simp_all add: desk_read_def len)
  have bs: "yk5_bytes = concat (yk5_device # tree_stream yk5_tree)"
    by (simp only: yk5_bytes_def yk5_tree_stream)
  have n: "Suc (length (tree_stream yk5_tree)) < fuel desk_env"
    by (simp add: yk5_tree_stream yk5_descriptors_def)
  have d: "sys_open desk_env (dev_node (devaddr (dev_zero\<lparr>sysfs_dir := ''/sys/bus/usb/devices/1-1'', dev_fd := - 1,
       devaddr := \<lparr>bus = 1, dev_num = 7\<rparr>, dev_path := Some ''/dev/bus/usb/001/007''\<rparr>))) O_RDWR
      (sys_close desk_env 4 ?w) = (3, ?w)"
    by (simp add: desk_node desk_open_def desk_files)
  show ?thesis
    by (intro exI conjI, rule usb_open_tree [OF desk_attach o _ s _ r(1) _ r(2) bs yk5_tree_ok n d])
      (simp_all add: len)
qed

end
