(* ===== verification/Main_Safety.thy ===== *)
theory Main_Safety
  imports Any_Device Device_Counts End_To_End
begin

text \<open>
  The whole program on a device that follows no protocol: \<^verbatim>\<open>main\<close> from the command line to the exit
  status, over any files, as long as the system calls do what POSIX says and the descriptors in
  sysfs form a well-formed stream. Each phase ends in the faults of its exchanges or in
  \<^verbatim>\<open>fatal()\<close>; \<open>ends_in\<close> composes the phases.
\<close>

section \<open>The world\<close>

text \<open>
  What POSIX says of files: \<^verbatim>\<open>read\<close> delivers no more than was asked for, \<^verbatim>\<open>write\<close> of something takes
  some of it or fails. Files are smaller than two gigabytes, and the budget of the loops is enough
  for every file of that size.
\<close>

definition posix_files :: "'w env \<Rightarrow> bool" where
  "posix_files env \<longleftrightarrow>
     (\<forall>fd n w. case sys_read env fd n w of (None, _) \<Rightarrow> True | (Some bs, _) \<Rightarrow> length bs \<le> n)
   \<and> (\<forall>fd bs w. bs \<noteq> [] \<longrightarrow> (case sys_write env fd bs w of (n, _) \<Rightarrow> n \<noteq> 0 \<and> n \<le> int (length bs)))
   \<and> (\<forall>fd w. case sys_fstat env fd w of None \<Rightarrow> True | Some st_size \<Rightarrow> unat st_size < 2 ^ 31 - 8)
   \<and> 2 ^ 31 \<le> fuel env"

definition stream_ok :: "(ccid_descriptor \<Rightarrow> bool) \<Rightarrow> bytes list \<Rightarrow> bool" where
  "stream_ok P ds \<longleftrightarrow> ds \<noteq> [] \<and> list_all descriptor_ok ds \<and> within 0 0 0 (tl ds) \<and> list_all (class_ok P) ds"

text \<open>
  What sysfs does: where the file \<^verbatim>\<open>descriptors\<close> of a device can be read, the first \<^verbatim>\<open>read\<close> delivers
  all of it, and it is a well-formed stream of descriptors that fit the arrays. Of the CCID
  descriptors in it, \<open>P\<close> holds.
\<close>

definition sysfs_streams :: "(ccid_descriptor \<Rightarrow> bool) \<Rightarrow> 'w env \<Rightarrow> bool" where
  "sysfs_streams P env \<longleftrightarrow> (\<forall>d_name w fd w0 st_size bs w1.
     sys_open env (sysfs_path (sysfs_path SYSFS_USB_DEVICES d_name) ''descriptors'') O_RDONLY w = (fd, w0) \<longrightarrow> 0 \<le> fd
     \<longrightarrow> sys_fstat env fd w0 = Some st_size \<longrightarrow> sys_read env fd (unat st_size) w0 = (Some bs, w1)
     \<longrightarrow> (\<exists>ds w2. bs = concat ds \<and> stream_ok P ds \<and> sys_read env fd (unat st_size - length bs) w1 = (Some [], w2)))"

lemma posixD:
  assumes "posix_files env"
  shows "sys_read env fd n w = (Some bs, w') \<Longrightarrow> length bs \<le> n"
    and "bs \<noteq> [] \<Longrightarrow> sys_write env fd bs w = (k, w') \<Longrightarrow> k \<noteq> 0 \<and> k \<le> int (length bs)"
    and "sys_fstat env fd w = Some st_size \<Longrightarrow> unat st_size < 2 ^ 31 - 8"
    and "2 ^ 31 \<le> fuel env"
  using assms by (force simp: posix_files_def split: prod.splits option.splits)+

section \<open>Opening a device\<close>

lemma stream_count: "list_all descriptor_ok ds \<Longrightarrow> 3 * length ds \<le> length (concat ds)"
  by (induction ds) (auto simp: descriptor_ok_def)

lemma parse_stream_within:
  assumes "stream_ok P ds" and "dev_ok dev" and "num_configs dev = 0" and "fits P dev"
    and "unat len = length (concat ds)" and "unat len < 2 ^ 31" and "2 ^ 31 \<le> budget"
  shows "ends_in F (uusb_parse_descriptors budget dev (concat ds @ slack) len)
    (\<lambda>(ok, dev'). (ok \<longrightarrow> fits P dev') \<and> same_place dev dev')"
proof -
  obtain h rest where ds: "ds = h # rest" using assms(1) by (cases ds) (auto simp: stream_ok_def)
  have ok: "list_all descriptor_ok (h # rest)" "within 0 0 0 rest" "list_all (class_ok P) rest"
    using assms(1) by (simp_all add: ds stream_ok_def)
  have n: "Suc (length rest) < budget"
    using stream_count [OF ok(1)] assms(5-7) by (simp add: ds)
  note bounds = assms(5) [unfolded ds] assms(6) n
  obtain okv dev' where p: "uusb_parse_descriptors budget dev (concat (h # rest) @ slack) len = Inr (okv, dev')"
    using parse_safe_stream [OF assms(2,3) ok(1,2) bounds] by blast
  let ?st = "\<lparr>ps_dev = dev, ps_config = None, ps_interface = None\<rparr>"
  let ?dt = "uusb_dt_parser_init (concat (h # rest) @ slack) (of_nat (length h))"
  have "list_all descriptor_ok rest" "descriptor_ok h" using ok(1) by simp_all
  note loop = loop_stream_first [OF this(2,1) bounds, of slack ?st]
  obtain ok1 st1 st2 where s: "parse_first ?st (h ! 1) ?dt = Inr (ok1, st1)"
      "ok1 \<longrightarrow> stream_run slack st1 rest = Inr (okv, st2)" "dev' = (if ok1 then ps_dev st2 else ps_dev st1)"
    using p unfolding uusb_parse_descriptors_def loop
    by (auto simp: and_then_def rbind_eq_Inr split: if_splits)
  have "fit_step P ?st st1" by (rule parse_first_fits [OF s(1)])
  moreover have "ok1 \<Longrightarrow> step_ok P st1 okv st2"
    using s(2) ok(1,3) by (intro stream_run_fits [of rest P slack st1 okv st2]) simp_all
  moreover have "okv \<longrightarrow> ok1" using p s(1) unfolding uusb_parse_descriptors_def loop
    by (auto simp: and_then_def rbind_eq_Inr split: if_splits)
  ultimately have "(okv \<longrightarrow> fits P dev') \<and> same_place dev dev'"
    using s(3) assms(4) by (cases ok1) (auto simp: fit_step_def step_ok_def intro: same_place_trans)
  then show ?thesis by (simp add: ds p del: concat.simps)
qed

lemma fits_counts: "fits P dev \<Longrightarrow> counts_ok P dev"
  unfolding fits_def counts_ok_def config_fits_def intf_fits_def
  by (auto split: option.splits) fastforce+

lemma counts_ok_fd [simp]: "counts_ok P (dev\<lparr>dev_fd := fd\<rparr>) = counts_ok P dev"
  by (simp add: counts_ok_def)

lemma process_within:
  assumes "posix_files env" and "sysfs_streams P env" and "dev_ok dev" and "num_configs dev = 0"
    and "fits P dev" and "sysfs_dir dev = sysfs_path SYSFS_USB_DEVICES d_name"
  shows "ends_in F (uusb_process_descriptors env dev w)
    (\<lambda>(ok, dev', w'). ok \<longrightarrow> fits P dev' \<and> same_place dev dev')"
proof -
  let ?d = "sysfs_dir dev"
  obtain fd w0 where o: "sys_open env (sysfs_path ?d ''descriptors'') O_RDONLY w = (fd, w0)"
    by (cases "sys_open env (sysfs_path ?d ''descriptors'') O_RDONLY w")
  show ?thesis
  proof (cases "fd < 0 \<or> sys_fstat env fd w0 = None")
    case True
    with o show ?thesis by (auto simp: uusb_process_descriptors_def sysfs_read_buffer_def)
  next
    case False
    then obtain st_size where st_size: "sys_fstat env fd w0 = Some st_size" and fd: "0 \<le> fd" by auto
    have small: "unat st_size < 2 ^ 31" using posixD(3) [OF assms(1) st_size] by simp
    have fuel: "2 \<le> fuel env" using posixD(4) [OF assms(1)] by simp
    obtain r w1 where rd: "sys_read env fd (unat st_size) w0 = (r, w1)"
      by (cases "sys_read env fd (unat st_size) w0")
    show ?thesis
    proof (cases r)
      case None
      obtain m where "fuel env = Suc m" using fuel by (cases "fuel env") auto
      with None rd o fd st_size show ?thesis
        by (simp add: uusb_process_descriptors_def read_buffer_open)
    next
      case (Some bs)
      obtain ds w2 where ds: "bs = concat ds" "stream_ok P ds"
          "sys_read env fd (unat st_size - length bs) w1 = (Some [], w2)"
        using assms(2) [unfolded sysfs_streams_def, rule_format, OF o [unfolded assms(6)] fd st_size rd [unfolded Some]]
        by blast
      have len: "length bs \<le> unat st_size" using posixD(1) [OF assms(1)] rd Some by blast
      have "bs \<noteq> []"
      proof -
        have "0 < length ds" "list_all descriptor_ok ds" using ds(2) by (simp_all add: stream_ok_def)
        with stream_count [of ds] have "0 < length (concat ds)" by linarith
        then show ?thesis by (auto simp: ds(1))
      qed
      from sysfs_read_whole [OF o fd st_size small rd [unfolded Some] this len ds(3) fuel]
      obtain rest where b: "sysfs_read_buffer env ?d ''descriptors'' w
          = Inr (Some (bs @ rest, of_nat (length bs)), sys_close env fd w2)" by blast
      have "unat (of_nat (length bs) :: u64) = length (concat ds)" "unat (of_nat (length bs) :: u64) < 2 ^ 31"
        using len small by (simp_all add: unat_of_nat_u64 ds(1))
      from parse_stream_within [OF ds(2) assms(3-5) this posixD(4) [OF assms(1)], of F rest]
      show ?thesis
        unfolding uusb_process_descriptors_def b rbind_Inr by (auto simp: ds(1) intro!: ends_bind)
    qed
  qed
qed

lemma attach_dev: "uusb_attach_device env dev w = (ok, dev') \<Longrightarrow>
    num_configs dev' = num_configs dev \<and> dev_config dev' = dev_config dev \<and> sysfs_dir dev' = sysfs_dir dev \<and> (ok \<longrightarrow> dev_path dev' \<noteq> None)"
  by (auto simp: uusb_attach_device_def Let_def split: option.splits if_splits)

lemma fits_arrays: "dev_config dev' = dev_config dev \<Longrightarrow> num_configs dev' = num_configs dev
    \<Longrightarrow> fits P dev' = fits P dev \<and> dev_ok dev' = dev_ok dev"
  by (simp add: fits_def dev_ok_def)

lemma open_within:
  assumes "posix_files env" and "sysfs_streams P env" and "dir = sysfs_path SYSFS_USB_DEVICES d_name"
  shows "ends_in F (usb_open env dir w) (\<lambda>(d, w'). \<forall>dev. d = Some dev \<longrightarrow> counts_ok P dev)"
proof -
  let ?dev0 = "dev_zero\<lparr>sysfs_dir := dir, dev_fd := - 1\<rparr>"
  obtain ok dev1 where a: "uusb_attach_device env ?dev0 w = (ok, dev1)"
    by (cases "uusb_attach_device env ?dev0 w")
  obtain ok2 dev2 where i: "uusb_identify_device env dev1 w = (ok2, dev2)"
    by (cases "uusb_identify_device env dev1 w")
  show ?thesis
  proof (cases ok)
    case False
    with a show ?thesis by (simp add: usb_open_def Let_def)
  next
    case True
    have same: "num_configs dev2 = 0" "dev_config dev2 = dev_config dev_zero" "dev_path dev2 \<noteq> None"
        "sysfs_dir dev2 = sysfs_path SYSFS_USB_DEVICES d_name"
      using assms(3) attach_dev [OF a] i True by (auto simp: uusb_identify_device_def dev_zero_def)
    have "fits P dev2" "dev_ok dev2"
      using fits_zero dev_ok_zero fits_arrays [of dev2 dev_zero] same by (simp_all add: dev_zero_def)
    from process_within [OF assms(1,2) this(2) same(1) this(1) same(4), of F w]
    have "ends_in F (uusb_process_descriptors env dev2 w)
        (\<lambda>(ok, dev', w'). ok \<longrightarrow> counts_ok P dev' \<and> dev_path dev' \<noteq> None)"
      by (rule ends_mono) (use same(3) in \<open>auto simp: same_place_def dest: fits_counts\<close>)
    note process = ends_bind [OF this]
    show ?thesis
      using a i True unfolding usb_open_def Let_def
      by (auto split: option.splits prod.splits intro!: process)
  qed
qed

lemma found_dir:
  assumes "usb_find_device env match_fn w = Some dir"
  shows "\<exists>d_name. dir = sysfs_path SYSFS_USB_DEVICES d_name"
proof -
  have "find_matching match_fn names = Some dir \<Longrightarrow> ?thesis" for names
    by (induction names) (auto simp: Let_def split: if_splits)
  then show ?thesis using assms by (auto simp: usb_find_device_def split: option.splits)
qed

lemma open_type_within:
  assumes "posix_files env" and "sysfs_streams P env"
  shows "ends_in F (open_type env (Some t) w) (\<lambda>(d, w'). \<forall>dev. d = Some dev \<longrightarrow> counts_ok P dev)"
  using open_within [OF assms] found_dir
  by (fastforce simp: open_type_def usb_open_type_def split: option.splits prod.splits)

section \<open>Input and output\<close>

lemma open_stream_within: "Fatal_Exit \<in> F \<Longrightarrow> ends_in F (open_stream env f mode std w) (\<lambda>_. True)"
  by (auto simp: open_stream_def std_stream_def split: option.splits prod.splits)

lemma read_file_within:
  assumes "posix_files env" and "Fatal_Exit \<in> F"
  shows "ends_in F (buffer_read_file env f w) (\<lambda>(b, w'). buf_ok b)"
proof -
  have step: "ends_in F (case sys_fstat env fd w of None \<Rightarrow> Inl Fatal_Exit
       | Some st_size \<Rightarrow>
           (let bp = buffer_alloc_write (junk env) st_size in
            case sys_read env fd (unat st_size) w of
              (None, w) \<Rightarrow> Inl Fatal_Exit
            | (Some bs, w) \<Rightarrow>
                rbind (mem_write (bdata bp) 0 bs) (\<lambda>d.
                  let count = sint (of_nat (length bs) :: u32) in
                  if count < 0 \<or> count \<noteq> sint st_size then Inl Fatal_Exit
                  else Inr (bp\<lparr>bdata := d, wpos := word_of_int count\<rparr>,
                            close_stream env f fd w)))) (\<lambda>(b, w'). buf_ok b)" for fd w
  proof (cases "sys_fstat env fd w")
    case None
    then show ?thesis using assms(2) by simp
  next
    case (Some st)
    obtain r w1 where rd: "sys_read env fd (unat st) w = (r, w1)"
      by (cases "sys_read env fd (unat st) w")
    show ?thesis
    proof (cases r)
      case None
      then show ?thesis using assms(2) Some rd by simp
    next
      case r: (Some bs)
      let ?bp = "buffer_alloc_write (junk env) st"
      have st: "unat st < 2 ^ 31 - 8" using posixD(3) [OF assms(1) Some] .
      have n: "length bs \<le> unat st" using posixD(1) [OF assms(1)] rd r by blast
      have ok: "buf_ok ?bp" "room ?bp = round8 (unat st)" "rpos ?bp = 0" "wpos ?bp = 0"
        using alloc_ok [of st "junk env"] st
        by (simp_all add: buffer_alloc_write_def Let_def buffer_init_write_def)
      have len: "length bs \<le> length (bdata ?bp)"
        using n ok round8_ge [of "unat st"] buf_okD(3) [OF ok(1)] by (simp add: room_def)
      have c: "sint (of_nat (length bs) :: u32) = int (length bs)"
        using n st by (simp add: signed_of_nat signed_take_bit_int_eq_self)
      have fin: "buf_ok (?bp\<lparr>bdata := bs @ drop (length bs) (bdata ?bp), wpos := v\<rparr>)" if "v = of_nat (length bs)" for v
        unfolding that using buf_okD [OF ok(1)] ok(2-4) len n round8_ge [of "unat st"]
        by (auto intro!: buf_okI simp: room_def unat_of_nat_u64 [OF order.strict_trans1 [OF n]] st)
      have "st = of_nat (length bs)" if "int (length bs) = sint st"
      proof -
        have "st = word_of_int (sint st)" by simp
        also have "\<dots> = of_nat (length bs)" by (simp flip: that)
        finally show ?thesis .
      qed
      then have "buf_ok (?bp\<lparr>bdata := bs @ drop (length bs) (bdata ?bp), wpos := st\<rparr>)" if "int (length bs) = sint st"
        using that by (intro fin) simp
      then show ?thesis
        using assms(2) Some rd r len by (simp add: Let_def mem_write_in c)
    qed
  qed
  show ?thesis
    unfolding buffer_read_file_def
    by (rule ends_bind [OF open_stream_within [OF assms(2)]]) (auto intro!: step)
qed

lemma write_loop_within:
  assumes "posix_files env" and "Fatal_Exit \<in> F"
  shows "clear_ok bp \<Longrightarrow> length (contents bp) < k \<Longrightarrow> ends_in F (write_loop k env fd bp w) (\<lambda>_. True)"
proof (induction k arbitrary: bp w)
  case 0
  then show ?case by simp
next
  case (Suc k)
  let ?c = "contents bp" and ?n = "buffer_available bp"
  have ok: "buf_ok bp" "length ?c < 2 ^ 31" using Suc.prems(1) by (simp_all add: clear_ok_def)
  show ?case
  proof (cases "?n = 0")
    case True
    then show ?thesis by (simp add: Let_def)
  next
    case False
    then have ne: "?c \<noteq> []" using ok by (auto simp: buf_simps)
    have n: "unat (scast ?n :: u64) = length ?c"
      using scast_small [of ?n] ok by (simp add: unat_available)
    have rd: "mem_read (buffer_read_pointer bp) 0 (unat (scast ?n :: u64)) = Inr ?c"
      using ok(1) by (simp add: n mem_read_in read_pointer_length read_pointer_prefix)
    obtain j w1 where j: "sys_write env fd ?c w = (j, w1)" by (cases "sys_write env fd ?c w")
    note b = posixD(2) [OF assms(1) ne j]
    show ?thesis
    proof (cases "j < 0")
      case True
      with assms(2) False rd j show ?thesis by (simp add: Let_def)
    next
      case False
      then obtain m where m: "j = int m" "0 < m" "m \<le> length ?c"
        using b by (metis int_nat_eq nat_int not_le of_nat_0_less_iff of_nat_le_iff order_le_imp_less_or_eq)
      have u: "unat (word_of_int j :: u32) = m" using m ok(2) by (simp add: of_nat_u32)
      have sk: "buffer_skip bp (word_of_int j) = (True, buf_drop bp m)"
        using buffer_skip_True [OF ok(1), of "word_of_int j"] m(3) u by simp
      have d: "clear_ok (buf_drop bp m)" "length (contents (buf_drop bp m)) < k"
      proof -
        have "buf_ok (buf_drop bp m)" "contents (buf_drop bp m) = drop m ?c"
          using ok(1) m(3) by (simp_all add: buf_simps)
        moreover have "length (drop m ?c) < length ?c" using ne m(2) by simp
        ultimately show "clear_ok (buf_drop bp m)" "length (contents (buf_drop bp m)) < k"
          using Suc.prems(2) ok(2) unfolding clear_ok_def by (metis less_trans, metis less_Suc_eq_le order_less_le_trans)
      qed
      have nz: "?n \<noteq> 0" by fact
      show ?thesis
        using Suc.IH [OF d] False nz rd j sk by (simp add: Let_def)
    qed
  qed
qed

lemma write_file_within:
  assumes "posix_files env" and "Fatal_Exit \<in> F" and "clear_ok bp"
  shows "ends_in F (buffer_write_file env f bp w) (\<lambda>_. True)"
proof -
  have "length (contents bp) < fuel env"
    using posixD(4) [OF assms(1)] assms(3) by (simp add: clear_ok_def)
  note loop = ends_bind [OF write_loop_within [OF assms this]]
  show ?thesis
    unfolding buffer_write_file_def
    by (rule ends_bind [OF open_stream_within [OF assms(2)]]) (auto intro!: loop)
qed

section \<open>The program on any device\<close>

lemma run_within:
  assumes "bounded_env F env" and "posix_files env" and "sysfs_streams P env" and "Fatal_Exit \<in> F"
    and "opt_type s = Some t" and "Uninitialised \<in> F \<or> opt_pin s = None" and "Null_Deref \<in> F \<or> (\<forall>c. P c \<longrightarrow> message_ok c)"
  shows "ends_in F (main_run env s input w) (\<lambda>(status, w'). status \<le> 1)"
  unfolding main_run_def assms(5)
  by (rule ends_bind [OF read_file_within [OF assms(2,4)]])
    (auto split: option.splits outcome.splits
      intro!: ends_bind [OF open_type_within [OF assms(2,3)]] ends_bind [OF doit_within [OF assms(1) _ _ assms(7,6)]]
        ends_bind [OF write_file_within [OF assms(2,4)]])

lemma options_keep_type:
  "main_options es s = Inr s' \<Longrightarrow> opt_type s \<noteq> None \<Longrightarrow> opt_type s' \<noteq> None"
proof (induction es arbitrary: s)
  case Nil
  then show ?case by simp
next
  case (Cons e es)
  then show ?case by (cases e) (auto split: if_splits)
qed

lemma options_set_type:
  "Opt_Type t \<in> set es \<Longrightarrow> main_options es s = Inr s' \<Longrightarrow> opt_type s' \<noteq> None"
proof (induction es arbitrary: s)
  case Nil
  then show ?case by simp
next
  case (Cons e es)
  then show ?case by (cases e) (auto split: if_splits dest: options_keep_type)
qed

lemma options_pin:
  "main_options es s = Inr s' \<Longrightarrow> \<forall>p. Opt_Pin p \<notin> set es \<Longrightarrow> opt_pin s' = opt_pin s"
proof (induction es arbitrary: s)
  case Nil
  then show ?case by simp
next
  case (Cons e es)
  then show ?case by (cases e) (force split: if_splits)+
qed

lemma options_status: "main_options es s = Inl status \<Longrightarrow> status \<le> 1"
proof (induction es arbitrary: s)
  case Nil
  then show ?case by simp
next
  case (Cons e es)
  then show ?case by (cases e) (auto split: if_splits)
qed

lemma options_debug:
  "Opt_Debug \<notin> set es \<Longrightarrow> main_options es s = Inr s' \<Longrightarrow> debug_level s' = debug_level s"
proof (induction es arbitrary: s)
  case Nil
  then show ?case by simp
next
  case (Cons e es)
  then show ?case by (cases e) (force split: if_splits)+
qed

lemma main_within:
  assumes "bounded_env F (env\<lparr>opt_debug := 0\<rparr>)" and "posix_files env" and "sysfs_streams P env" and "Fatal_Exit \<in> F"
    and "Opt_Type t \<in> set events" and "Opt_Debug \<notin> set events"
    and "Uninitialised \<in> F \<or> (\<forall>p. Opt_Pin p \<notin> set events)" and "Null_Deref \<in> F \<or> (\<forall>c. P c \<longrightarrow> message_ok c)"
  shows "ends_in F (main env events args w) (\<lambda>(status, w'). status \<le> 1)"
proof (cases "main_options events settings_init")
  case (Inl status)
  with options_status [OF Inl] show ?thesis by (simp add: main_def)
next
  case (Inr s)
  have d: "debug_level s = 0"
    using options_debug [OF assms(6) Inr] by (simp add: settings_init_def)
  have pin: "Uninitialised \<in> F \<or> opt_pin s = None"
    using options_pin [OF Inr] assms(7) by (auto simp: settings_init_def)
  obtain t' where "opt_type s = Some t'" using options_set_type [OF assms(5) Inr] by auto
  moreover have "posix_files (env\<lparr>opt_debug := 0\<rparr>)" "sysfs_streams P (env\<lparr>opt_debug := 0\<rparr>)"
    using assms(2,3) by (simp_all add: posix_files_def sysfs_streams_def)
  ultimately have "ends_in F (main_run (env\<lparr>opt_debug := 0\<rparr>) s input w) (\<lambda>(status, w'). status \<le> 1)" for input
    using assms(1,4,8) pin by (intro run_within)
  with Inr d show ?thesis by (auto simp: main_def split: list.splits)
qed

section \<open>Properties\<close>

text \<open>C3: Memory safety of the whole program against a hostile token: for every command line with
  --type and without --debug, every file contents, every answer of the device and every message
  length it announces, in a world whose system calls do what POSIX and usbfs promise and whose
  sysfs descriptor files are well-formed streams that fit the arrays and are delivered by one
  read, main makes no access out of bounds and ends: with exit status 0 or 1, by fatal(), in the
  one null pointer that a truncated packet makes ccid_xfer dereference, or, with --pin, in the
  read of the variable retries_left that nothing was stored to.\<close>

theorem main_contained:
  assumes "usbfs_bulk env" and "posix_files env" and "sysfs_streams (\<lambda>_. True) env"
    and "Opt_Type t \<in> set events" and "Opt_Debug \<notin> set events"
  shows "case main env events args w of
      Inl e \<Rightarrow> e \<in> {Null_Deref, Fatal_Exit} \<or> e = Uninitialised \<and> (\<exists>p. Opt_Pin p \<in> set events)
    | Inr (status, w') \<Rightarrow> status \<le> 1"
proof -
  let ?F = "{Null_Deref, Fatal_Exit} \<union> (if \<exists>p. Opt_Pin p \<in> set events then {Uninitialised} else {})"
  have "bounded_env ?F (env\<lparr>opt_debug := 0\<rparr>)"
    using assms(1) by (simp add: bounded_env_def usbfs_bulk_def)
  from main_within [OF this assms(2,3) _ assms(4,5), of args w] show ?thesis
    by (cases "\<exists>p. Opt_Pin p \<in> set events") (auto simp: ends_in_def split: sum.splits)
qed

text \<open>C4: If moreover the devices announce messages of 9 to 2 ^ 32 - 8 bytes, and no packet of the
  device announces more payload than it holds, main without --pin always ends properly: it calls
  fatal() or returns exit status 0 or 1. With --pin the read of retries_left is the only other
  end.\<close>

theorem main_returns:
  assumes "usbfs_bulk env" and "posix_files env" and "sysfs_streams message_ok env"
    and "Opt_Type t \<in> set events" and "Opt_Debug \<notin> set events" and "whole_packets env"
  shows "main env events args w = Inl Fatal_Exit \<or> (\<exists>status w'. main env events args w = Inr (status, w') \<and> status \<le> 1)
    \<or> (\<exists>p. Opt_Pin p \<in> set events) \<and> main env events args w = Inl Uninitialised"
proof -
  let ?F = "{Fatal_Exit} \<union> (if \<exists>p. Opt_Pin p \<in> set events then {Uninitialised} else {})"
  have "bounded_env ?F (env\<lparr>opt_debug := 0\<rparr>)"
    using assms(1,6) by (simp add: bounded_env_def usbfs_bulk_def whole_packets_def)
  from ends_cases [OF main_within [OF this assms(2,3) _ assms(4,5), of args w]] show ?thesis
    by (cases "\<exists>p. Opt_Pin p \<in> set events") auto
qed

text \<open>The world of the closed run, with a budget for every file, and with a device that answers zeros.\<close>

definition wide_desk :: "(bytes \<times> nat \<times> bytes) env" where
  "wide_desk = desk_env\<lparr>fuel := 2 ^ 31\<rparr>"

definition zero_desk :: "(bytes \<times> nat \<times> bytes) env" where
  "zero_desk = wide_desk\<lparr>ioctl_bulk := zero_bulk\<rparr>"

lemma desk_length: "length yk5_bytes = 168"
  by code_simp

lemma desk_posix: "posix_files wide_desk"
  by (auto simp: posix_files_def wide_desk_def desk_read_def desk_write_def desk_fstat_def desk_length
      split: prod.splits)

lemma desk_path:
  assumes "desk_open (sysfs_path (sysfs_path SYSFS_USB_DEVICES n) ''descriptors'') O_RDONLY w = (fd, w0)" and "0 \<le> fd"
  shows "fd = 4"
  using assms
  by (auto simp: desk_open_def sysfs_path_def SYSFS_USB_DEVICES_def PATH_MAX_def split: if_splits)

lemma desk_stream_ok: "stream_ok message_ok (yk5_device # yk5_descriptors)"
  using yk5_stream by (simp add: stream_ok_def) code_simp

lemma streams_mono:
  assumes "sysfs_streams P env" and "\<And>c. P c \<Longrightarrow> Q c"
  shows "sysfs_streams Q env"
proof -
  have "stream_ok Q ds" if "stream_ok P ds" for ds
    using that assms(2) by (auto simp: stream_ok_def list_all_iff class_ok_def)
  with assms(1) show ?thesis unfolding sysfs_streams_def by meson
qed

lemma desk_streams: "sysfs_streams message_ok wide_desk"
  unfolding sysfs_streams_def
proof (intro allI impI)
  fix d_name fd st_size bs and w w0 w1 :: "bytes \<times> nat \<times> bytes"
  assume o: "sys_open wide_desk (sysfs_path (sysfs_path SYSFS_USB_DEVICES d_name) ''descriptors'') O_RDONLY w = (fd, w0)"
    and fd: "0 \<le> fd" and s: "sys_fstat wide_desk fd w0 = Some st_size"
    and r: "sys_read wide_desk fd (unat st_size) w0 = (Some bs, w1)"
  have "fd = 4" using desk_path [of d_name w fd w0] o fd by (simp add: wide_desk_def)
  then have "bs = yk5_bytes" "unat st_size = 168"
    using s r by (auto simp: wide_desk_def desk_fstat_def desk_read_def desk_length)
  with \<open>fd = 4\<close> show "\<exists>ds w2. bs = concat ds \<and> stream_ok message_ok ds
      \<and> sys_read wide_desk fd (unat st_size - length bs) w1 = (Some [], w2)"
    by (intro exI [of _ "yk5_device # yk5_descriptors"] exI [of _ w1])
      (simp add: desk_stream_ok wide_desk_def desk_read_def desk_length, simp add: yk5_bytes_def)
qed

lemma desk_usbfs: "usbfs_bulk wide_desk"
proof -
  have "usbfs_bulk wide_desk = usbfs_bulk (token_world desk_token)"
    by (simp add: usbfs_bulk_def wide_desk_def desk_env_def)
  then show ?thesis by (simp add: token_world_usbfs)
qed

theorem main_contained_witness:
  "case main wide_desk [Opt_Type ''1050:0407''] [''secret''] ([], 0, []) of
     Inl e \<Rightarrow> e \<in> {Null_Deref, Fatal_Exit} | Inr (status, w') \<Rightarrow> status \<le> 1"
  using main_contained [OF desk_usbfs desk_posix streams_mono [OF desk_streams TrueI],
      of "''1050:0407''" "[Opt_Type ''1050:0407'']" "[''secret'']" "([], 0, [])"]
  by (auto split: sum.splits prod.splits)

theorem main_returns_witness:
  "main zero_desk [Opt_Type ''1050:0407''] [''secret''] ([], 0, []) = Inl Fatal_Exit
   \<or> (\<exists>status w'. main zero_desk [Opt_Type ''1050:0407''] [''secret''] ([], 0, []) = Inr (status, w')
        \<and> status \<le> 1)"
proof -
  have "posix_files zero_desk" "sysfs_streams message_ok zero_desk"
    using desk_posix desk_streams by (simp_all add: posix_files_def sysfs_streams_def zero_desk_def)
  moreover have "usbfs_bulk zero_desk" "whole_packets zero_desk"
    by (simp_all add: zero_bulk_whole zero_desk_def)
  ultimately show ?thesis
    using main_returns [of zero_desk "''1050:0407''" "[Opt_Type ''1050:0407'']" "[''secret'']" "([], 0, [])"] by simp
qed

end
