(* ===== verification/Spec2Isabelle.thy ===== *)
theory Spec2Isabelle
  imports Prelude Environment Bufparser Buffer_File Util Dt_Parser Ccid Descriptor Device_Counts
    Device_Tree Usb Reader Disabled_Code Scard Yubikey Main_Program Exchange_Invariant Any_Device
    End_To_End Opening Main_Safety
begin

text \<open>
  A model of utoken-decrypt, a small program that decrypts a secret with a key on a YubiKey. It
  finds the token in sysfs, talks CCID to it over usbfs, exchanges APDUs with the PIV
  application, and writes the cleartext.

  \<^bold>\<open>The parts and how they interact.\<close> \<^verbatim>\<open>main\<close> (main.c) reads the ciphertext into a buffer
  (bufparser.c), opens the device of the given type (usb.c, which parses the descriptors of the
  device with descriptor.c and ccid.c), creates a CCID reader on it (reader.c), has the card
  identified by its ATR (scard.c), configures it, selects the application, verifies the PIN and
  decrypts (yubikey.c through the driver table of scard.c), and writes the result. Data moves
  between the layers in the buffers of bufparser.h.

  \<^bold>\<open>Theories.\<close>
  \<^item> Prelude: machine integers, the faults a run can end in, the result type, accesses through a
    pointer, little-endian codec.
  \<^item> Environment: the operating system. Every system call is a field of the record \<open>env\<close>, a
    function of the state of the world \<open>'w\<close>; nothing is assumed of it in the definitions.
  \<^item> Bufparser, Buffer_File: bufparser.h and bufparser.c. A buffer is its two positions, its size
    and the bytes of its block. The invariant \<open>buf_ok\<close> and the view \<open>contents\<close>, \<open>room\<close> are what the
    other theories use; the locale \<open>byte_fifo\<close> states the contract.
  \<^item> Util: util.c, and \<^verbatim>\<open>strtoul\<close> and the conversions of \<^verbatim>\<open>printf\<close> the program uses.
  \<^item> Dt_Parser, Ccid, Descriptor: uusb_const.h, ccid.c, ccid_impl.h, descriptor.c, uusb_impl.h. The
    locale \<open>descriptor_parser\<close> is the contract of a parser of fixed length; the five parsers of the
    program are its interpretations.
  \<^item> Device_Counts: the record of a device as a type: \<open>fits\<close> says that no counter exceeds its array,
    and a parse that accepts the device keeps it on any bytes. A rejected device may have a counter
    behind its array (\<open>rejected_counter\<close>).
  \<^item> Device_Tree: what the parser computes. \<open>config_tree\<close> is the tree a device flattens into its
    descriptors, \<open>device_of_tree\<close> the record it should become. \<open>excess\<close> is one descriptor too many.
  \<^item> Usb: usb.c, from sysfs to bulk transfers.
  \<^item> Reader: reader.c. \<open>ccid_packet\<close> and \<open>decode_packet\<close> are the reference for the packet format,
    \<open>classify\<close> for the exchange, \<open>reader_link\<close> says that a reader is linked to a card in a given
    state; the locale \<open>apdu_channel\<close> is what the card layer relies on.
  \<^item> Disabled_Code: code behind \<^verbatim>\<open>NOT_NEEDED\<close> and \<^verbatim>\<open>WITH_UTF16\<close>, and the inline functions of util.h.
  \<^item> Scard: scard.c, scard.h and \<^verbatim>\<open>ccid_reader_identify_card\<close>. \<open>gives_more\<close> and \<open>responds\<close> are the
    card's side of response chaining, \<open>gave\<close> its rounds so far; the locale \<open>card_channel\<close> is what the drivers rely on.
  \<^item> Yubikey: yubikey.c. \<open>tlv\<close>, \<open>decipher_args\<close>, \<open>strip_padding\<close> and \<open>decipher_apdus\<close> are the
    references for encoder, decoders and command chaining.
  \<^item> Main_Program: main.c.
  \<^item> Exchange_Invariant: the layers above \<^verbatim>\<open>ccid_xfer\<close> reach the device only through exchanges of
    well-formed commands. The locale \<open>exchange_invariant\<close> carries a property of reader and world that
    an exchange keeps up to \<^verbatim>\<open>doit\<close>, together with the faults an exchange can end in.
  \<^item> Any_Device: its two interpretations. \<open>bounded_env\<close> and \<open>counts_ok\<close> are what is asked of the
    device; \<open>session\<close> is the transition system of the packets that go out. Any message length is
    safe: packets of two gigabytes are never received, and a reader whose packets are too short
    for the response decoder cannot deliver an ATR the driver knows (\<open>yubikey_atrs_long\<close>).
  \<^item> End_To_End: \<^verbatim>\<open>main\<close> from the command line to the output. \<open>serves\<close> bundles what the device does
    in a decryption, \<open>desk_env\<close> is a world in which everything happens.
  \<^item> Opening: from a directory in sysfs to the device record of its tree (\<open>usb_open_tree\<close>) and to the
    interface the reader uses (\<open>interfaces\<close>, \<open>candidate\<close>).
  \<^item> Main_Safety: \<^verbatim>\<open>main\<close> on any device. \<open>posix_files\<close> and \<open>sysfs_streams\<close> are what is asked of the
    system calls and of sysfs; every phase of \<^verbatim>\<open>main\<close> has a lemma in the form of \<open>ends_in\<close>.

  \<^bold>\<open>How the code is rendered.\<close> A function that can fault returns \<open>fault + 'a\<close>; \<open>None\<close> is a null
  pointer or a failure the code reports to its caller. Undefined behaviour of C (access out of
  bounds, null dereference, use of an uninitialised variable, a format without its argument) is
  a fault, \<^verbatim>\<open>fatal()\<close> is \<open>Fatal_Exit\<close>. Objects the code passes by pointer and modifies (reader,
  card, buffer, device) are returned updated. Unsigned integers are words of their width, and
  sums wrap as in C. A pointer into a block is the list of bytes from its target on. Fresh memory
  holds whatever the function \<open>junk\<close> says.

  \<^bold>\<open>Bounds and fuel.\<close> Three loops need not end: the loop over the descriptors, the reads of a
  sysfs file and the writes of the output. They take the budget \<open>fuel env\<close> and end in
  \<open>Out_Of_Fuel\<close> without it. One iteration per descriptor and one more are enough on a well-formed
  stream; as many as there are bytes to write and one more are enough for the output; two are
  enough for a file that arrives in one read; \<open>posix_files\<close> asks for as many as the largest file has
  bytes, which covers all of them. That no budget is enough for a descriptor of
  length zero is a property of its own. All other loops are recursive functions with a proof of
  termination; the exchange of a packet makes at most six attempts, as in the code.

  \<^bold>\<open>What the properties show.\<close> The central ones are \<open>doit_decrypts\<close> and \<open>main_decrypts\<close>: for a
  token that follows the CCID specification and a card that accepts the commands of the program,
  \<^verbatim>\<open>doit\<close> returns the message in the PKCS\#1 block of the card's answer, and \<^verbatim>\<open>main\<close> writes it to the
  output. \<open>main_contained\<close> is their counterpart for a token that follows nothing: memory safety of
  the whole program, but for one null pointer and, with a PIN, the read of the retry counter in
  \<^verbatim>\<open>doit\<close> (\<open>doit_wrong_pin\<close>); \<open>main_returns\<close> excludes the null pointer too for whole packets; \<open>doit_contained\<close> and \<open>doit_returns\<close> say it of the session with the device alone. On the way
  to the session, \<open>parse_rebuilds_tree\<close>, \<open>usb_open_tree\<close> and \<open>select_first_candidate\<close> say what the
  program makes of the descriptors of any well-formed device. Below them stand the refinement of
  the exchange layers (sessions, response chaining, command chaining), the numbering of commands, the equivalence of encoders and decoders with
  references, round trips, memory safety of the parsers on well-formed input and of the response
  decoder on any input, error outcomes, and the places where the code misbehaves on hostile
  input, each as a theorem about the model.

  \<^bold>\<open>Not modelled.\<close> Messages on standard error have no effect on the run; their text is modelled in
  Disabled_Code, but the calls are left out, except where their arguments are evaluated with an
  effect. \<^verbatim>\<open>getopt_long\<close> is represented by the events it returns. Allocation does not fail and its
  release is not tracked. The \<^verbatim>\<open>usb_debug\<close> calls are compiled out. What the kernel, the token and the
  card do is a hypothesis of the properties that need it: \<open>usbfs_bulk\<close>, \<open>posix_files\<close>, \<open>token_env\<close>,
  \<open>ccid_token\<close> and \<open>card_answers\<close> state documented behaviour, and \<open>ideal_token\<close>, \<open>token_world\<close>,
  \<open>desk_env\<close> and \<open>wide_desk\<close> are instances for which they hold.

  \<^bold>\<open>Plan.\<close> Ownership of buffers and responses across the layers (release exactly once).
\<close>

end
